(* ===== verification/Go_Prelude.thy ===== *)
theory Go_Prelude
  imports Main "HOL-Library.Char_ord" "HOL-Library.List_Lexorder" "HOL-Library.Sublist"
begin

text \<open>
  The shared prelude: Go strings and the functions of the Go standard library that the program
  applies to them (packages strings, strconv, bytes, path/filepath and fmt), Go errors, and the
  collections of lemmas the component theories pass to the simplifier.

  A Go \<open>string\<close> (and a \<open>[]byte\<close>) is a sequence of bytes: the type \<^typ>\<open>string\<close>, whose
  characters are 8 bits wide, is exactly that, so \<^const>\<open>length\<close> is Go's \<open>len\<close> and the
  lexicographic order of \<^theory_text>\<open>List_Lexorder\<close> over \<^theory_text>\<open>Char_ord\<close> is the byte order of
  \<open>sort.Strings\<close>.  A Go map with string keys is an association list with distinct keys: the
  list is one order in which a \<open>range\<close> over the map may visit it, so that what the code makes of
  that unspecified order stays visible.
\<close>

named_theorems go_string_simps \<open>equations of the string functions\<close>
named_theorems go_len \<open>lengths and bounds\<close>

subsection \<open>Errors\<close>

text \<open>
  A Go \<open>error\<close> value: an errno of the kernel, a message \<open>fmt.Errorf(fmt, args)\<close>, or a message
  that wraps another error with the verb \<open>%w\<close>.  \<open>nil\<close> is \<^const>\<open>None\<close>; a function that returns
  \<open>(T, error)\<close> returns a sum, \<^const>\<open>Inl\<close> the error.
\<close>

datatype garg = AStr string | AInt int | AStrs "string list"

datatype goerr =
    Errno int
  | Errorf string "garg list"
  | Wrapf string "garg list" goerr

type_synonym 'a result = "goerr + 'a"

definition EPERM :: int where "EPERM = 1"
definition ENOENT :: int where "ENOENT = 2"
definition ESRCH :: int where "ESRCH = 3"
definition ECHILD :: int where "ECHILD = 10"
definition EBUSY :: int where "EBUSY = 16"
definition EEXIST :: int where "EEXIST = 17"
definition EINVAL :: int where "EINVAL = 22"

text \<open>
  \<open>os.IsNotExist\<close> looks at the error itself (an errno under a path error), never through \<open>%w\<close>;
  \<open>errors.Is\<close> unwraps.
\<close>

fun is_not_exist :: "goerr \<Rightarrow> bool" where
  "is_not_exist (Errno n) = (n = ENOENT)"
| "is_not_exist _ = False"

fun errors_is :: "goerr \<Rightarrow> int \<Rightarrow> bool" where
  "errors_is (Errno n) m = (n = m)"
| "errors_is (Errorf _ _) m = False"
| "errors_is (Wrapf _ _ e) m = errors_is e m"

text \<open>A validation loop over a slice stops at the first element that is refused.\<close>

locale indexed_validator =
  fixes check :: "nat \<Rightarrow> 'a \<Rightarrow> goerr option"
    and loop :: "nat \<Rightarrow> 'a list \<Rightarrow> goerr option"
  assumes loop_Nil: "loop i [] = None"
    and loop_Cons: "loop i (x # xs) =
      (case check i x of Some e \<Rightarrow> Some e | None \<Rightarrow> loop (Suc i) xs)"
begin

lemma loop_None_iff: "loop i xs = None \<longleftrightarrow> (\<forall>k < length xs. check (i + k) (xs ! k) = None)"
proof (induction xs arbitrary: i)
  case Nil
  show ?case by (simp add: loop_Nil)
next
  case (Cons x xs)
  have "(\<forall>k < length (x # xs). check (i + k) ((x # xs) ! k) = None) \<longleftrightarrow>
    check i x = None \<and> (\<forall>k < length xs. check (Suc i + k) (xs ! k) = None)"
    by (auto simp: nth_Cons less_Suc_eq_0_disj split: nat.splits)
  then show ?case by (auto simp: loop_Cons Cons.IH split: option.splits)
qed

lemma loop_Some_iff: "loop i xs = Some e \<longleftrightarrow>
  (\<exists>k < length xs. check (i + k) (xs ! k) = Some e \<and> (\<forall>j < k. check (i + j) (xs ! j) = None))"
proof (induction xs arbitrary: i)
  case Nil
  show ?case by (simp add: loop_Nil)
next
  case (Cons x xs)
  show ?case
  proof (cases "check i x")
    case (Some e')
    then show ?thesis
      by (auto simp: loop_Cons gr0_conv_Suc intro!: exI[of _ 0])
        (metis add.right_neutral gr0I nth_Cons_0 option.distinct(1) option.inject)
  next
    case None
    have "(\<exists>k < length (x # xs). check (i + k) ((x # xs) ! k) = Some e \<and>
        (\<forall>j < k. check (i + j) ((x # xs) ! j) = None)) \<longleftrightarrow>
      (\<exists>k < length xs. check (Suc i + k) (xs ! k) = Some e \<and>
        (\<forall>j < k. check (Suc i + j) (xs ! j) = None))" (is "?l \<longleftrightarrow> ?r")
    proof
      assume ?l
      then obtain k where k: "k < length (x # xs)" "check (i + k) ((x # xs) ! k) = Some e"
        "\<forall>j < k. check (i + j) ((x # xs) ! j) = None" by blast
      with None obtain k' where "k = Suc k'" by (cases k) auto
      with k show ?r by (intro exI[of _ k']) force
    next
      assume ?r
      then obtain k where k: "k < length xs" "check (Suc i + k) (xs ! k) = Some e"
        "\<forall>j < k. check (Suc i + j) (xs ! j) = None" by blast
      show ?l
      proof (intro exI[of _ "Suc k"] conjI allI impI)
        fix j assume "j < Suc k"
        with k(3) None show "check (i + j) ((x # xs) ! j) = None" by (cases j) auto
      qed (use k in auto)
    qed
    with None show ?thesis by (simp add: loop_Cons Cons.IH)
  qed
qed

lemma loop_append: "loop i (xs @ ys) =
  (case loop i xs of Some e \<Rightarrow> Some e | None \<Rightarrow> loop (i + length xs) ys)"
  by (induction xs arbitrary: i) (auto simp: loop_Nil loop_Cons split: option.splits)

end

subsection \<open>Package strings\<close>

text \<open>\<open>strings.Split(s, sep)\<close> with a separator of one byte: never the empty list.\<close>

fun split_on :: "char \<Rightarrow> string \<Rightarrow> string list" where
  "split_on c [] = [[]]"
| "split_on c (x # xs) =
     (if x = c then [] # split_on c xs
      else (case split_on c xs of [] \<Rightarrow> [[x]] | w # ws \<Rightarrow> (x # w) # ws))"

text \<open>\<open>strings.Join\<close>.\<close>

fun join_with :: "string \<Rightarrow> string list \<Rightarrow> string" where
  "join_with sep [] = []"
| "join_with sep [w] = w"
| "join_with sep (w # ws) = w @ sep @ join_with sep ws"

text \<open>\<open>strings.IndexByte\<close>; -1 is \<^const>\<open>None\<close>.\<close>

fun index_byte :: "char \<Rightarrow> string \<Rightarrow> nat option" where
  "index_byte c [] = None"
| "index_byte c (x # xs) = (if x = c then Some 0 else map_option Suc (index_byte c xs))"

text \<open>\<open>strings.Cut\<close> with a separator of one byte; not found is \<^const>\<open>None\<close>.\<close>

definition cut :: "char \<Rightarrow> string \<Rightarrow> (string \<times> string) option" where
  "cut c s = map_option (\<lambda>i. (take i s, drop (Suc i) s)) (index_byte c s)"

text \<open>\<open>strings.CutPrefix\<close>.\<close>

fun cut_prefix :: "string \<Rightarrow> string \<Rightarrow> string option" where
  "cut_prefix [] s = Some s"
| "cut_prefix (p # ps) [] = None"
| "cut_prefix (p # ps) (x # xs) = (if p = x then cut_prefix ps xs else None)"

text \<open>\<open>bytes.Index\<close> and \<open>strings.Contains\<close>.\<close>

fun index_of :: "string \<Rightarrow> string \<Rightarrow> nat option" where
  "index_of sub [] = (if sub = [] then Some 0 else None)"
| "index_of sub (x # xs) =
     (if prefix sub (x # xs) then Some 0 else map_option Suc (index_of sub xs))"

definition contains :: "string \<Rightarrow> string \<Rightarrow> bool" where
  "contains s sub = (index_of sub s \<noteq> None)"

lemma split_on_not_Nil [simp]: "split_on c s \<noteq> []"
  by (induction s) (auto split: list.splits)

lemma length_split_on [go_len]: "length (split_on c s) = Suc (count_list s c)"
  by (induction s) (auto split: list.splits)

lemma split_on_no_sep: "w \<in> set (split_on c s) \<Longrightarrow> c \<notin> set w"
  by (induction s arbitrary: w) (fastforce split: list.splits if_splits)+

lemma split_on_id [simp]: "c \<notin> set s \<Longrightarrow> split_on c s = [s]"
  by (induction s) auto

lemma split_on_append_sep [simp]:
  "c \<notin> set w \<Longrightarrow> split_on c (w @ c # s) = w # split_on c s"
  by (induction w) auto

lemma join_with_Cons: "ws \<noteq> [] \<Longrightarrow> join_with sep (w # ws) = w @ sep @ join_with sep ws"
  by (cases ws) auto

lemma join_split [simp]: "join_with [c] (split_on c s) = s"
proof (induction s)
  case Nil
  show ?case by simp
next
  case (Cons x s)
  show ?case
  proof (cases "split_on c s")
    case Nil
    then show ?thesis by simp
  next
    case (Cons w ws)
    with Cons.IH show ?thesis by (cases ws) (auto simp: join_with_Cons)
  qed
qed

lemma split_join: "ws \<noteq> [] \<Longrightarrow> \<forall>w \<in> set ws. c \<notin> set w \<Longrightarrow> split_on c (join_with [c] ws) = ws"
proof (induction ws)
  case Nil
  then show ?case by simp
next
  case (Cons w ws)
  then show ?case by (cases ws) (auto simp: join_with_Cons)
qed

lemma index_byte_None [simp]: "index_byte c s = None \<longleftrightarrow> c \<notin> set s"
  by (induction s) auto

lemma index_byte_absent [simp]: "c \<notin> set s \<Longrightarrow> index_byte c s = None"
  by simp

lemma index_byte_append [simp]: "c \<notin> set w \<Longrightarrow> index_byte c (w @ c # s) = Some (length w)"
  by (induction w) auto

lemma index_byte_Some_iff: "index_byte c s = Some i \<longleftrightarrow>
  i < length s \<and> s ! i = c \<and> c \<notin> set (take i s)"
proof (induction s arbitrary: i)
  case Nil
  show ?case by simp
next
  case (Cons x s)
  then show ?case by (cases i) auto
qed

lemma cut_None [simp]: "cut c s = None \<longleftrightarrow> c \<notin> set s"
  by (simp add: cut_def)

lemma cut_absent [simp]: "c \<notin> set s \<Longrightarrow> cut c s = None"
  by simp

lemma cut_append [simp]: "c \<notin> set w \<Longrightarrow> cut c (w @ c # s) = Some (w, s)"
  by (simp add: cut_def)

lemma cut_Some_iff: "cut c s = Some (a, b) \<longleftrightarrow> s = a @ c # b \<and> c \<notin> set a"
proof
  assume "cut c s = Some (a, b)"
  then obtain i where i: "index_byte c s = Some i" "a = take i s" "b = drop (Suc i) s"
    by (auto simp: cut_def)
  then have "i < length s" "s ! i = c" "c \<notin> set (take i s)" by (auto simp: index_byte_Some_iff)
  with i show "s = a @ c # b \<and> c \<notin> set a" by (metis id_take_nth_drop)
qed auto

lemma cut_prefix_Some_iff: "cut_prefix p s = Some r \<longleftrightarrow> s = p @ r"
  by (induction p s rule: cut_prefix.induct) auto

lemma cut_prefix_append [simp]: "cut_prefix p (p @ r) = Some r"
  by (simp add: cut_prefix_Some_iff)

lemma cut_prefix_None_iff: "cut_prefix p s = None \<longleftrightarrow> \<not> prefix p s"
  by (auto simp: prefix_def cut_prefix_Some_iff not_None_eq[symmetric] simp del: not_None_eq
      intro: option.exhaust)

lemma index_of_None_iff: "index_of sub s = None \<longleftrightarrow> \<not> sublist sub s"
  by (induction s) (auto simp: sublist_Cons_right)

lemma contains_iff_sublist: "contains s sub \<longleftrightarrow> sublist sub s"
  by (simp add: contains_def index_of_None_iff)

end
