(* ===== verification/Go_Text.thy ===== *)
theory Go_Text
  imports Go_Prelude
begin

text \<open>
  Text processing of the Go standard library as far as the program uses it: \<open>strings.Fields\<close> and
  \<open>strings.TrimSpace\<close> on UTF-8 bytes, \<open>bufio.Scanner\<close> over lines, \<open>strconv.ParseUint\<close> /
  \<open>Atoi\<close>, the verb \<open>%d\<close>, and the lexical path functions of \<open>path/filepath\<close>.
\<close>

subsection \<open>White space\<close>

text \<open>
  The UTF-8 encodings of the code points for which \<open>unicode.IsSpace\<close> holds.  A lead byte of one
  encoding is never a continuation byte of another, so reading the string byte by byte finds the
  same spaces as decoding its runes.
\<close>

definition go_spaces :: "string list" where
  "go_spaces = [[CHR 0x09], [CHR 0x0A], [CHR 0x0B], [CHR 0x0C], [CHR 0x0D], [CHR 0x20],
     [CHR 0xC2, CHR 0x85], [CHR 0xC2, CHR 0xA0], [CHR 0xE1, CHR 0x9A, CHR 0x80],
     [CHR 0xE2, CHR 0x80, CHR 0x80], [CHR 0xE2, CHR 0x80, CHR 0x81],
     [CHR 0xE2, CHR 0x80, CHR 0x82], [CHR 0xE2, CHR 0x80, CHR 0x83],
     [CHR 0xE2, CHR 0x80, CHR 0x84], [CHR 0xE2, CHR 0x80, CHR 0x85],
     [CHR 0xE2, CHR 0x80, CHR 0x86], [CHR 0xE2, CHR 0x80, CHR 0x87],
     [CHR 0xE2, CHR 0x80, CHR 0x88], [CHR 0xE2, CHR 0x80, CHR 0x89],
     [CHR 0xE2, CHR 0x80, CHR 0x8A], [CHR 0xE2, CHR 0x80, CHR 0xA8],
     [CHR 0xE2, CHR 0x80, CHR 0xA9], [CHR 0xE2, CHR 0x80, CHR 0xAF],
     [CHR 0xE2, CHR 0x81, CHR 0x9F], [CHR 0xE3, CHR 0x80, CHR 0x80]]"

definition space_len :: "string \<Rightarrow> nat" where
  "space_len s = (case find (\<lambda>w. prefix w s) go_spaces of None \<Rightarrow> 0 | Some w \<Rightarrow> length w)"

definition space_suffix_len :: "string \<Rightarrow> nat" where
  "space_suffix_len s = (case find (\<lambda>w. suffix w s) go_spaces of None \<Rightarrow> 0 | Some w \<Rightarrow> length w)"

lemma go_spaces_nonempty: "w \<in> set go_spaces \<Longrightarrow> w \<noteq> []"
  by (auto simp: go_spaces_def)

lemma space_len_le: "space_len s \<le> length s"
  by (auto simp: space_len_def find_Some_iff prefix_length_le split: option.splits)

lemma space_len_Nil [simp]: "space_len [] = 0"
  using space_len_le [of "[]"] by simp

lemma space_suffix_len_le: "space_suffix_len s \<le> length s"
  by (auto simp: space_suffix_len_def find_Some_iff suffix_length_le split: option.splits)

lemma space_suffix_len_Nil [simp]: "space_suffix_len [] = 0"
  using space_suffix_len_le [of "[]"] by simp

lemma space_len_pos: "0 < space_len s \<Longrightarrow> s \<noteq> []"
  by auto

lemma space_suffix_len_pos: "0 < space_suffix_len s \<Longrightarrow> s \<noteq> []"
  by auto

text \<open>A byte no white space begins or ends with: a printing ASCII character.\<close>

definition plain_byte :: "char \<Rightarrow> bool" where
  "plain_byte c \<longleftrightarrow> 32 < (of_char c :: nat) \<and> (of_char c :: nat) < 128"

lemma go_spaces_hd_last: "list_all (\<lambda>w. \<not> plain_byte (hd w) \<and> \<not> plain_byte (last w)) go_spaces"
  by code_simp

lemma space_len_plain [simp]: "plain_byte x \<Longrightarrow> space_len (x # s) = 0"
proof -
  assume x: "plain_byte x"
  have "\<not> prefix w (x # s)" if "w \<in> set go_spaces" for w
  proof
    assume "prefix w (x # s)"
    with go_spaces_nonempty [OF that] have "hd w = x" by (cases w) auto
    with that x go_spaces_hd_last show False by (auto simp: list_all_iff)
  qed
  then have "find (\<lambda>w. prefix w (x # s)) go_spaces = None" by (simp add: find_None_iff)
  then show ?thesis by (simp add: space_len_def)
qed

lemma space_suffix_len_plain [simp]: "plain_byte x \<Longrightarrow> space_suffix_len (s @ [x]) = 0"
proof -
  assume x: "plain_byte x"
  have "\<not> suffix w (s @ [x])" if "w \<in> set go_spaces" for w
  proof
    assume "suffix w (s @ [x])"
    with go_spaces_nonempty [OF that] have "last w = x"
      by (metis last_appendR last_snoc suffix_def)
    with that x go_spaces_hd_last show False by (auto simp: list_all_iff)
  qed
  then have "find (\<lambda>w. suffix w (s @ [x])) go_spaces = None" by (simp add: find_None_iff)
  then show ?thesis by (simp add: space_suffix_len_def)
qed

lemma space_len_blank: "space_len (CHR '' '' # s) \<noteq> 0"
proof -
  have "[CHR '' ''] \<in> set go_spaces" by code_simp
  then have "find (\<lambda>w. prefix w (CHR '' '' # s)) go_spaces \<noteq> None"
    by (auto simp: find_None_iff intro: bexI [of _ "[CHR '' '']"])
  then show ?thesis
    by (auto simp: space_len_def find_Some_iff dest: go_spaces_nonempty nth_mem split: option.splits)
qed

text \<open>\<open>strings.Fields\<close>: \<open>cur\<close> is the field being read.\<close>

function str_fields_from :: "string \<Rightarrow> string \<Rightarrow> string list" where
  "str_fields_from cur [] = (if cur = [] then [] else [cur])"
| "str_fields_from cur (x # s) =
     (if space_len (x # s) = 0 then str_fields_from (cur @ [x]) s
      else (if cur = [] then [] else [cur]) @ str_fields_from [] (drop (space_len (x # s)) (x # s)))"
  by pat_completeness auto
termination
  by (relation "measure (\<lambda>(cur, s). length s)") auto

definition str_fields :: "string \<Rightarrow> string list" where
  "str_fields s = str_fields_from [] s"

lemma str_fields_from_no_blank: "w \<in> set (str_fields_from cur s) \<Longrightarrow> CHR '' '' \<notin> set cur \<Longrightarrow>
  CHR '' '' \<notin> set w \<and> w \<noteq> []"
proof (induction cur s arbitrary: w rule: str_fields_from.induct)
  case (1 cur)
  then show ?case by (auto split: if_splits)
next
  case (2 cur x s)
  show ?case
  proof (cases "space_len (x # s) = 0")
    case True
    with space_len_blank [of s] have "x \<noteq> CHR '' ''" by auto
    with True 2 show ?thesis by auto
  next
    case False
    with 2 show ?thesis by (auto split: if_splits)
  qed
qed

lemma str_fields_no_blank: "w \<in> set (str_fields s) \<Longrightarrow> CHR '' '' \<notin> set w"
  using str_fields_from_no_blank [of w "[]" s] by (simp add: str_fields_def)

lemma str_fields_from_plain: "list_all plain_byte w \<Longrightarrow> str_fields_from cur (w @ s) = str_fields_from (cur @ w) s"
  by (induction w arbitrary: cur) auto

lemma space_len_blank_1: "space_len (CHR '' '' # s) = 1"
proof -
  have "find (\<lambda>w. prefix w (CHR '' '' # s)) go_spaces = Some [CHR '' '']"
    by (simp add: go_spaces_def)
  then show ?thesis by (simp add: space_len_def)
qed

lemma str_fields_from_blank: "str_fields_from cur (CHR '' '' # s) = (if cur = [] then [] else [cur]) @ str_fields s"
  by (simp add: str_fields_def space_len_blank_1)

lemma str_fields_join:
  "list_all (\<lambda>w. w \<noteq> [] \<and> list_all plain_byte w) ws \<Longrightarrow> str_fields (join_with '' '' ws) = ws"
proof (induction ws)
  case Nil
  show ?case by (simp add: str_fields_def)
next
  case (Cons w ws)
  show ?case
  proof (cases ws)
    case Nil
    with Cons.prems str_fields_from_plain [of w "[]" "[]"] show ?thesis by (simp add: str_fields_def)
  next
    case (Cons v vs)
    have "str_fields (join_with '' '' (w # ws)) = str_fields_from [] (w @ CHR '' '' # join_with '' '' ws)"
      using Cons by (simp add: str_fields_def)
    also have "\<dots> = w # str_fields (join_with '' '' ws)"
      using Cons.prems by (simp add: str_fields_from_plain str_fields_from_blank del: str_fields_from.simps)
    finally show ?thesis using Cons.IH Cons.prems by simp
  qed
qed

text \<open>\<open>strings.TrimSpace\<close>.\<close>

function trim_left :: "string \<Rightarrow> string" where
  "trim_left s = (if space_len s = 0 then s else trim_left (drop (space_len s) s))"
  by pat_completeness auto
termination
  by (relation "measure length") (auto simp: space_len_pos)

function trim_right :: "string \<Rightarrow> string" where
  "trim_right s =
     (if space_suffix_len s = 0 then s else trim_right (take (length s - space_suffix_len s) s))"
  by pat_completeness auto
termination
  by (relation "measure length") (auto simp: space_suffix_len_pos)

declare trim_left.simps [simp del] trim_right.simps [simp del]

definition trim_space :: "string \<Rightarrow> string" where
  "trim_space s = trim_right (trim_left s)"

lemma trim_space_plain: "list_all plain_byte s \<Longrightarrow> trim_space s = s"
proof -
  assume s: "list_all plain_byte s"
  then have "space_len s = 0" by (cases s) auto
  then have l: "trim_left s = s" by (simp add: trim_left.simps)
  from s have "space_suffix_len s = 0" by (cases s rule: rev_cases) auto
  then have "trim_right s = s" by (simp add: trim_right.simps)
  with l show ?thesis by (simp add: trim_space_def)
qed

subsection \<open>Lines of a scanner\<close>

text \<open>
  \<open>bufio.Scanner\<close> with \<open>ScanLines\<close>: the bytes up to each newline, one trailing carriage return
  dropped; a final empty line is not reported.  A line that does not fit the buffer of
  \<open>bufio.MaxScanTokenSize\<close> bytes stops the scan.
\<close>

definition max_scan_token :: nat where
  "max_scan_token = 65536"

definition drop_cr :: "string \<Rightarrow> string" where
  "drop_cr s = (if s \<noteq> [] \<and> last s = CHR 0x0D then butlast s else s)"

definition scan_lines :: "string \<Rightarrow> string list" where
  "scan_lines s =
     (let ls = split_on (CHR 0x0A) s; ls' = (if last ls = [] then butlast ls else ls)
      in map drop_cr (takeWhile (\<lambda>l. length l < max_scan_token) ls'))"

subsection \<open>Numbers\<close>

definition is_digit :: "char \<Rightarrow> bool" where
  "is_digit c \<longleftrightarrow> 48 \<le> (of_char c :: nat) \<and> (of_char c :: nat) \<le> 57"

definition digit_val :: "char \<Rightarrow> nat" where
  "digit_val c = of_char c - 48"

definition digit_char :: "nat \<Rightarrow> char" where
  "digit_char d = ''0123456789'' ! d"

datatype num_err = ErrSyntax | ErrRange

text \<open>
  The loop of \<open>strconv.ParseUint(s, 10, bits)\<close>: a byte that is no digit returns 0 and a syntax
  error, a value above the maximum returns the maximum and a range error, at the byte where it
  happens.  Values are compared on \<^typ>\<open>nat\<close>, as Go's cutoff test does on 64 bits.
\<close>

fun parse_uint_loop :: "nat \<Rightarrow> nat \<Rightarrow> string \<Rightarrow> nat \<times> num_err option" where
  "parse_uint_loop mx n [] = (n, None)"
| "parse_uint_loop mx n (c # s) =
     (if \<not> is_digit c then (0, Some ErrSyntax)
      else if mx < n * 10 + digit_val c then (mx, Some ErrRange)
      else parse_uint_loop mx (n * 10 + digit_val c) s)"

definition parse_uint :: "nat \<Rightarrow> string \<Rightarrow> nat \<times> num_err option" where
  "parse_uint bits s = (if s = [] then (0, Some ErrSyntax) else parse_uint_loop (2 ^ bits - 1) 0 s)"

text \<open>\<open>strconv.Atoi\<close> of a string of digits on a 64-bit machine: too large a value is the largest int.\<close>

definition atoi_digits :: "string \<Rightarrow> int" where
  "atoi_digits s = int (min (fst (parse_uint 64 s)) (2 ^ 63 - 1))"

text \<open>The verb \<open>%d\<close> of a number that is not negative.\<close>

fun show_nat :: "nat \<Rightarrow> string" where
  "show_nat n = (if n < 10 then [digit_char n] else show_nat (n div 10) @ [digit_char (n mod 10)])"

declare show_nat.simps [simp del]

lemma digit_char_table:
  "list_all (\<lambda>d. is_digit (digit_char d) \<and> digit_val (digit_char d) = d) [0..<10]"
  by code_simp

lemma digit_char_simps [simp]:
  "d < 10 \<Longrightarrow> is_digit (digit_char d)" "d < 10 \<Longrightarrow> digit_val (digit_char d) = d"
  using digit_char_table by (auto simp: list_all_iff)

lemma digit_plain: "is_digit c \<Longrightarrow> plain_byte c"
  by (simp add: is_digit_def plain_byte_def)

lemma show_nat_digits: "list_all is_digit (show_nat n)"
proof (induction n rule: show_nat.induct)
  case (1 n)
  then show ?case by (subst show_nat.simps) auto
qed

lemma show_nat_not_Nil [simp]: "show_nat n \<noteq> []"
  by (subst show_nat.simps) simp

lemma show_nat_no_char: "\<not> is_digit c \<Longrightarrow> c \<notin> set (show_nat n)"
  using show_nat_digits [of n] by (auto simp: list_all_iff)

lemma parse_uint_loop_le: "n \<le> mx \<Longrightarrow> fst (parse_uint_loop mx n s) \<le> mx"
  by (induction mx n s rule: parse_uint_loop.induct) auto

lemma parse_uint_bound [go_len]: "fst (parse_uint bits s) < 2 ^ bits"
  using parse_uint_loop_le [of 0 "2 ^ bits - 1" s]
  by (auto simp: parse_uint_def) (metis One_nat_def Suc_pred less_Suc_eq_le zero_less_numeral zero_less_power)

lemma parse_uint_loop_append: "parse_uint_loop mx n (s @ t) =
  (case parse_uint_loop mx n s of (m, None) \<Rightarrow> parse_uint_loop mx m t | (m, Some e) \<Rightarrow> (m, Some e))"
  by (induction mx n s rule: parse_uint_loop.induct) auto

lemma parse_uint_loop_show: "n \<le> mx \<Longrightarrow> parse_uint_loop mx 0 (show_nat n) = (n, None)"
proof (induction n rule: show_nat.induct)
  case (1 n)
  show ?case
  proof (cases "n < 10")
    case True
    with "1.prems" show ?thesis by (simp add: show_nat.simps [of n])
  next
    case False
    with 1 have "parse_uint_loop mx 0 (show_nat (n div 10)) = (n div 10, None)" by simp
    with False "1.prems" show ?thesis
      by (simp add: show_nat.simps [of n] parse_uint_loop_append)
  qed
qed

lemma parse_show [simp]: "n < 2 ^ bits \<Longrightarrow> parse_uint bits (show_nat n) = (n, None)"
  by (simp add: parse_uint_def parse_uint_loop_show)

subsection \<open>Paths\<close>

text \<open>
  \<open>filepath.Clean\<close>: \<open>acc\<close> is the stack of the components written so far, the last one first;
  a \<open>..\<close> takes one back, is dropped at the root, and is kept at the start of a relative path.
\<close>

fun clean_comps :: "bool \<Rightarrow> string list \<Rightarrow> string list \<Rightarrow> string list" where
  "clean_comps rooted acc [] = rev acc"
| "clean_comps rooted acc (w # ws) =
     (if w = [] \<or> w = ''.'' then clean_comps rooted acc ws
      else if w = ''..'' then
        (case acc of
           [] \<Rightarrow> clean_comps rooted (if rooted then [] else [''..'']) ws
         | a # as \<Rightarrow> clean_comps rooted (if a = ''..'' then ''..'' # acc else as) ws)
      else clean_comps rooted (w # acc) ws)"

definition path_clean :: "string \<Rightarrow> string" where
  "path_clean p =
     (if p = [] then ''.''
      else let rooted = (hd p = CHR ''/'');
               body = join_with ''/'' (clean_comps rooted [] (split_on (CHR ''/'') p))
           in if rooted then CHR ''/'' # body else if body = [] then ''.'' else body)"

text \<open>\<open>filepath.Join\<close>: leading empty elements are skipped, the rest is joined and cleaned.\<close>

definition path_join :: "string list \<Rightarrow> string" where
  "path_join es =
     (case dropWhile (\<lambda>e. e = []) es of [] \<Rightarrow> [] | es' \<Rightarrow> path_clean (join_with ''/'' es'))"

text \<open>\<open>filepath.Dir\<close>.\<close>

definition path_dir :: "string \<Rightarrow> string" where
  "path_dir p = path_clean (rev (dropWhile (\<lambda>c. c \<noteq> CHR ''/'') (rev p)))"

text \<open>A component that names a file of the directory itself.\<close>

definition simple_name :: "string \<Rightarrow> bool" where
  "simple_name w \<longleftrightarrow> w \<noteq> [] \<and> w \<noteq> ''.'' \<and> w \<noteq> ''..'' \<and> CHR ''/'' \<notin> set w"

lemma clean_comps_simple:
  "list_all simple_name ws \<Longrightarrow> clean_comps rooted acc (ws @ vs) = clean_comps rooted (rev ws @ acc) vs"
  by (induction ws arbitrary: acc) (auto simp: simple_name_def)

lemma join_with_simple_not_Nil: "ws \<noteq> [] \<Longrightarrow> list_all simple_name ws \<Longrightarrow> join_with ''/'' ws \<noteq> []"
  by (cases ws; cases "tl ws") (auto simp: simple_name_def)

text \<open>A rooted path of simple names is clean, and joining simple names to it only appends them.\<close>

lemma path_clean_simple:
  "list_all simple_name ws \<Longrightarrow> ws \<noteq> [] \<Longrightarrow>
   path_clean (CHR ''/'' # join_with ''/'' ws) = CHR ''/'' # join_with ''/'' ws"
proof -
  assume ws: "list_all simple_name ws" "ws \<noteq> []"
  then have "split_on (CHR ''/'') (join_with ''/'' ws) = ws"
    by (intro split_join) (auto simp: list_all_iff simple_name_def)
  with ws clean_comps_simple [of ws True "[]" "[]"] show ?thesis
    by (simp add: path_clean_def)
qed

lemma join_with_snoc: "ws \<noteq> [] \<Longrightarrow> join_with sep (ws @ [w]) = join_with sep ws @ sep @ w"
proof (induction ws)
  case Nil
  then show ?case by simp
next
  case (Cons v vs)
  then show ?case by (cases vs) (auto simp: join_with_Cons)
qed

lemma path_join_simple:
  assumes "list_all simple_name ws" "ws \<noteq> []" "simple_name w"
  shows "path_join [CHR ''/'' # join_with ''/'' ws, w] = CHR ''/'' # join_with ''/'' ws @ ''/'' @ w"
  using assms path_clean_simple [of "ws @ [w]"] by (simp add: path_join_def join_with_snoc)

end
