(* ===== verification/Go_Os.thy ===== *)
theory Go_Os
  imports Go_Text "HOL-Library.State_Monad" "HOL-Library.Word"
begin

text \<open>
  The system the init runs on.  The kernel is not code of the repository, so it is a parameter of
  every definition that calls it: a record of the answers it gives, each a function of what has
  happened so far, so that a theorem over every \<open>K :: kernel\<close> covers every kernel, initramfs and
  host, faults included.  What a program does is a state monad over the trace of its system calls,
  each event recorded with its answer.  The helper executables are reached through
  \<^term>\<open>k_exec\<close> and \<^term>\<open>k_start\<close>.
\<close>

subsection \<open>Events and the kernel\<close>

type_synonym bytes = "8 word list"

lemma unat_byte: "unat (x :: 8 word) < 256"
  using unsigned_less [of x, where ?'a = nat] by simp

datatype event =
    ESetenv string string
  | EMkdir string "goerr option"
  | EMount string string string nat string "goerr option"
  | ERead string "string result"
  | EWrite string string nat "goerr option"
  | ECreate string "goerr option"
  | ECreateTemp "string result"
  | EFileWrite string string "goerr option"
  | EChmod string nat "goerr option"
  | EClose string "goerr option"
  | ERemove string
  | EStat string "goerr option"
  | EOpen string "goerr option"
  | EExec "string list" "goerr option"
  | EStart "string list" "goerr option"
  | EKillProc "string list"
  | EReapProc "string list"
  | ESleep nat
  | ESocket "nat result"
  | EConnect nat bytes int
  | EFileConn nat "nat result"
  | ECloseFd nat
  | EOpenFd string "nat result"
  | EIoctl nat nat int
  | ENetlink bytes "goerr option option"
  | EHostname string "goerr option"
  | EBringUp string string "goerr option"
  | ESync
  | EReboot "goerr option"

type_synonym trace = "event list"

text \<open>
  What the kernel makes of one request on a fresh netlink socket: the errors of \<open>socket\<close>, \<open>bind\<close>
  and \<open>write\<close>, and the answers of the successive \<open>read\<close>s; after the last of them a \<open>read\<close> blocks.
\<close>

record nl_session =
  nl_socket :: "goerr option"
  nl_bind :: "goerr option"
  nl_write :: "goerr option"
  nl_reads :: "bytes result list"

record kernel =
  k_environ :: "string \<Rightarrow> string option"
  k_mkdir :: "trace \<Rightarrow> string \<Rightarrow> goerr option"
  k_mount :: "trace \<Rightarrow> string \<Rightarrow> string \<Rightarrow> string \<Rightarrow> nat \<Rightarrow> string \<Rightarrow> goerr option"
  k_read :: "trace \<Rightarrow> string \<Rightarrow> string result"
  k_write :: "trace \<Rightarrow> string \<Rightarrow> string \<Rightarrow> goerr option"
  k_stat :: "trace \<Rightarrow> string \<Rightarrow> goerr option"
  k_open :: "trace \<Rightarrow> string \<Rightarrow> goerr option"
  k_create :: "trace \<Rightarrow> string \<Rightarrow> goerr option"
  k_temp :: "trace \<Rightarrow> string \<Rightarrow> string result"
  k_fwrite :: "trace \<Rightarrow> string \<Rightarrow> string \<Rightarrow> goerr option"
  k_chmod :: "trace \<Rightarrow> string \<Rightarrow> nat \<Rightarrow> goerr option"
  k_close :: "trace \<Rightarrow> string \<Rightarrow> goerr option"
  k_exec :: "trace \<Rightarrow> string list \<Rightarrow> goerr option \<times> string"
  k_start :: "trace \<Rightarrow> string list \<Rightarrow> goerr option"
  k_look_path :: "trace \<Rightarrow> string \<Rightarrow> bool"
  k_now :: "trace \<Rightarrow> nat"
  k_ifindex :: "trace \<Rightarrow> string \<Rightarrow> int result"
  k_netlink :: "trace \<Rightarrow> bytes \<Rightarrow> nl_session"
  k_socket :: "trace \<Rightarrow> nat result"
  k_connect :: "trace \<Rightarrow> nat \<Rightarrow> bytes \<Rightarrow> int"
  k_fileconn :: "trace \<Rightarrow> nat \<Rightarrow> nat result"
  k_openfd :: "trace \<Rightarrow> string \<Rightarrow> nat result"
  k_ioctl :: "trace \<Rightarrow> nat \<Rightarrow> nat \<Rightarrow> int \<times> 32 word"
  k_hostname :: "trace \<Rightarrow> string \<Rightarrow> goerr option"
  k_reboot :: "trace \<Rightarrow> goerr option"

type_synonym 'a io = "(trace, 'a) state"

definition MS_RDONLY :: nat where "MS_RDONLY = 1"

subsection \<open>System calls\<close>

definition call :: "(trace \<Rightarrow> 'r) \<Rightarrow> ('r \<Rightarrow> event) \<Rightarrow> 'r io" where
  "call f ev = State (\<lambda>tr. (f tr, tr @ [ev (f tr)]))"

lemma run_call [simp]: "run_state (call f ev) tr = (f tr, tr @ [ev (f tr)])"
  by (simp add: call_def)

definition ask :: "(trace \<Rightarrow> 'r) \<Rightarrow> 'r io" where
  "ask f = State (\<lambda>tr. (f tr, tr))"

lemma run_ask [simp]: "run_state (ask f) tr = (f tr, tr)"
  by (simp add: ask_def)

abbreviation ret :: "'a \<Rightarrow> 'a io" where
  "ret \<equiv> State_Monad.return"

definition os_setenv :: "string \<Rightarrow> string \<Rightarrow> unit io" where
  "os_setenv k v = call (\<lambda>_. ()) (\<lambda>_. ESetenv k v)"

definition os_mkdir_all :: "kernel \<Rightarrow> string \<Rightarrow> goerr option io" where
  "os_mkdir_all K p = call (\<lambda>tr. k_mkdir K tr p) (EMkdir p)"

definition sys_mount ::
    "kernel \<Rightarrow> string \<Rightarrow> string \<Rightarrow> string \<Rightarrow> nat \<Rightarrow> string \<Rightarrow> goerr option io" where
  "sys_mount K src tgt fs flags dat =
     call (\<lambda>tr. k_mount K tr src tgt fs flags dat) (EMount src tgt fs flags dat)"

definition os_read_file :: "kernel \<Rightarrow> string \<Rightarrow> string result io" where
  "os_read_file K p = call (\<lambda>tr. k_read K tr p) (ERead p)"

definition os_write_file :: "kernel \<Rightarrow> string \<Rightarrow> string \<Rightarrow> nat \<Rightarrow> goerr option io" where
  "os_write_file K p b mode = call (\<lambda>tr. k_write K tr p b) (EWrite p b mode)"

definition os_stat :: "kernel \<Rightarrow> string \<Rightarrow> goerr option io" where
  "os_stat K p = call (\<lambda>tr. k_stat K tr p) (EStat p)"

definition os_open :: "kernel \<Rightarrow> string \<Rightarrow> goerr option io" where
  "os_open K p = call (\<lambda>tr. k_open K tr p) (EOpen p)"

definition os_create :: "kernel \<Rightarrow> string \<Rightarrow> goerr option io" where
  "os_create K p = call (\<lambda>tr. k_create K tr p) (ECreate p)"

definition os_create_temp :: "kernel \<Rightarrow> string \<Rightarrow> string result io" where
  "os_create_temp K pat = call (\<lambda>tr. k_temp K tr pat) ECreateTemp"

definition file_write_string :: "kernel \<Rightarrow> string \<Rightarrow> string \<Rightarrow> goerr option io" where
  "file_write_string K f s = call (\<lambda>tr. k_fwrite K tr f s) (EFileWrite f s)"

definition file_chmod :: "kernel \<Rightarrow> string \<Rightarrow> nat \<Rightarrow> goerr option io" where
  "file_chmod K f mode = call (\<lambda>tr. k_chmod K tr f mode) (EChmod f mode)"

definition file_close :: "kernel \<Rightarrow> string \<Rightarrow> goerr option io" where
  "file_close K f = call (\<lambda>tr. k_close K tr f) (EClose f)"

definition os_remove :: "string \<Rightarrow> unit io" where
  "os_remove p = call (\<lambda>_. ()) (\<lambda>_. ERemove p)"

definition sys_sethostname :: "kernel \<Rightarrow> string \<Rightarrow> goerr option io" where
  "sys_sethostname K h = call (\<lambda>tr. k_hostname K tr h) (EHostname h)"

definition exec_run :: "kernel \<Rightarrow> string list \<Rightarrow> (goerr option \<times> string) io" where
  "exec_run K argv = call (\<lambda>tr. k_exec K tr argv) (\<lambda>r. EExec argv (fst r))"

definition exec_start :: "kernel \<Rightarrow> string list \<Rightarrow> goerr option io" where
  "exec_start K argv = call (\<lambda>tr. k_start K tr argv) (EStart argv)"

definition time_sleep :: "nat \<Rightarrow> unit io" where
  "time_sleep ms = call (\<lambda>_. ()) (\<lambda>_. ESleep ms)"

lemmas io_defs = os_setenv_def os_mkdir_all_def sys_mount_def os_read_file_def os_write_file_def
  os_stat_def os_open_def os_create_def os_create_temp_def file_write_string_def file_chmod_def
  file_close_def os_remove_def sys_sethostname_def exec_run_def exec_start_def time_sleep_def

lemma pair3: obtains a b c where "x = ((a, b), c)"
  by (metis surj_pair)

text \<open>
  The environment of the process: \<open>os.LookupEnv\<close> sees the last \<open>os.Setenv\<close> of the name, else what
  the kernel started the process with.
\<close>

fun env_of :: "(string \<Rightarrow> string option) \<Rightarrow> trace \<Rightarrow> string \<Rightarrow> string option" where
  "env_of e [] k = e k"
| "env_of e (ESetenv k' v # tr) k = env_of (e(k' := Some v)) tr k"
| "env_of e (_ # tr) k = env_of e tr k"

definition lookup_env :: "kernel \<Rightarrow> string \<Rightarrow> string option io" where
  "lookup_env K k = ask (\<lambda>tr. env_of (k_environ K) tr k)"

fun setenv_key :: "event \<Rightarrow> string option" where
  "setenv_key (ESetenv k v) = Some k"
| "setenv_key _ = None"

lemma env_of_append: "env_of e (tr @ tr') = env_of (env_of e tr) tr'"
proof (induction tr arbitrary: e)
  case Nil
  have "env_of e [] = e" by (simp add: fun_eq_iff)
  then show ?case by simp
next
  case (Cons ev tr)
  have "env_of e (ev # tr) = env_of (case ev of ESetenv k v \<Rightarrow> e(k \<mapsto> v) | _ \<Rightarrow> e) tr" for tr
    by (cases ev) (auto simp: fun_eq_iff)
  with Cons show ?case by simp
qed

lemma env_of_unset: "\<forall>ev \<in> set tr. setenv_key ev \<noteq> Some k \<Longrightarrow> env_of e tr k = e k"
  by (induction e tr k rule: env_of.induct) auto

subsection \<open>What a program appends to the trace\<close>

text \<open>A program only appends to the trace, and every event it appends satisfies \<open>P\<close>.\<close>

definition appends :: "(event \<Rightarrow> bool) \<Rightarrow> 'a io \<Rightarrow> bool" where
  "appends P m \<longleftrightarrow> (\<forall>tr. \<exists>es. snd (run_state m tr) = tr @ es \<and> list_all P es)"

named_theorems appends_intros \<open>programs whose events satisfy a predicate\<close>

lemma appendsE:
  assumes "appends P m" "run_state m tr = (r, tr')"
  obtains es where "tr' = tr @ es" "list_all P es"
  using assms unfolding appends_def by (metis snd_conv)

lemma appends_mono: "appends P m \<Longrightarrow> (\<And>ev. P ev \<Longrightarrow> Q ev) \<Longrightarrow> appends Q m"
  unfolding appends_def by (metis list.pred_mono_strong)

lemma appends_return [appends_intros]: "appends P (ret x)"
  by (simp add: appends_def)

lemma appends_ask [appends_intros]: "appends P (ask f)"
  by (simp add: appends_def)

lemma appends_call [appends_intros]: "(\<And>r. P (ev r)) \<Longrightarrow> appends P (call f ev)"
  by (simp add: appends_def)

lemma appends_bind [appends_intros]:
  assumes "appends P m" "\<And>x. appends P (f x)"
  shows "appends P (State_Monad.bind m f)"
proof -
  have "\<exists>es. snd (run_state (State_Monad.bind m f) tr) = tr @ es \<and> list_all P es" for tr
  proof -
    obtain r t where r: "run_state m tr = (r, t)" by fastforce
    with assms(1) obtain es where es: "t = tr @ es" "list_all P es" by (rule appendsE)
    obtain r' t' where r': "run_state (f r) t = (r', t')" by fastforce
    with assms(2) obtain es' where "t' = t @ es'" "list_all P es'" by (rule appendsE)
    with r r' es show ?thesis by simp
  qed
  then show ?thesis by (simp add: appends_def)
qed

lemma appends_case_option [appends_intros]:
  "appends P m \<Longrightarrow> (\<And>x. appends P (f x)) \<Longrightarrow> appends P (case v of None \<Rightarrow> m | Some x \<Rightarrow> f x)"
  by (simp split: option.split)

lemma appends_case_sum [appends_intros]:
  "(\<And>x. appends P (f x)) \<Longrightarrow> (\<And>y. appends P (g y)) \<Longrightarrow>
   appends P (case v of Inl x \<Rightarrow> f x | Inr y \<Rightarrow> g y)"
  by (simp split: sum.split)

lemma appends_case_prod [appends_intros]:
  "(\<And>x y. appends P (f x y)) \<Longrightarrow> appends P (case v of (x, y) \<Rightarrow> f x y)"
  by (simp split: prod.split)

lemma appends_if [appends_intros]:
  "appends P m \<Longrightarrow> appends P n \<Longrightarrow> appends P (if b then m else n)"
  by simp

lemma appends_Let [appends_intros]: "(\<And>x. appends P (f x)) \<Longrightarrow> appends P (let x = v in f x)"
  by simp

text \<open>
  A kernel for the witnesses: it grants every request, serves fixed files and acknowledges every
  netlink request with an error message of errno 0.
\<close>

definition nl_ok :: nl_session where
  "nl_ok = \<lparr>nl_socket = None, nl_bind = None, nl_write = None,
     nl_reads = [Inr ([36, 0, 0, 0, 2, 0, 0, 0, 1, 0, 0, 0, 0, 0, 0, 0] @ replicate 20 0)]\<rparr>"

definition kernel_with :: "(string \<Rightarrow> string option) \<Rightarrow> kernel" where
  "kernel_with files = \<lparr>k_environ = (\<lambda>_. None), k_mkdir = (\<lambda>_ _. None),
     k_mount = (\<lambda>_ _ _ _ _ _. None),
     k_read = (\<lambda>_ p. case files p of None \<Rightarrow> Inl (Errno ENOENT) | Some b \<Rightarrow> Inr b),
     k_write = (\<lambda>_ _ _. None),
     k_stat = (\<lambda>_ p. if files p = None then Some (Errno ENOENT) else None),
     k_open = (\<lambda>_ _. None), k_create = (\<lambda>_ _. None), k_temp = (\<lambda>_ _. Inr ''/tmp/wg-priv-1''),
     k_fwrite = (\<lambda>_ _ _. None), k_chmod = (\<lambda>_ _ _. None), k_close = (\<lambda>_ _. None), k_exec = (\<lambda>_ _. (None, '''')), k_start = (\<lambda>_ _. None), k_look_path = (\<lambda>_ _. True),
     k_now = (\<lambda>_. 0), k_ifindex = (\<lambda>_ _. Inr 2), k_netlink = (\<lambda>_ _. nl_ok),
     k_socket = (\<lambda>_. Inr 3), k_connect = (\<lambda>_ _ _. 0), k_fileconn = (\<lambda>_ _. Inr 4), k_openfd = (\<lambda>_ _. Inr 3),
     k_ioctl = (\<lambda>_ _ _. (0, 5)), k_hostname = (\<lambda>_ _. None), k_reboot = (\<lambda>_. None)\<rparr>"

end
