(* ===== verification/Pod_Spec.thy ===== *)
theory Pod_Spec
  imports Go_Text "HOL-Library.Word"
begin

text \<open>
  Package pod (src/pkg/pod): the pod specification the init is told to run, as records with the
  fields of the Go structs in their order, and the validation of each part.  A field \<open>F\<close> of a
  struct carries a short prefix of the struct's name (\<open>c_ID\<close> is \<open>Container.ID\<close>).  A nil pointer is
  \<^const>\<open>None\<close>; nil and empty slices and maps are the empty list, which no function here tells
  apart; a map with string keys is an association list (see \<^theory_text>\<open>Go_Prelude\<close>).  \<open>Validate\<close> returns
  \<^const>\<open>None\<close> for nil.
\<close>

subsection \<open>Data\<close>

type_synonym RestartPolicy = string

definition RestartNever :: RestartPolicy where "RestartNever = ''''"
definition RestartOnFailure :: RestartPolicy where "RestartOnFailure = ''on-failure''"
definition RestartAlways :: RestartPolicy where "RestartAlways = ''always''"

record Mount =
  m_Source :: string
  m_Destination :: string
  m_Type :: string
  m_Options :: "string list"

record Resources =
  r_CPUShares :: "64 word"
  r_MemBytes :: "64 word"
  r_PidsMax :: "64 word"

record Container =
  c_ID :: string
  c_RootfsTag :: string
  c_Command :: "string list"
  c_Args :: "string list"
  c_Env :: "(string \<times> string) list"
  c_Workdir :: string
  c_User :: string
  c_Restart :: RestartPolicy
  c_Mounts :: "Mount list"
  c_Resources :: Resources
  c_Privileged :: bool
  c_Net :: string

record Share =
  sh_Tag :: string
  sh_MountPoint :: string
  sh_Readonly :: bool

record Network =
  n_Interface :: string
  n_Address :: string
  n_Gateway :: string
  n_DNS :: "string list"
  n_Hostname :: string

record WGPeer =
  wp_PublicKey :: string
  wp_Endpoint :: string
  wp_AllowedIPs :: "string list"
  wp_PersistentKeepalive :: "16 word"

record WireGuard =
  wg_Interface :: string
  wg_PrivateKey :: string
  wg_ListenPort :: "16 word"
  wg_Address :: string
  wg_Peers :: "WGPeer list"

record CubeFSMount =
  cf_Volume :: string
  cf_Masters :: "string list"
  cf_Owner :: string
  cf_AccessKey :: string
  cf_SecretKey :: string
  cf_SubDir :: string

type_synonym MountAction = string

definition MountActionMount :: MountAction where "MountActionMount = ''''"
definition MountActionUnmount :: MountAction where "MountActionUnmount = ''unmount''"

definition BackendCubeFS :: string where "BackendCubeFS = ''cubefs''"

record ShareMount =
  sm_ID :: string
  sm_Action :: MountAction
  sm_Backend :: string
  sm_MountPoint :: string
  sm_Readonly :: bool
  sm_CubeFS :: "CubeFSMount option"

record Spec =
  sp_PodID :: string
  sp_Containers :: "Container list"
  sp_Shares :: "Share list"
  sp_Network :: "Network option"
  sp_WireGuard :: "WireGuard option"
  sp_ShareMounts :: "ShareMount list"
  sp_Labels :: "(string \<times> string) list"

text \<open>The zero value of \<open>Resources\<close> and a container with only an identity, as a literal gives them.\<close>

definition zero_resources :: Resources where
  "zero_resources = \<lparr>r_CPUShares = 0, r_MemBytes = 0, r_PidsMax = 0\<rparr>"

definition new_container :: "string \<Rightarrow> string \<Rightarrow> Container" where
  "new_container i tag = \<lparr>c_ID = i, c_RootfsTag = tag, c_Command = [], c_Args = [], c_Env = [],
     c_Workdir = [], c_User = [], c_Restart = RestartNever, c_Mounts = [],
     c_Resources = zero_resources, c_Privileged = False, c_Net = []\<rparr>"

lemma new_container_simps [simp]:
  "c_ID (new_container i t) = i" "c_RootfsTag (new_container i t) = t"
  "c_Command (new_container i t) = []" "c_Mounts (new_container i t) = []"
  by (simp_all add: new_container_def)

subsection \<open>Share mounts (share.go)\<close>

definition effective_backend :: "ShareMount \<Rightarrow> string" where
  "effective_backend m = (if sm_Backend m = [] then BackendCubeFS else sm_Backend m)"

text \<open>The switch over the backend in \<open>ShareMount.Validate\<close>.\<close>

definition validate_backend :: "ShareMount \<Rightarrow> goerr option" where
  "validate_backend m =
     (if effective_backend m = BackendCubeFS then
        (case sm_CubeFS m of
           None \<Rightarrow> Some (Errorf ''mount %q: cubefs block is required'' [AStr (sm_ID m)])
         | Some c \<Rightarrow>
             if cf_Volume c = [] then
               Some (Errorf ''mount %q: cubefs.volume is required'' [AStr (sm_ID m)])
             else if cf_Masters c = [] then
               Some (Errorf ''mount %q: cubefs.masters is required'' [AStr (sm_ID m)])
             else if cf_Owner c = [] then
               Some (Errorf ''mount %q: cubefs.owner is required'' [AStr (sm_ID m)])
             else None)
      else Some (Errorf ''mount %q: unsupported backend %q'' [AStr (sm_ID m), AStr (sm_Backend m)]))"

definition ShareMount_Validate :: "ShareMount \<Rightarrow> goerr option" where
  "ShareMount_Validate m =
     (if sm_ID m = [] then Some (Errorf ''id is required'' [])
      else if sm_Action m = MountActionUnmount then
        (if sm_MountPoint m = []
         then Some (Errorf ''unmount %q: mount_point is required'' [AStr (sm_ID m)])
         else None)
      else if sm_MountPoint m = []
      then Some (Errorf ''mount %q: mount_point is required'' [AStr (sm_ID m)])
      else validate_backend m)"

text \<open>What a share mount that passes has: the handle, the path, and for a mount all of CubeFS.\<close>

definition share_mount_ok :: "ShareMount \<Rightarrow> bool" where
  "share_mount_ok m \<longleftrightarrow> sm_ID m \<noteq> [] \<and> sm_MountPoint m \<noteq> [] \<and>
     (sm_Action m = MountActionUnmount \<or>
      effective_backend m = BackendCubeFS \<and>
      (case sm_CubeFS m of None \<Rightarrow> False
       | Some c \<Rightarrow> cf_Volume c \<noteq> [] \<and> cf_Masters c \<noteq> [] \<and> cf_Owner c \<noteq> []))"

lemma ShareMount_Validate_iff: "ShareMount_Validate m = None \<longleftrightarrow> share_mount_ok m"
  by (auto simp: ShareMount_Validate_def validate_backend_def share_mount_ok_def split: option.splits)

text \<open>The loop of \<open>LoadShareMounts\<close> and the one of \<open>Spec.Validate\<close> differ in the wrapped message.\<close>

fun validate_share_mounts :: "nat \<Rightarrow> ShareMount list \<Rightarrow> goerr option" where
  "validate_share_mounts i [] = None"
| "validate_share_mounts i (m # ms) =
     (case ShareMount_Validate m of
        Some e \<Rightarrow> Some (Wrapf ''share_mounts[%d]: %w'' [AInt (int i)] e)
      | None \<Rightarrow> validate_share_mounts (Suc i) ms)"

interpretation share_loop: indexed_validator
  "\<lambda>i m. map_option (Wrapf ''share_mounts[%d]: %w'' [AInt (int i)]) (ShareMount_Validate m)"
  validate_share_mounts
  by unfold_locales (auto split: option.splits)

lemma validate_share_mounts_iff:
  "validate_share_mounts i ms = None \<longleftrightarrow> list_all share_mount_ok ms"
  by (simp add: share_loop.loop_None_iff ShareMount_Validate_iff list_all_length)

subsection \<open>The overlay (wireguard.go)\<close>

definition peer_fault :: "nat \<Rightarrow> WGPeer \<Rightarrow> goerr option" where
  "peer_fault i p =
     (if wp_PublicKey p = [] then Some (Errorf ''peer[%d]: public_key is required'' [AInt (int i)])
      else if wp_AllowedIPs p = []
      then Some (Errorf ''peer[%d]: at least one allowed_ip is required'' [AInt (int i)])
      else None)"

fun validate_peers :: "nat \<Rightarrow> WGPeer list \<Rightarrow> goerr option" where
  "validate_peers i [] = None"
| "validate_peers i (p # ps) =
     (case peer_fault i p of Some e \<Rightarrow> Some e | None \<Rightarrow> validate_peers (Suc i) ps)"

interpretation peer_loop: indexed_validator peer_fault validate_peers
  by unfold_locales (auto split: option.splits)

definition WireGuard_Validate :: "WireGuard \<Rightarrow> goerr option" where
  "WireGuard_Validate w =
     (if wg_PrivateKey w = [] then Some (Errorf ''private_key is required'' [])
      else if wg_Address w = [] then Some (Errorf ''address is required'' [])
      else validate_peers 0 (wg_Peers w))"

definition wireguard_ok :: "WireGuard \<Rightarrow> bool" where
  "wireguard_ok w \<longleftrightarrow> wg_PrivateKey w \<noteq> [] \<and> wg_Address w \<noteq> [] \<and>
     list_all (\<lambda>p. wp_PublicKey p \<noteq> [] \<and> wp_AllowedIPs p \<noteq> []) (wg_Peers w)"

lemma WireGuard_Validate_iff: "WireGuard_Validate w = None \<longleftrightarrow> wireguard_ok w"
  by (auto simp: WireGuard_Validate_def wireguard_ok_def peer_loop.loop_None_iff peer_fault_def
      list_all_length split: if_splits)

subsection \<open>The pod (spec.go)\<close>

text \<open>One round of the container loop of \<open>Spec.Validate\<close>; \<open>seen\<close> is the set of IDs met so far.\<close>

definition container_fault :: "nat \<Rightarrow> string list \<Rightarrow> Container \<Rightarrow> goerr option" where
  "container_fault i seen c =
     (if c_ID c = [] then Some (Errorf ''container[%d]: id is required'' [AInt (int i)])
      else if c_ID c \<in> set seen
      then Some (Errorf ''container[%d]: duplicate id %q'' [AInt (int i), AStr (c_ID c)])
      else if c_RootfsTag c = []
      then Some (Errorf ''container %q: rootfs_tag is required'' [AStr (c_ID c)])
      else None)"

fun validate_containers :: "nat \<Rightarrow> string list \<Rightarrow> Container list \<Rightarrow> goerr option" where
  "validate_containers i seen [] = None"
| "validate_containers i seen (c # cs) =
     (case container_fault i seen c of
        Some e \<Rightarrow> Some e
      | None \<Rightarrow> validate_containers (Suc i) (c_ID c # seen) cs)"

definition Spec_Validate :: "Spec \<Rightarrow> goerr option" where
  "Spec_Validate s =
     (if sp_PodID s = [] then Some (Errorf ''pod_id is required'' [])
      else if sp_Containers s = [] then Some (Errorf ''at least one container is required'' [])
      else (case validate_containers 0 [] (sp_Containers s) of
              Some e \<Rightarrow> Some e
            | None \<Rightarrow> validate_share_mounts 0 (sp_ShareMounts s)))"

text \<open>The specification: what a pod that passes has.\<close>

definition spec_ok :: "Spec \<Rightarrow> bool" where
  "spec_ok s \<longleftrightarrow> sp_PodID s \<noteq> [] \<and> sp_Containers s \<noteq> [] \<and>
     list_all (\<lambda>c. c_ID c \<noteq> [] \<and> c_RootfsTag c \<noteq> []) (sp_Containers s) \<and>
     distinct (map c_ID (sp_Containers s)) \<and>
     list_all share_mount_ok (sp_ShareMounts s)"

lemma validate_containers_None_iff: "validate_containers i seen cs = None \<longleftrightarrow>
  list_all (\<lambda>c. c_ID c \<noteq> [] \<and> c_RootfsTag c \<noteq> []) cs \<and> distinct (map c_ID cs) \<and>
  set (map c_ID cs) \<inter> set seen = {}"
  by (induction cs arbitrary: i seen) (auto simp: container_fault_def split: option.splits if_splits)

text \<open>
  The loop reports the fault of the first container that has one, with the IDs before it as the
  set of IDs seen.
\<close>

lemma validate_containers_Some_iff: "validate_containers i seen cs = Some e \<longleftrightarrow>
  (\<exists>pre c post. cs = pre @ c # post \<and> validate_containers i seen pre = None \<and>
     container_fault (i + length pre) (rev (map c_ID pre) @ seen) c = Some e)"
proof (induction cs arbitrary: i seen)
  case Nil
  show ?case by simp
next
  case (Cons d cs)
  show ?case (is "?l \<longleftrightarrow> ?r")
  proof (cases "container_fault i seen d")
    case (Some e')
    show ?thesis
    proof
      assume ?l
      with Some show ?r by (intro exI [of _ "[]"]) auto
    next
      assume ?r
      then obtain pre c post where p: "d # cs = pre @ c # post"
        "validate_containers i seen pre = None"
        "container_fault (i + length pre) (rev (map c_ID pre) @ seen) c = Some e" by blast
      with Some show ?l by (cases pre) auto
    qed
  next
    case None
    show ?thesis
    proof
      assume ?l
      with None Cons.IH [of "Suc i" "c_ID d # seen"] obtain pre c post where
        "cs = pre @ c # post" "validate_containers (Suc i) (c_ID d # seen) pre = None"
        "container_fault (Suc i + length pre) (rev (map c_ID pre) @ c_ID d # seen) c = Some e"
        by auto
      with None show ?r by (intro exI [of _ "d # pre"] exI [of _ c] exI [of _ post]) simp
    next
      assume ?r
      then obtain pre c post where p: "d # cs = pre @ c # post"
        "validate_containers i seen pre = None"
        "container_fault (i + length pre) (rev (map c_ID pre) @ seen) c = Some e" by blast
      with None obtain pre' where "pre = d # pre'" by (cases pre) auto
      with p None Cons.IH [of "Suc i" "c_ID d # seen"] show ?l by auto
    qed
  qed
qed

lemma Spec_Validate_None_iff: "Spec_Validate s = None \<longleftrightarrow> spec_ok s"
  using validate_containers_None_iff [of 0 "[]" "sp_Containers s"]
    validate_share_mounts_iff [of 0 "sp_ShareMounts s"]
  by (auto simp: Spec_Validate_def spec_ok_def split: option.splits)

text \<open>
  \<open>Spec.Validate\<close> accepts a pod exactly when it is well formed: it has a pod id and a
  container, every container has an id and a rootfs tag, the ids are distinct, and every share
  mount is complete.
\<close>

theorem Spec_Validate_correct: "Spec_Validate s = None \<longleftrightarrow> spec_ok s"
  by (rule Spec_Validate_None_iff)

end
