(* ===== verification/Cmdline.thy ===== *)
theory Cmdline
  imports Go_Os Pod_Spec
begin

text \<open>
  The kernel command line (src/cmd/weft-init/main.go): how the init reads its directives
  \<open>weft.key=value\<close>, what it makes of a mount or CubeFS directive, and the pod it makes up when the
  host sends no pod.json.
\<close>

subsection \<open>Reading the command line\<close>

definition proc_cmdline :: string where "proc_cmdline = ''/proc/cmdline''"

text \<open>The loops of \<open>cmdlineValue\<close> and \<open>cmdlineValues\<close> over the fields of the line.\<close>

fun first_value :: "string \<Rightarrow> string list \<Rightarrow> string" where
  "first_value key [] = []"
| "first_value key (tok # toks) =
     (case cut_prefix (key @ ''='') tok of Some v \<Rightarrow> v | None \<Rightarrow> first_value key toks)"

fun all_values :: "string \<Rightarrow> string list \<Rightarrow> string list" where
  "all_values key [] = []"
| "all_values key (tok # toks) =
     (case cut_prefix (key @ ''='') tok of
        Some v \<Rightarrow> v # all_values key toks | None \<Rightarrow> all_values key toks)"

definition cmdlineValue :: "kernel \<Rightarrow> string \<Rightarrow> string io" where
  "cmdlineValue K key = do {
     r \<leftarrow> os_read_file K proc_cmdline;
     ret (case r of Inl _ \<Rightarrow> [] | Inr b \<Rightarrow> first_value key (str_fields b))
   }"

definition cmdlineValues :: "kernel \<Rightarrow> string \<Rightarrow> string list io" where
  "cmdlineValues K key = do {
     r \<leftarrow> os_read_file K proc_cmdline;
     ret (case r of Inl _ \<Rightarrow> [] | Inr b \<Rightarrow> all_values key (str_fields b))
   }"

text \<open>One binding of the merged \<open>weft.env\<close> value.\<close>

fun first_binding :: "string \<Rightarrow> string list \<Rightarrow> string option" where
  "first_binding key [] = None"
| "first_binding key (kv # kvs) =
     (case cut_prefix (key @ ''='') kv of Some v \<Rightarrow> Some v | None \<Rightarrow> first_binding key kvs)"

definition cmdlineEnv :: "kernel \<Rightarrow> string \<Rightarrow> string option io" where
  "cmdlineEnv K key = do {
     raw \<leftarrow> cmdlineValue K ''weft.env'';
     ret (if raw = [] then None else first_binding key (split_on (CHR '':'') raw))
   }"

definition stripTransportPrefix :: "string \<Rightarrow> string" where
  "stripTransportPrefix v =
     (case index_byte (CHR '':'') v of Some i \<Rightarrow> drop (Suc i) v | None \<Rightarrow> v)"

definition shareMountTransport :: "kernel \<Rightarrow> (string \<times> string) io" where
  "shareMountTransport K = do {
     t \<leftarrow> cmdlineValue K ''weft.transport'';
     ret (if t = ''9p'' then (''9p'', ''trans=virtio,version=9p2000.L'') else (''virtiofs'', ''''))
   }"

subsection \<open>Directives\<close>

definition parseMountDirective :: "string \<Rightarrow> Share result" where
  "parseMountDirective raw =
     (let v = (case index_byte (CHR '':'') raw of Some i \<Rightarrow> drop (Suc i) raw | None \<Rightarrow> raw);
          parts = split_on (CHR '':'') v
      in if length parts < 2
         then Inl (Errorf ''expected <tag>:<guest>[:ro], got %q'' [AStr raw])
         else Inr \<lparr>sh_Tag = parts ! 0, sh_MountPoint = parts ! 1,
                   sh_Readonly = (3 \<le> length parts \<and> parts ! 2 = ''ro'')\<rparr>)"

definition parseCubeFSDirective :: "string \<Rightarrow> nat \<Rightarrow> ShareMount result" where
  "parseCubeFSDirective raw idx =
     (let parts = split_on (CHR '':'') raw
      in if length parts < 3
         then Inl (Errorf ''expected <masters>:<volume>:<guest>[:ro], got %q'' [AStr raw])
         else
           let masters = split_on (CHR '','') (parts ! 0);
               volume = parts ! 1;
               mountPoint = parts ! 2;
               ro = (4 \<le> length parts \<and> parts ! 3 = ''ro'')
           in if volume = [] \<or> mountPoint = [] \<or> length masters = 0 \<or> masters ! 0 = []
              then Inl (Errorf ''masters/volume/guest all required, got %q'' [AStr raw])
              else Inr \<lparr>sm_ID = ''cubefs-'' @ show_nat idx, sm_Action = MountActionMount,
                        sm_Backend = BackendCubeFS, sm_MountPoint = mountPoint, sm_Readonly = ro,
                        sm_CubeFS = Some \<lparr>cf_Volume = volume, cf_Masters = masters, cf_Owner = [],
                          cf_AccessKey = [], cf_SecretKey = [], cf_SubDir = []\<rparr>\<rparr>)"

text \<open>The bind mount a container gets for a directory of the guest.\<close>

definition bind_mount :: "string \<Rightarrow> bool \<Rightarrow> Mount" where
  "bind_mount p ro = \<lparr>m_Source = p, m_Destination = p, m_Type = ''bind'',
     m_Options = ''bind'' # (if ro then [''ro''] else [])\<rparr>"

fun extractContainerMounts :: "string list \<Rightarrow> Mount list" where
  "extractContainerMounts [] = []"
| "extractContainerMounts (raw # ds) =
     (case parseMountDirective raw of
        Inl _ \<Rightarrow> extractContainerMounts ds
      | Inr sh \<Rightarrow> bind_mount (sh_MountPoint sh) (sh_Readonly sh) # extractContainerMounts ds)"

subsection \<open>The single-container pod\<close>

text \<open>The two loops of \<open>synthSingleContainerPod\<close>; a directive that does not parse is skipped.\<close>

fun synth_shares :: "string list \<Rightarrow> Share list" where
  "synth_shares [] = []"
| "synth_shares (raw # ds) =
     (case parseMountDirective raw of Inl _ \<Rightarrow> synth_shares ds | Inr sh \<Rightarrow> sh # synth_shares ds)"

fun synth_cubefs :: "nat \<Rightarrow> string list \<Rightarrow> ShareMount list \<times> Mount list" where
  "synth_cubefs i [] = ([], [])"
| "synth_cubefs i (raw # ds) =
     (let (sms, ms) = synth_cubefs (Suc i) ds
      in case parseCubeFSDirective raw i of
           Inl _ \<Rightarrow> (sms, ms)
         | Inr sm \<Rightarrow> (sm # sms, bind_mount (sm_MountPoint sm) (sm_Readonly sm) # ms))"

definition synth_spec :: "string \<Rightarrow> string list \<Rightarrow> string list \<Rightarrow> Spec" where
  "synth_spec tag mounts cubefs =
     (let (shareMounts, cubefsMounts) = synth_cubefs 0 cubefs;
          c = (new_container ''main'' tag)
                \<lparr>c_Mounts := extractContainerMounts mounts @ cubefsMounts\<rparr>
      in \<lparr>sp_PodID = ''single'', sp_Containers = [c],
          sp_Shares = \<lparr>sh_Tag = tag, sh_MountPoint = ''/run/weft/rootfs/'' @ ''main'',
                       sh_Readonly = False\<rparr> # synth_shares mounts,
          sp_Network = None, sp_WireGuard = None, sp_ShareMounts = shareMounts, sp_Labels = []\<rparr>)"

definition synthSingleContainerPod :: "kernel \<Rightarrow> Spec option io" where
  "synthSingleContainerPod K = do {
     v \<leftarrow> cmdlineValue K ''weft.rootfs'';
     let tag = stripTransportPrefix v;
     if tag = [] then ret None
     else do {
       mounts \<leftarrow> cmdlineValues K ''weft.mount'';
       cubefs \<leftarrow> cmdlineValues K ''weft.cubefs'';
       ret (Some (synth_spec tag mounts cubefs))
     }
   }"

subsection \<open>Properties\<close>

lemma cut_prefix_binding:
  assumes "CHR ''='' \<notin> set k" "CHR ''='' \<notin> set key"
  shows "cut_prefix (key @ ''='') (k @ ''='' @ v) = (if k = key then Some v else None)"
proof (cases "cut_prefix (key @ ''='') (k @ ''='' @ v)")
  case None
  then show ?thesis using cut_prefix_append [of "key @ ''=''" v] by auto
next
  case (Some r)
  then have "k @ CHR ''='' # v = key @ CHR ''='' # r" by (simp add: cut_prefix_Some_iff)
  with cut_append [OF assms(1), of v] cut_append [OF assms(2), of r]
  have "Some (k, v) = Some (key, r)" by (simp only:)
  with Some show ?thesis by simp
qed

definition directive :: "string \<times> string \<Rightarrow> string" where
  "directive kv = fst kv @ ''='' @ snd kv"

text \<open>A directive that survives the splitting at white space: no space, and no \<open>=\<close> in the key.\<close>

definition plain_directive :: "string \<times> string \<Rightarrow> bool" where
  "plain_directive kv \<longleftrightarrow> list_all plain_byte (fst kv) \<and> list_all plain_byte (snd kv) \<and>
     CHR ''='' \<notin> set (fst kv)"

lemma str_fields_directives:
  "list_all plain_directive kvs \<Longrightarrow>
   str_fields (join_with '' '' (map directive kvs)) = map directive kvs"
proof (rule str_fields_join)
  assume "list_all plain_directive kvs"
  moreover have "plain_byte (CHR ''='')" by (simp add: plain_byte_def)
  ultimately show "list_all (\<lambda>w. w \<noteq> [] \<and> list_all plain_byte w) (map directive kvs)"
    by (auto simp: list_all_iff plain_directive_def directive_def)
qed

lemma first_value_directives:
  "list_all plain_directive kvs \<Longrightarrow> CHR ''='' \<notin> set key \<Longrightarrow>
   first_value key (map directive kvs) = (case map_of kvs key of None \<Rightarrow> [] | Some v \<Rightarrow> v)"
  by (induction kvs) (auto simp: directive_def plain_directive_def cut_prefix_binding
      simp del: append_Cons append_Nil)

lemma all_values_directives:
  "list_all plain_directive kvs \<Longrightarrow> CHR ''='' \<notin> set key \<Longrightarrow>
   all_values key (map directive kvs) = map snd (filter (\<lambda>kv. fst kv = key) kvs)"
  by (induction kvs) (auto simp: directive_def plain_directive_def cut_prefix_binding
      simp del: append_Cons append_Nil)

text \<open>
  C38. Reading back a command line: when /proc/cmdline holds the directives \<open>k=v\<close> separated by
  blanks, \<open>cmdlineValue\<close> returns the value of the first one with the key (the empty string when there is
  none), \<open>cmdlineValues\<close> every value of the key in order.
\<close>

theorem cmdline_roundtrip:
  assumes "k_read K tr proc_cmdline = Inr (join_with '' '' (map directive kvs))"
    and "list_all plain_directive kvs" and "CHR ''='' \<notin> set key"
  shows "fst (run_state (cmdlineValue K key) tr) =
           (case map_of kvs key of None \<Rightarrow> [] | Some v \<Rightarrow> v) \<and>
         fst (run_state (cmdlineValues K key) tr) = map snd (filter (\<lambda>kv. fst kv = key) kvs)"
  using assms
  by (simp add: cmdlineValue_def cmdlineValues_def os_read_file_def str_fields_directives
      first_value_directives all_values_directives)

theorem cmdline_roundtrip_witness:
  "fst (run_state (cmdlineValues
      (kernel_with [proc_cmdline \<mapsto> ''weft.mount=virtiofs:a:/a quiet=1 weft.mount=virtiofs:b:/b:ro''])
      ''weft.mount'') []) = [''virtiofs:a:/a'', ''virtiofs:b:/b:ro'']"
proof -
  let ?kvs = "[(''weft.mount'', ''virtiofs:a:/a''), (''quiet'', ''1''),
    (''weft.mount'', ''virtiofs:b:/b:ro'')]"
  let ?K = "kernel_with
    [proc_cmdline \<mapsto> ''weft.mount=virtiofs:a:/a quiet=1 weft.mount=virtiofs:b:/b:ro'']"
  have "k_read ?K [] proc_cmdline = Inr (join_with '' '' (map directive ?kvs))"
    by (simp add: kernel_with_def directive_def)
  moreover have "list_all plain_directive ?kvs" by (simp add: plain_directive_def plain_byte_def)
  ultimately show ?thesis using cmdline_roundtrip [of ?K "[]" ?kvs "''weft.mount''"] by simp
qed

lemma drop_to_colon:
  "(case index_byte (CHR '':'') raw of Some i \<Rightarrow> drop (Suc i) raw | None \<Rightarrow> raw) =
   (case cut (CHR '':'') raw of Some (_, v) \<Rightarrow> v | None \<Rightarrow> raw)"
  by (cases "index_byte (CHR '':'') raw") (auto simp: cut_def)

lemma parseMountDirective_alt: "parseMountDirective raw =
  (case split_on (CHR '':'') raw of
     [] \<Rightarrow> Inl (Errorf ''expected <tag>:<guest>[:ro], got %q'' [AStr raw])
   | [a] \<Rightarrow> Inl (Errorf ''expected <tag>:<guest>[:ro], got %q'' [AStr raw])
   | [a, b] \<Rightarrow> Inl (Errorf ''expected <tag>:<guest>[:ro], got %q'' [AStr raw])
   | a # t # g # rest \<Rightarrow>
       Inr \<lparr>sh_Tag = t, sh_MountPoint = g, sh_Readonly = (rest \<noteq> [] \<and> hd rest = ''ro'')\<rparr>)"
proof (cases "cut (CHR '':'') raw")
  case None
  then show ?thesis by (simp add: parseMountDirective_def drop_to_colon)
next
  case (Some av)
  then obtain a v where av: "raw = a @ CHR '':'' # v" "CHR '':'' \<notin> set a" "av = (a, v)"
    by (cases av) (auto simp: cut_Some_iff)
  show ?thesis
  proof (cases "split_on (CHR '':'') v")
    case (Cons t rest)
    with av show ?thesis
      by (cases rest; cases "tl rest") (simp_all add: parseMountDirective_def drop_to_colon)
  qed simp
qed

text \<open>
  A mount directive round trip: \<open><transport>:<tag>:<guest>[:ro]\<close> with parts that hold no colon is
  read as the share with this tag, this path and this mode.
\<close>

theorem parseMountDirective_roundtrip:
  assumes "CHR '':'' \<notin> set transport" "CHR '':'' \<notin> set tag" "CHR '':'' \<notin> set guest"
  shows "parseMountDirective (join_with '':'' ([transport, tag, guest] @ (if ro then [''ro''] else []))) =
    Inr \<lparr>sh_Tag = tag, sh_MountPoint = guest, sh_Readonly = ro\<rparr>"
proof -
  have "split_on (CHR '':'') (join_with '':'' ([transport, tag, guest] @ (if ro then [''ro''] else []))) =
    [transport, tag, guest] @ (if ro then [''ro''] else [])"
    using assms by (intro split_join) auto
  then show ?thesis by (simp add: parseMountDirective_alt)
qed

theorem parseMountDirective_roundtrip_witness:
  "parseMountDirective ''virtiofs:data:/mnt:ro'' =
     Inr \<lparr>sh_Tag = ''data'', sh_MountPoint = ''/mnt'', sh_Readonly = True\<rparr>"
  using parseMountDirective_roundtrip [of "''virtiofs''" "''data''" "''/mnt''" True] by simp

text \<open>
  A mount directive is refused exactly when it holds fewer than two colons: an empty tag or an
  empty guest path passes, which the comment of the function says is an error.
\<close>

theorem parseMountDirective_error_iff:
  "(\<exists>e. parseMountDirective raw = Inl e) \<longleftrightarrow> count_list raw (CHR '':'') < 2"
proof -
  have "length (split_on (CHR '':'') raw) = Suc (count_list raw (CHR '':''))"
    by (rule length_split_on)
  then show ?thesis by (auto simp: parseMountDirective_alt split: list.splits)
qed

lemma parseMountDirective_empty_parts:
  "parseMountDirective ''virtiofs::'' = Inr \<lparr>sh_Tag = [], sh_MountPoint = [], sh_Readonly = False\<rparr>"
  by (simp add: parseMountDirective_alt)

text \<open>What an accepted CubeFS directive holds, and what it leaves empty.\<close>

lemma parseCubeFSDirective_Inr:
  assumes "parseCubeFSDirective raw i = Inr sm"
  obtains c where "sm_CubeFS sm = Some c" "cf_Owner c = []" "cf_Volume c \<noteq> []" "cf_Masters c \<noteq> []"
    "sm_ID sm = ''cubefs-'' @ show_nat i" "sm_MountPoint sm \<noteq> []"
    "sm_Action sm = MountActionMount" "sm_Backend sm = BackendCubeFS"
  using assms by (auto simp: parseCubeFSDirective_def Let_def split: if_splits)

lemma not_unmount: "MountActionMount \<noteq> MountActionUnmount"
  by (simp add: MountActionMount_def MountActionUnmount_def)

lemma cubefs_directive_fault:
  assumes "parseCubeFSDirective raw i = Inr sm"
  shows "ShareMount_Validate sm =
    Some (Errorf ''mount %q: cubefs.owner is required'' [AStr (''cubefs-'' @ show_nat i)])"
proof -
  from assms obtain c where "sm_CubeFS sm = Some c" "cf_Owner c = []" "cf_Volume c \<noteq> []"
    "cf_Masters c \<noteq> []" "sm_ID sm = ''cubefs-'' @ show_nat i" "sm_MountPoint sm \<noteq> []"
    "sm_Action sm = MountActionMount" "sm_Backend sm = BackendCubeFS"
    by (rule parseCubeFSDirective_Inr)
  then show ?thesis
    by (simp add: ShareMount_Validate_def validate_backend_def effective_backend_def not_unmount)
qed

text \<open>
  No CubeFS directive of the command line survives its own validation: the share mount it
  becomes has no owner, and \<open>ShareMount.Validate\<close> refuses it for that.
\<close>

theorem cubefs_directive_never_valid:
  assumes "parseCubeFSDirective raw i = Inr sm"
  shows "ShareMount_Validate sm =
    Some (Errorf ''mount %q: cubefs.owner is required'' [AStr (''cubefs-'' @ show_nat i)])"
  using assms by (rule cubefs_directive_fault)

theorem cubefs_directive_never_valid_witness:
  "\<exists>sm. parseCubeFSDirective ''m1,m2:vol:/mnt'' 0 = Inr sm \<and> ShareMount_Validate sm =
     Some (Errorf ''mount %q: cubefs.owner is required'' [AStr (''cubefs-'' @ show_nat 0)])"
proof -
  obtain sm where "parseCubeFSDirective ''m1,m2:vol:/mnt'' 0 = Inr sm"
    by (simp add: parseCubeFSDirective_def)
  with cubefs_directive_never_valid [OF this] show ?thesis by blast
qed

text \<open>
  A master address with a port, the form \<open>host:port\<close> that \<open>CubeFSMount.Masters\<close> documents, is
  torn apart at its colon: the port becomes the volume and the volume the mount point.
\<close>

theorem cubefs_master_with_port:
  assumes "CHR '':'' \<notin> set host" "CHR '':'' \<notin> set port" "CHR '':'' \<notin> set vol" "CHR '':'' \<notin> set mnt"
    and "host \<noteq> []" "hd host \<noteq> CHR '',''" "port \<noteq> []" "vol \<noteq> []"
  shows "\<exists>sm c. parseCubeFSDirective (join_with '':'' [host, port, vol, mnt]) i = Inr sm \<and>
    sm_CubeFS sm = Some c \<and> cf_Volume c = port \<and> sm_MountPoint sm = vol"
proof -
  have s: "split_on (CHR '':'') (join_with '':'' [host, port, vol, mnt]) = [host, port, vol, mnt]"
    using assms by (intro split_join) auto
  obtain x xs where "host = x # xs" "x \<noteq> CHR '',''" using assms(5,6) by (cases host) auto
  then have "split_on (CHR '','') host ! 0 \<noteq> []" by (auto split: list.split)
  with s assms show ?thesis by (simp add: parseCubeFSDirective_def Let_def del: join_with.simps)
qed

theorem cubefs_master_with_port_witness:
  "\<exists>sm c. parseCubeFSDirective ''10.9.0.1:17010:team:/mnt'' 0 = Inr sm \<and>
    sm_CubeFS sm = Some c \<and> cf_Volume c = ''17010'' \<and> sm_MountPoint sm = ''team''"
  using cubefs_master_with_port [of "''10.9.0.1''" "''17010''" "''team''" "''/mnt''" 0] by simp

lemma extractContainerMounts_eq:
  "extractContainerMounts ds = map (\<lambda>sh. bind_mount (sh_MountPoint sh) (sh_Readonly sh)) (synth_shares ds)"
  by (induction ds) (auto split: sum.split)

lemma synth_cubefs_mounts:
  "snd (synth_cubefs i ds) =
     map (\<lambda>sm. bind_mount (sm_MountPoint sm) (sm_Readonly sm)) (fst (synth_cubefs i ds))"
  by (induction i ds rule: synth_cubefs.induct) (auto simp: Let_def split: sum.split prod.splits)

lemma synth_cubefs_invalid:
  "list_all (\<lambda>sm. \<not> share_mount_ok sm) (fst (synth_cubefs i ds))"
proof (induction i ds rule: synth_cubefs.induct)
  case (2 i raw ds)
  show ?case
  proof (cases "parseCubeFSDirective raw i")
    case (Inr sm)
    from cubefs_directive_fault [OF Inr] have "\<not> share_mount_ok sm"
      by (simp flip: ShareMount_Validate_iff)
    with 2 Inr show ?thesis by (auto simp: Let_def split: prod.splits)
  qed (use 2 in \<open>auto simp: Let_def split: prod.splits\<close>)
qed simp

text \<open>
  The pod made up from the command line: one container on the rootfs tag, which gets exactly one
  bind mount, at the same path and in the same mode, for every other share that will be mounted in
  the guest and for every CubeFS mount, in the order of the directives.
\<close>

theorem synth_spec_mounts:
  "map c_ID (sp_Containers (synth_spec tag ms cs)) = [''main''] \<and>
   map c_RootfsTag (sp_Containers (synth_spec tag ms cs)) = [tag] \<and>
   map sh_Tag (sp_Shares (synth_spec tag ms cs)) = tag # map sh_Tag (synth_shares ms) \<and>
   map c_Mounts (sp_Containers (synth_spec tag ms cs)) =
     [map (\<lambda>sh. bind_mount (sh_MountPoint sh) (sh_Readonly sh)) (tl (sp_Shares (synth_spec tag ms cs))) @
      map (\<lambda>sm. bind_mount (sm_MountPoint sm) (sm_Readonly sm)) (sp_ShareMounts (synth_spec tag ms cs))]"
  using synth_cubefs_mounts [of 0 cs]
  by (auto simp: synth_spec_def Let_def extractContainerMounts_eq split: prod.splits)

text \<open>
  The pod made up from the command line is well formed exactly when it has a rootfs tag and no
  CubeFS directive was accepted: one accepted directive makes \<open>Spec.Validate\<close> refuse the pod.
\<close>

theorem synth_spec_valid_iff:
  "Spec_Validate (synth_spec tag ms cs) = None \<longleftrightarrow>
     tag \<noteq> [] \<and> sp_ShareMounts (synth_spec tag ms cs) = []"
proof -
  have sm: "sp_ShareMounts (synth_spec tag ms cs) = fst (synth_cubefs 0 cs)"
    by (auto simp: synth_spec_def Let_def split: prod.splits)
  have bad: "list_all share_mount_ok (fst (synth_cubefs 0 cs)) \<longleftrightarrow> fst (synth_cubefs 0 cs) = []"
    using synth_cubefs_invalid [of 0 cs] by (cases "fst (synth_cubefs 0 cs)") auto
  have "spec_ok (synth_spec tag ms cs) \<longleftrightarrow>
      tag \<noteq> [] \<and> list_all share_mount_ok (sp_ShareMounts (synth_spec tag ms cs))"
    by (auto simp: spec_ok_def synth_spec_def Let_def split: prod.splits)
  then have "spec_ok (synth_spec tag ms cs) \<longleftrightarrow> tag \<noteq> [] \<and> fst (synth_cubefs 0 cs) = []"
    unfolding sm bad .
  then show ?thesis unfolding sm Spec_Validate_None_iff .
qed

end
