(* ===== verification/Image_Config.thy ===== *)
theory Image_Config
  imports Go_Os Pod_Spec "HOL-Library.AList"
begin

text \<open>
  The image configuration (src/pkg/pod/imageconfig.go): what the host's puller left in the rootfs,
  and how it fills the fields of a container that the pod spec leaves empty.  Decoding the JSON text
  into the struct is \<open>encoding/json\<close>'s, a parameter \<open>decode\<close>.
\<close>

record ImageProcess =
  ip_Args :: "string list"
  ip_Env :: "string list"
  ip_Cwd :: string
  ip_UID :: "32 word"
  ip_GID :: "32 word"

record ImageConfigFile =
  icf_Process :: ImageProcess

definition image_config_path :: "string \<Rightarrow> string" where
  "image_config_path rootfs = path_join [rootfs, ''.weft-microvm'', ''config.json'']"

definition LoadImageConfig ::
    "kernel \<Rightarrow> (string \<Rightarrow> ImageConfigFile result) \<Rightarrow> string \<Rightarrow> ImageConfigFile result io" where
  "LoadImageConfig K decode rootfs = do {
     let p = image_config_path rootfs;
     r \<leftarrow> os_read_file K p;
     ret (case r of
            Inl e \<Rightarrow> Inl e
          | Inr b \<Rightarrow> (case decode b of
                        Inl e \<Rightarrow> Inl (Wrapf ''decode %s: %w'' [AStr p] e)
                      | Inr cf \<Rightarrow> Inr cf))
   }"

text \<open>
  The map built from the \<open>K=V\<close> entries: an entry is cut at its first \<open>=\<close>, one without is
  skipped, a later entry of the same key replaces the earlier one.
\<close>

fun put_env :: "(string \<times> string) list \<Rightarrow> string list \<Rightarrow> (string \<times> string) list" where
  "put_env m [] = m"
| "put_env m (e # es) =
     (case cut (CHR ''='') e of None \<Rightarrow> put_env m es | Some (k, v) \<Rightarrow> put_env (AList.update k v m) es)"

definition user_string :: "32 word \<Rightarrow> 32 word \<Rightarrow> string" where
  "user_string uid gid = show_nat (unat uid) @ '':'' @ show_nat (unat gid)"

text \<open>The assignments after the configuration was read and found to have arguments.\<close>

definition fill_container :: "ImageProcess \<Rightarrow> Container \<Rightarrow> Container" where
  "fill_container p c =
     c\<lparr>c_Command := ip_Args p,
       c_Env := (if c_Env c = [] \<and> ip_Env p \<noteq> [] then put_env [] (ip_Env p) else c_Env c),
       c_Workdir := (if c_Workdir c = [] then ip_Cwd p else c_Workdir c),
       c_User := (if c_User c = [] \<and> (ip_UID p \<noteq> 0 \<or> ip_GID p \<noteq> 0)
                  then user_string (ip_UID p) (ip_GID p) else c_User c)\<rparr>"

text \<open>The container is passed by pointer: the result is the error and the container afterwards.\<close>

definition EnrichFromImage ::
    "kernel \<Rightarrow> (string \<Rightarrow> ImageConfigFile result) \<Rightarrow> Container \<Rightarrow> string \<Rightarrow>
     (goerr option \<times> Container) io" where
  "EnrichFromImage K decode c rootfs =
     (if c_Command c \<noteq> [] then ret (None, c)
      else do {
        r \<leftarrow> LoadImageConfig K decode rootfs;
        ret (case r of
               Inl e \<Rightarrow> (Some e, c)
             | Inr cf \<Rightarrow>
                 if ip_Args (icf_Process cf) = []
                 then (Some (Errorf ''image config at %s/.weft-microvm/config.json has empty process.args''
                         [AStr rootfs]), c)
                 else (None, fill_container (icf_Process cf) c))
      })"

text \<open>
  What a list of \<open>K=V\<close> entries binds, the last entry of a key first, as the OCI runtime reads an
  environment; an entry without \<open>=\<close> binds nothing.
\<close>

definition env_view :: "string list \<Rightarrow> string \<Rightarrow> string option" where
  "env_view es = map_of (rev (List.map_filter (cut (CHR ''='')) es))"

lemma env_view_Nil [simp]: "env_view [] k = None"
  by (simp add: env_view_def List.map_filter_simps)

lemma env_view_append: "env_view (es @ fs) k =
  (case env_view fs k of Some v \<Rightarrow> Some v | None \<Rightarrow> env_view es k)"
  by (simp add: env_view_def List.map_filter_def map_add_def split: option.split)

lemma env_view_Cons: "env_view (e # es) k =
  (case env_view es k of Some v \<Rightarrow> Some v
   | None \<Rightarrow> (case cut (CHR ''='') e of Some (k', v) \<Rightarrow> if k' = k then Some v else None | None \<Rightarrow> None))"
  using env_view_append [of "[e]" es k]
  by (auto simp: env_view_def List.map_filter_simps split: option.split)

lemma map_of_put_env: "map_of (put_env m es) k =
  (case env_view es k of Some v \<Rightarrow> Some v | None \<Rightarrow> map_of m k)"
  by (induction m es rule: put_env.induct)
    (auto simp: env_view_Cons update_conv' split: option.splits)

lemma distinct_put_env: "distinct (map fst m) \<Longrightarrow> distinct (map fst (put_env m es))"
  by (induction m es rule: put_env.induct) (auto simp: distinct_update split: option.splits)

lemma EnrichFromImage_cases:
  assumes "run_state (EnrichFromImage K decode c rootfs) tr = ((e, c'), tr')" "c_Command c = []"
  obtains (read) e' where "k_read K tr (image_config_path rootfs) = Inl e'" "e = Some e'" "c' = c"
  | (decode) b e' where "k_read K tr (image_config_path rootfs) = Inr b" "decode b = Inl e'"
      "e = Some (Wrapf ''decode %s: %w'' [AStr (image_config_path rootfs)] e')" "c' = c"
  | (no_args) b cf where "k_read K tr (image_config_path rootfs) = Inr b" "decode b = Inr cf"
      "ip_Args (icf_Process cf) = []" "e \<noteq> None" "c' = c"
  | (ok) b cf where "k_read K tr (image_config_path rootfs) = Inr b" "decode b = Inr cf"
      "ip_Args (icf_Process cf) \<noteq> []" "e = None" "c' = fill_container (icf_Process cf) c"
  using assms
  by (auto simp: EnrichFromImage_def LoadImageConfig_def os_read_file_def Let_def
      split: sum.splits if_splits)



end
