(* ===== verification/Bundler.thy ===== *)
theory Bundler
  imports Image_Config
begin

text \<open>
  Package bundler (src/pkg/bundler/bundler.go): the OCI bundle of a container.  The structs of the
  runtime specification are records in the order of the source; a nil pointer is \<^const>\<open>None\<close>.
  \<open>json.MarshalIndent\<close> of the spec is a parameter \<open>marshal\<close>, as it is a variable of the package.
\<close>

subsection \<open>OCI types\<close>

record oci_user =
  u_UID :: "32 word"
  u_GID :: "32 word"

record capSet =
  cs_Bounding :: "string list"
  cs_Permitted :: "string list"
  cs_Effective :: "string list"
  cs_Inheritable :: "string list"
  cs_Ambient :: "string list"

record rlimit =
  rl_Type :: string
  rl_Hard :: nat
  rl_Soft :: nat

record oci_process =
  pr_Terminal :: bool
  pr_User :: oci_user
  pr_Args :: "string list"
  pr_Env :: "string list"
  pr_Cwd :: string
  pr_Capabilities :: "capSet option"
  pr_Rlimits :: "rlimit list"
  pr_NoNewPrivileges :: bool

record oci_root =
  ro_Path :: string
  ro_Readonly :: bool

record oci_mount =
  om_Destination :: string
  om_Type :: string
  om_Source :: string
  om_Options :: "string list"

record namespace =
  ns_Type :: string
  ns_Path :: string

text \<open>\<open>int64\<close> limits are signed numbers.\<close>

record resources =
  re_Memory :: "int option"
  re_CPU :: "64 word option"
  re_Pids :: "int option"

record linuxCfg =
  li_Namespaces :: "namespace list"
  li_Resources :: "resources option"
  li_MaskedPaths :: "string list"
  li_ReadonlyPaths :: "string list"

record oci_spec =
  os_Version :: string
  os_Process :: "oci_process option"
  os_Root :: oci_root
  os_Hostname :: string
  os_Mounts :: "oci_mount list"
  os_Linux :: "linuxCfg option"

subsection \<open>Defaults\<close>

definition ociVersion :: string where "ociVersion = ''1.0.2''"

definition BundlesRoot :: string where "BundlesRoot = ''/run/weft/bundles''"

definition defaultEnv :: "string list" where
  "defaultEnv = [''PATH=/usr/local/sbin:/usr/local/bin:/usr/sbin:/usr/bin:/sbin:/bin'', ''TERM=xterm'']"

definition baseCaps :: "string list" where
  "baseCaps = [''CAP_AUDIT_WRITE'', ''CAP_CHOWN'', ''CAP_DAC_OVERRIDE'', ''CAP_FOWNER'',
     ''CAP_FSETID'', ''CAP_KILL'', ''CAP_MKNOD'', ''CAP_NET_BIND_SERVICE'', ''CAP_NET_RAW'',
     ''CAP_SETFCAP'', ''CAP_SETGID'', ''CAP_SETPCAP'', ''CAP_SETUID'', ''CAP_SYS_CHROOT'']"

definition defaultCaps :: "bool \<Rightarrow> string list" where
  "defaultCaps privileged =
     (if \<not> privileged then baseCaps
      else baseCaps @ [''CAP_SYS_ADMIN'', ''CAP_NET_ADMIN'', ''CAP_SYS_PTRACE''])"

definition defaultRlimits :: "rlimit list" where
  "defaultRlimits = [\<lparr>rl_Type = ''RLIMIT_NOFILE'', rl_Hard = 1024, rl_Soft = 1024\<rparr>]"

definition oci_mnt :: "string \<Rightarrow> string \<Rightarrow> string \<Rightarrow> string list \<Rightarrow> oci_mount" where
  "oci_mnt d t s opts = \<lparr>om_Destination = d, om_Type = t, om_Source = s, om_Options = opts\<rparr>"

definition defaultMounts :: "oci_mount list" where
  "defaultMounts =
     [oci_mnt ''/proc'' ''proc'' ''proc'' [],
      oci_mnt ''/dev'' ''tmpfs'' ''tmpfs''
        [''nosuid'', ''strictatime'', ''mode=755'', ''size=65536k''],
      oci_mnt ''/dev/pts'' ''devpts'' ''devpts''
        [''nosuid'', ''noexec'', ''newinstance'', ''ptmxmode=0666'', ''mode=0620''],
      oci_mnt ''/dev/shm'' ''tmpfs'' ''shm''
        [''nosuid'', ''noexec'', ''nodev'', ''mode=1777'', ''size=65536k''],
      oci_mnt ''/dev/mqueue'' ''mqueue'' ''mqueue'' [''nosuid'', ''noexec'', ''nodev''],
      oci_mnt ''/sys'' ''sysfs'' ''sysfs'' [''nosuid'', ''noexec'', ''nodev'', ''ro'']]"

definition defaultMaskedPaths :: "string list" where
  "defaultMaskedPaths = [''/proc/acpi'', ''/proc/asound'', ''/proc/kcore'', ''/proc/keys'',
     ''/proc/latency_stats'', ''/proc/timer_list'', ''/proc/timer_stats'', ''/proc/sched_debug'',
     ''/sys/firmware'', ''/proc/scsi'']"

definition defaultReadonlyPaths :: "string list" where
  "defaultReadonlyPaths = [''/proc/bus'', ''/proc/fs'', ''/proc/irq'', ''/proc/sys'',
     ''/proc/sysrq-trigger'']"

subsection \<open>The builder\<close>

text \<open>The errors of \<open>strconv.ParseUint\<close> are dropped: 0 for no number, the maximum for too large a one.\<close>

definition parse_id :: "string \<Rightarrow> 32 word" where
  "parse_id s = of_nat (fst (parse_uint 32 s))"

definition parseUser :: "string \<Rightarrow> 32 word \<times> 32 word" where
  "parseUser s =
     (if s = [] then (0, 0)
      else (case index_byte (CHR '':'') s of
              Some i \<Rightarrow> (parse_id (take i s), parse_id (drop (Suc i) s))
            | None \<Rightarrow> (parse_id s, parse_id s)))"

text \<open>\<open>int64(r.MemBytes)\<close> reads the 64 bits as signed; \<open>PidsMax\<close> is an \<open>int64\<close> to begin with.\<close>

definition buildResources :: "Resources \<Rightarrow> resources option" where
  "buildResources r =
     (if r_MemBytes r = 0 \<and> r_CPUShares r = 0 \<and> r_PidsMax r = 0 then None
      else Some \<lparr>
        re_Memory = (if 0 < r_MemBytes r then Some (sint (r_MemBytes r)) else None),
        re_CPU = (if 0 < r_CPUShares r then Some (r_CPUShares r) else None),
        re_Pids = (if 0 < sint (r_PidsMax r) then Some (sint (r_PidsMax r)) else None)\<rparr>)"

text \<open>
  \<open>mergeEnv\<close>: the loop over the defaults yields the entries and the keys consumed; the keys left
  over are appended sorted.  The overrides are the map in the order a \<open>range\<close> visits it.
\<close>

fun merge_defaults :: "(string \<times> string) list \<Rightarrow> string list \<Rightarrow> string list \<times> string list" where
  "merge_defaults ov [] = ([], [])"
| "merge_defaults ov (d # ds) =
     (let (out, consumed) = merge_defaults ov ds
      in case cut (CHR ''='') d of
           None \<Rightarrow> (d # out, consumed)
         | Some (k, _) \<Rightarrow>
             (case map_of ov k of
                Some v \<Rightarrow> ((k @ ''='' @ v) # out, k # consumed)
              | None \<Rightarrow> (d # out, consumed)))"

definition env_entry :: "(string \<times> string) list \<Rightarrow> string \<Rightarrow> string" where
  "env_entry ov k = k @ ''='' @ the (map_of ov k)"

definition mergeEnv :: "string list \<Rightarrow> (string \<times> string) list \<Rightarrow> string list" where
  "mergeEnv defaults ov =
     (let (out, consumed) = merge_defaults ov defaults;
          remaining = filter (\<lambda>k. k \<notin> set consumed) (map fst ov)
      in out @ map (env_entry ov) (sort remaining))"

definition bundleNamespacesEnv :: string where
  "bundleNamespacesEnv = ''WEFT_BUNDLE_NAMESPACES''"

definition ns_of :: "string \<Rightarrow> namespace" where
  "ns_of t = \<lparr>ns_Type = t, ns_Path = []\<rparr>"

definition namespaces_of :: "string option \<Rightarrow> namespace list" where
  "namespaces_of v =
     (case v of
        None \<Rightarrow> map ns_of [''pid'', ''network'', ''ipc'', ''uts'', ''mount'']
      | Some raw \<Rightarrow>
          if raw = [] \<or> raw = ''none'' then []
          else map ns_of (filter (\<lambda>t. t \<noteq> []) (map trim_space (split_on (CHR '','') raw))))"

definition namespacesFromEnv :: "kernel \<Rightarrow> namespace list io" where
  "namespacesFromEnv K = do {
     v \<leftarrow> lookup_env K bundleNamespacesEnv;
     ret (namespaces_of v)
   }"

definition namespacesFor :: "kernel \<Rightarrow> Container \<Rightarrow> namespace list io" where
  "namespacesFor K c = do {
     ns \<leftarrow> namespacesFromEnv K;
     overridden \<leftarrow> lookup_env K bundleNamespacesEnv;
     ret (if overridden \<noteq> None then ns
          else if c_Net c = ''none'' then ns
          else filter (\<lambda>n. ns_Type n \<noteq> ''network'') ns)
   }"

definition resolvConfPath :: string where "resolvConfPath = ''/etc/resolv.conf''"

definition resolv_mount :: oci_mount where
  "resolv_mount = oci_mnt ''/etc/resolv.conf'' ''bind'' resolvConfPath
     [''rbind'', ''ro'', ''nosuid'', ''nodev'', ''noexec'']"

definition resolvConfMount :: "kernel \<Rightarrow> Container \<Rightarrow> oci_mount option io" where
  "resolvConfMount K c =
     (if c_Net c = ''none'' then ret None
      else do {
        e \<leftarrow> os_stat K resolvConfPath;
        ret (if e \<noteq> None then None else Some resolv_mount)
      })"

definition to_oci_mount :: "Mount \<Rightarrow> oci_mount" where
  "to_oci_mount m = \<lparr>om_Destination = m_Destination m, om_Type = m_Type m, om_Source = m_Source m,
     om_Options = m_Options m\<rparr>"

definition buildSpec :: "kernel \<Rightarrow> string \<Rightarrow> Container \<Rightarrow> string \<Rightarrow> oci_spec io" where
  "buildSpec K podID c rootfsPath = do {
     let (uid, gid) = parseUser (c_User c);
     let args = c_Command c @ c_Args c;
     let env = mergeEnv defaultEnv (c_Env c);
     let caps = defaultCaps (c_Privileged c);
     m \<leftarrow> resolvConfMount K c;
     let mounts = defaultMounts @ (case m of Some x \<Rightarrow> [x] | None \<Rightarrow> []) @
                  map to_oci_mount (c_Mounts c);
     let cwd = (if c_Workdir c = [] then ''/'' else c_Workdir c);
     ns \<leftarrow> namespacesFor K c;
     ret \<lparr>os_Version = ociVersion,
          os_Process = Some \<lparr>pr_Terminal = False, pr_User = \<lparr>u_UID = uid, u_GID = gid\<rparr>,
            pr_Args = args, pr_Env = env, pr_Cwd = cwd,
            pr_Capabilities = Some \<lparr>cs_Bounding = caps, cs_Permitted = caps, cs_Effective = caps,
              cs_Inheritable = [], cs_Ambient = []\<rparr>,
            pr_Rlimits = defaultRlimits, pr_NoNewPrivileges = (\<not> c_Privileged c)\<rparr>,
          os_Root = \<lparr>ro_Path = rootfsPath, ro_Readonly = False\<rparr>,
          os_Hostname = podID, os_Mounts = mounts,
          os_Linux = Some \<lparr>li_Namespaces = ns, li_Resources = buildResources (c_Resources c),
            li_MaskedPaths = defaultMaskedPaths, li_ReadonlyPaths = defaultReadonlyPaths\<rparr>\<rparr>
   }"

definition Build ::
    "kernel \<Rightarrow> (oci_spec \<Rightarrow> string result) \<Rightarrow> string \<Rightarrow> Container \<Rightarrow> string \<Rightarrow> string result io" where
  "Build K marshal podID c rootfsPath =
     (if c_Command c = []
      then ret (Inl (Errorf ''container %q: command is required (host must resolve image entrypoint)''
                  [AStr (c_ID c)]))
      else if rootfsPath = []
      then ret (Inl (Errorf ''container %q: rootfsPath is required'' [AStr (c_ID c)]))
      else do {
        let bundleDir = path_join [BundlesRoot, c_ID c];
        e \<leftarrow> os_mkdir_all K bundleDir;
        (case e of
           Some x \<Rightarrow> ret (Inl (Wrapf ''mkdir bundle %s: %w'' [AStr bundleDir] x))
         | None \<Rightarrow> do {
             spec \<leftarrow> buildSpec K podID c rootfsPath;
             (case marshal spec of
                Inl x \<Rightarrow> ret (Inl (Wrapf ''marshal config.json: %w'' [] x))
              | Inr b \<Rightarrow> do {
                  w \<leftarrow> os_write_file K (path_join [bundleDir, ''config.json'']) b 420;
                  ret (case w of
                         Some x \<Rightarrow> Inl (Wrapf ''write config.json: %w'' [] x)
                       | None \<Rightarrow> Inr bundleDir)
                })
           })
      })"

subsection \<open>The environment\<close>

lemma merge_defaults_cong:
  assumes "map_of ov = map_of ov'"
  shows "merge_defaults ov ds = merge_defaults ov' ds"
  by (induction ds) (simp_all add: Let_def assms split: prod.split option.split)

lemma merge_defaults_consumed:
  "set (snd (merge_defaults ov ds)) \<subseteq> fst ` set ov"
proof (induction ds)
  case (Cons d ds)
  then show ?case
    by (auto simp: Let_def map_of_eq_None_iff split: option.splits prod.splits dest!: map_of_SomeD)
      (metis fst_conv image_eqI)+
qed simp

lemma length_merge_defaults: "length (fst (merge_defaults ov ds)) = length ds"
  by (induction ds) (auto simp: Let_def split: option.splits prod.splits)

definition entry_key :: "string \<Rightarrow> string option" where
  "entry_key e = map_option fst (cut (CHR ''='') e)"

lemma entry_key_pair: "CHR ''='' \<notin> set k \<Longrightarrow> entry_key (k @ ''='' @ v) = Some k"
  by (simp add: entry_key_def)

lemma cut_Some_key: "cut (CHR ''='') d = Some (k, v) \<Longrightarrow> CHR ''='' \<notin> set k \<and> entry_key d = Some k"
  by (auto simp: cut_Some_iff entry_key_def)

lemma merge_defaults_keys:
  "map entry_key (fst (merge_defaults ov ds)) = map entry_key ds"
  by (induction ds)
    (auto simp: Let_def entry_key_pair[simplified] dest: cut_Some_key split: option.splits prod.splits)

lemma merge_defaults_view: "env_view (fst (merge_defaults ov ds)) k =
  (if env_view ds k \<noteq> None \<and> map_of ov k \<noteq> None then map_of ov k else env_view ds k)"
proof (induction ds)
  case (Cons d ds)
  show ?case
  proof (cases "cut (CHR ''='') d")
    case None
    with Cons show ?thesis
      by (auto simp: Let_def env_view_Cons split: prod.splits option.splits if_splits)
  next
    case (Some kv)
    then obtain k' v where kv: "cut (CHR ''='') d = Some (k', v)" by (cases kv) auto
    then have "CHR ''='' \<notin> set k'" by (simp add: cut_Some_iff)
    with Cons kv show ?thesis
      by (auto simp: Let_def env_view_Cons split: prod.splits option.splits if_splits)
  qed
qed simp

lemma merge_defaults_consumed_iff:
  "k \<in> set (snd (merge_defaults ov ds)) \<longleftrightarrow> env_view ds k \<noteq> None \<and> map_of ov k \<noteq> None"
proof (induction ds)
  case (Cons d ds)
  then show ?case
    by (auto simp: Let_def env_view_Cons split: option.splits prod.splits)
qed simp

lemma env_view_entries:
  assumes "\<And>x. x \<in> set ks \<Longrightarrow> CHR ''='' \<notin> set x \<and> map_of ov x \<noteq> None"
  shows "env_view (map (env_entry ov) ks) k = (if k \<in> set ks then map_of ov k else None)"
  using assms
proof (induction ks)
  case (Cons x ks)
  from Cons.prems [of x] obtain v where x: "CHR ''='' \<notin> set x" "map_of ov x = Some v" by auto
  have "env_view (map (env_entry ov) ks) k = (if k \<in> set ks then map_of ov k else None)"
    using Cons by simp
  moreover have "map_of ov k \<noteq> None" if "k \<in> set ks" using Cons.prems [of k] that by simp
  moreover have "cut (CHR ''='') (env_entry ov x) = Some (x, v)" using x by (simp add: env_entry_def)
  ultimately show ?case using x by (auto simp: env_view_Cons)
qed simp

text \<open>The keys of the map that no default used up, in order.\<close>

definition leftover_keys :: "string list \<Rightarrow> (string \<times> string) list \<Rightarrow> string list" where
  "leftover_keys ds ov =
     sort (filter (\<lambda>k. k \<notin> set (snd (merge_defaults ov ds))) (map fst ov))"

lemma mergeEnv_alt:
  "mergeEnv ds ov = fst (merge_defaults ov ds) @ map (env_entry ov) (leftover_keys ds ov)"
  by (simp add: mergeEnv_def leftover_keys_def Let_def split: prod.split)

lemma leftover_keys_cong:
  assumes "map_of ov = map_of ov'" "distinct (map fst ov)" "distinct (map fst ov')"
  shows "leftover_keys ds ov = leftover_keys ds ov'"
proof -
  have "set (map fst ov) = set (map fst ov')"
    using assms(1) by (metis dom_map_of_conv_image_fst list.set_map)
  with assms merge_defaults_cong [OF assms(1)] show ?thesis
    unfolding leftover_keys_def by (intro sorted_distinct_set_unique) auto
qed

text \<open>
  The merged environment: a key the user sets has the user's value, any other key its default;
  the defaults keep their places, and the user's further keys follow in ascending order.
\<close>

theorem mergeEnv_correct:
  assumes "distinct (map fst ov)" "list_all (\<lambda>k. CHR ''='' \<notin> set k) (map fst ov)"
  shows "env_view (mergeEnv ds ov) k =
      (case map_of ov k of Some v \<Rightarrow> Some v | None \<Rightarrow> env_view ds k) \<and>
    map entry_key (take (length ds) (mergeEnv ds ov)) = map entry_key ds \<and>
    (\<exists>ks. sorted_wrt (<) ks \<and> map entry_key (drop (length ds) (mergeEnv ds ov)) = map Some ks)"
proof -
  let ?L = "leftover_keys ds ov"
  have L: "x \<in> set ?L \<longleftrightarrow> map_of ov x \<noteq> None \<and> env_view ds x = None" for x
    by (auto simp: leftover_keys_def merge_defaults_consumed_iff map_of_eq_None_iff)
  have noeq: "CHR ''='' \<notin> set x" if "x \<in> set ?L" for x
    using that assms(2) by (auto simp: leftover_keys_def list_all_iff)
  have "env_view (map (env_entry ov) ?L) k = (if k \<in> set ?L then map_of ov k else None)"
    using L noeq by (intro env_view_entries) blast
  then have "env_view (mergeEnv ds ov) k =
      (case map_of ov k of Some v \<Rightarrow> Some v | None \<Rightarrow> env_view ds k)"
    by (auto simp: mergeEnv_alt env_view_append merge_defaults_view L split: option.splits)
  moreover have "map entry_key (map (env_entry ov) ?L) = map Some ?L"
    using noeq by (auto simp: env_entry_def entry_key_pair[simplified])
  moreover have "sorted_wrt (<) ?L"
    unfolding leftover_keys_def strict_sorted_iff using assms(1) by simp
  ultimately show ?thesis
    by (intro conjI exI [of _ ?L])
      (simp_all add: mergeEnv_alt length_merge_defaults merge_defaults_keys del: map_map)
qed

theorem mergeEnv_correct_witness:
  "env_view (mergeEnv defaultEnv [(''ZED'', ''z''), (''PATH'', ''/opt''), (''ABC'', ''a'')]) ''PATH'' =
     Some ''/opt''"
  using mergeEnv_correct [of "[(''ZED'', ''z''), (''PATH'', ''/opt''), (''ABC'', ''a'')]" defaultEnv "''PATH''"]
  by simp

text \<open>
  The merged environment does not depend on the order in which Go visits the map: two visiting
  orders of the same map give the same list, byte for byte.
\<close>

theorem mergeEnv_deterministic:
  assumes "map_of ov = map_of ov'" "distinct (map fst ov)" "distinct (map fst ov')"
  shows "mergeEnv ds ov = mergeEnv ds ov'"
  using merge_defaults_cong [OF assms(1)] leftover_keys_cong [OF assms] assms(1)
  by (simp add: mergeEnv_alt env_entry_def)

theorem mergeEnv_deterministic_witness:
  "mergeEnv defaultEnv [(''B'', ''2''), (''A'', ''1'')] = mergeEnv defaultEnv [(''A'', ''1''), (''B'', ''2'')]"
  by (rule mergeEnv_deterministic) (auto simp: fun_eq_iff)

text \<open>
  The reference: what \<open>mergeEnv\<close> promises, on the map itself, whose entries have no order: the defaults in
  their order with their values overridden, then the entries no default names, by key.
\<close>

definition override_entry :: "(string \<rightharpoonup> string) \<Rightarrow> string \<Rightarrow> string" where
  "override_entry m d =
     (case entry_key d of
        None \<Rightarrow> d
      | Some k \<Rightarrow> (case m k of None \<Rightarrow> d | Some v \<Rightarrow> k @ ''='' @ v))"

definition merged_env :: "string list \<Rightarrow> (string \<rightharpoonup> string) \<Rightarrow> string list" where
  "merged_env ds m = map (override_entry m) ds @
     map (\<lambda>k. k @ ''='' @ the (m k)) (sorted_list_of_set {k \<in> dom m. Some k \<notin> set (map entry_key ds)})"

lemma merge_defaults_Cons:
  "fst (merge_defaults ov (d # ds)) = override_entry (map_of ov) d # fst (merge_defaults ov ds)"
  "set (snd (merge_defaults ov (d # ds))) =
     {k. entry_key d = Some k \<and> k \<in> fst ` set ov} \<union> set (snd (merge_defaults ov ds))"
proof -
  obtain out used where m: "merge_defaults ov ds = (out, used)" by fastforce
  have "fst (merge_defaults ov (d # ds)) = override_entry (map_of ov) d # fst (merge_defaults ov ds) \<and>
    set (snd (merge_defaults ov (d # ds))) =
      {k. entry_key d = Some k \<and> k \<in> fst ` set ov} \<union> set (snd (merge_defaults ov ds))"
  proof (cases "cut (CHR ''='') d")
    case None
    with m show ?thesis by (simp add: override_entry_def entry_key_def)
  next
    case (Some p)
    obtain k v where p: "p = (k, v)" by fastforce
    show ?thesis
    proof (cases "map_of ov k")
      case n: None
      then have "k \<notin> fst ` set ov" by (simp add: map_of_eq_None_iff)
      with n Some p m show ?thesis by (auto simp add: override_entry_def entry_key_def)
    next
      case s: (Some w)
      then have "k \<in> fst ` set ov" using map_of_eq_None_iff [of ov k] by simp
      with s Some p m show ?thesis by (auto simp add: override_entry_def entry_key_def)
    qed
  qed
  then show "fst (merge_defaults ov (d # ds)) = override_entry (map_of ov) d # fst (merge_defaults ov ds)"
    "set (snd (merge_defaults ov (d # ds))) =
      {k. entry_key d = Some k \<and> k \<in> fst ` set ov} \<union> set (snd (merge_defaults ov ds))" by blast+
qed

lemma merge_defaults_override: "fst (merge_defaults ov ds) = map (override_entry (map_of ov)) ds"
  by (induction ds) (simp_all add: merge_defaults_Cons(1) del: merge_defaults.simps(2))

lemma merge_defaults_used: "set (snd (merge_defaults ov ds)) =
  {k \<in> fst ` set ov. Some k \<in> set (map entry_key ds)}"
  by (induction ds) (auto simp add: merge_defaults_Cons(2) simp del: merge_defaults.simps(2))

text \<open>
  C40. \<open>mergeEnv\<close>, which ranges over a Go map in an unspecified order, is the reference merge of that map:
  the list it returns depends on the map alone.
\<close>

theorem mergeEnv_reference:
  assumes "distinct (map fst ov)"
  shows "mergeEnv ds ov = merged_env ds (map_of ov)"
proof -
  let ?ks = "filter (\<lambda>k. k \<notin> set (snd (merge_defaults ov ds))) (map fst ov)"
  have "set ?ks = {k \<in> dom (map_of ov). Some k \<notin> set (map entry_key ds)}"
    by (auto simp: merge_defaults_used dom_map_of_conv_image_fst)
  moreover have "sort ?ks = sorted_list_of_set (set ?ks)"
    using assms by (simp add: sorted_list_of_set_sort_remdups distinct_remdups_id del: set_filter)
  ultimately have "leftover_keys ds ov = sorted_list_of_set {k \<in> dom (map_of ov). Some k \<notin> set (map entry_key ds)}"
    unfolding leftover_keys_def by metis
  moreover have "env_entry ov = (\<lambda>k. k @ ''='' @ the (map_of ov k))" by (simp add: env_entry_def fun_eq_iff)
  ultimately show ?thesis unfolding mergeEnv_alt merged_env_def merge_defaults_override by metis
qed

theorem mergeEnv_reference_witness:
  "merged_env [''PATH=/bin'', ''TERM=xterm''] [''B'' \<mapsto> ''2'', ''TERM'' \<mapsto> ''vt100'', ''A'' \<mapsto> ''1''] =
    [''PATH=/bin'', ''TERM=vt100'', ''A=1'', ''B=2'']"
proof -
  have "distinct (map fst [(''A'', ''1''), (''TERM'', ''vt100''), (''B'', ''2'')])" by simp
  from mergeEnv_reference [OF this, of "[''PATH=/bin'', ''TERM=xterm'']"]
  have "merged_env [''PATH=/bin'', ''TERM=xterm''] (map_of [(''A'', ''1''), (''TERM'', ''vt100''), (''B'', ''2'')]) =
    mergeEnv [''PATH=/bin'', ''TERM=xterm''] [(''A'', ''1''), (''TERM'', ''vt100''), (''B'', ''2'')]" by (rule sym)
  also have "\<dots> = [''PATH=/bin'', ''TERM=vt100'', ''A=1'', ''B=2'']" by code_simp
  finally show ?thesis by (simp add: fun_upd_twist)
qed

subsection \<open>User and resources\<close>

lemma unat_word32_bound: "unat (w :: 32 word) < 2 ^ 32"
  using unsigned_less [of w, where ?'a = nat] by simp

lemma parse_id_show [simp]: "parse_id (show_nat (unat (w :: 32 word))) = w"
  unfolding parse_id_def parse_show [OF unat_word32_bound] by simp

text \<open>
  The image's user reaches the OCI process: for a container whose spec names no user, parsing the
  user that enriching it wrote gives back the uid and gid of the image, root included.
\<close>

theorem image_user_roundtrip:
  assumes "c_User c = []"
  shows "parseUser (c_User (fill_container p c)) = (ip_UID p, ip_GID p)"
proof (cases "ip_UID p \<noteq> 0 \<or> ip_GID p \<noteq> 0")
  case True
  have "CHR '':'' \<notin> set (show_nat (unat (ip_UID p)))"
    by (rule show_nat_no_char) (simp add: is_digit_def)
  with True assms show ?thesis
    by (simp add: fill_container_def user_string_def parseUser_def)
qed (use assms in \<open>simp add: fill_container_def parseUser_def\<close>)

theorem image_user_roundtrip_witness:
  "parseUser (c_User (fill_container \<lparr>ip_Args = [''/x''], ip_Env = [], ip_Cwd = [], ip_UID = 65532,
     ip_GID = 65532\<rparr> (new_container ''main'' ''r''))) = (65532, 65532)"
proof -
  have "c_User (new_container ''main'' ''r'') = []" by (simp add: new_container_def)
  from image_user_roundtrip [OF this] show ?thesis by simp
qed

lemma parse_uint_loop_show_large:
  "mx < n \<Longrightarrow> parse_uint_loop mx 0 (show_nat n) = (mx, Some ErrRange)"
proof (induction n rule: show_nat.induct)
  case (1 n)
  show ?case
  proof (cases "n < 10")
    case True
    with "1.prems" show ?thesis by (simp add: show_nat.simps [of n])
  next
    case False
    show ?thesis
    proof (cases "mx < n div 10")
      case True
      with False 1 show ?thesis by (simp add: show_nat.simps [of n] parse_uint_loop_append)
    next
      case small: False
      have "n div 10 * 10 + n mod 10 = n" by presburger
      with False small "1.prems" show ?thesis
        by (simp add: show_nat.simps [of n] parse_uint_loop_append parse_uint_loop_show)
    qed
  qed
qed

text \<open>
  What becomes of a user that is no pair of numbers below 2^32: a name (any text that does not
  begin with a digit and has no colon) runs as root, and a uid that does not fit becomes the largest
  uid, 4294967295.
\<close>

theorem parseUser_faults:
  assumes "\<not> is_digit (hd name)" "CHR '':'' \<notin> set name" "2 ^ 32 \<le> n"
  shows "parseUser name = (0, 0) \<and> parseUser (show_nat n) = (4294967295, 4294967295)"
proof
  have "parse_uint 32 name = (0, Some ErrSyntax)" if "name \<noteq> []"
    using assms(1) that by (cases name) (auto simp: parse_uint_def)
  with assms(2) show "parseUser name = (0, 0)" by (auto simp: parseUser_def parse_id_def)
  have "CHR '':'' \<notin> set (show_nat n)"
    by (rule show_nat_no_char) (simp add: is_digit_def)
  moreover have "parse_uint 32 (show_nat n) = (4294967295, Some ErrRange)"
    using assms(3) parse_uint_loop_show_large [of 4294967295 n] by (simp add: parse_uint_def)
  ultimately show "parseUser (show_nat n) = (4294967295, 4294967295)"
    by (simp add: parseUser_def parse_id_def)
qed

theorem parseUser_faults_witness:
  "parseUser ''nobody'' = (0, 0) \<and> parseUser (show_nat 4294967296) = (4294967295, 4294967295)"
  by (rule parseUser_faults) (simp_all add: is_digit_def)

lemma sint_64: "sint (w :: 64 word) = (if uint w < 2 ^ 63 then uint w else uint w - 2 ^ 64)"
proof -
  have "sint w = (uint w + 2 ^ 63) mod 2 ^ 64 - 2 ^ 63"
    by (simp add: sint_uint signed_take_bit_eq_take_bit_shift take_bit_eq_mod)
  moreover have "(uint w + 2 ^ 63) mod 2 ^ 64 =
    (if uint w < 2 ^ 63 then uint w + 2 ^ 63 else uint w - 2 ^ 63)"
  proof -
    have b: "0 \<le> uint w" "uint w < 2 ^ 64"
      using unsigned_less [of w, where ?'a = int] by simp_all
    show ?thesis
    proof (cases "uint w < 2 ^ 63")
      case True
      with b show ?thesis by simp
    next
      case False
      have "uint w + 2 ^ 63 = (uint w - 2 ^ 63) + 2 ^ 64" by simp
      then have "(uint w + 2 ^ 63) mod 2 ^ 64 = (uint w - 2 ^ 63) mod 2 ^ 64"
        by (metis mod_add_self2)
      also have "\<dots> = uint w - 2 ^ 63" using b False by simp
      finally show ?thesis using False by simp
    qed
  qed
  ultimately show ?thesis by simp
qed

text \<open>A memory limit of 2^63 bytes or more reaches the spec as a negative number.\<close>

theorem memory_limit_negative:
  assumes "2 ^ 63 \<le> uint (r_MemBytes r)"
  shows "\<exists>re v. buildResources r = Some re \<and> re_Memory re = Some v \<and> v < 0"
proof -
  have "uint (r_MemBytes r) < 2 ^ 64" using unsigned_less [of "r_MemBytes r", where ?'a = int] by simp
  moreover have "r_MemBytes r \<noteq> 0" using assms by auto
  ultimately show ?thesis using assms by (auto simp: buildResources_def sint_64 word_gt_0)
qed

theorem memory_limit_negative_witness:
  "\<exists>re v. buildResources \<lparr>r_CPUShares = 0, r_MemBytes = 9223372036854775808, r_PidsMax = 0\<rparr> = Some re \<and>
     re_Memory re = Some v \<and> v < 0"
  by (rule memory_limit_negative) simp

subsection \<open>Namespaces and mounts\<close>

text \<open>
  Without the debug override a container joins the pod's network: it gets pid, ipc, uts and mount
  namespaces of its own and a network namespace exactly when its \<open>Net\<close> is \<open>none\<close>; with the
  override it gets what the override lists, whatever its \<open>Net\<close> says.
\<close>

theorem namespacesFor_correct:
  "run_state (namespacesFor K c) tr =
     (case env_of (k_environ K) tr bundleNamespacesEnv of
        None \<Rightarrow> map ns_of (''pid'' # (if c_Net c = ''none'' then [''network''] else []) @
                  [''ipc'', ''uts'', ''mount''])
      | Some raw \<Rightarrow>
          (if raw = [] \<or> raw = ''none'' then []
           else map ns_of (filter (\<lambda>t. t \<noteq> []) (map trim_space (split_on (CHR '','') raw)))), tr)"
  by (simp add: namespacesFor_def namespacesFromEnv_def lookup_env_def namespaces_of_def ns_of_def
      split: option.split)

lemma buildSpec_run:
  obtains m ns where
    "run_state (resolvConfMount K c) tr = (m, snd (run_state (buildSpec K podID c rootfs) tr))"
    "m = (if c_Net c = ''none'' \<or> k_stat K tr resolvConfPath \<noteq> None then None else Some resolv_mount)"
    "ns = fst (run_state (namespacesFor K c) (snd (run_state (buildSpec K podID c rootfs) tr)))"
    "fst (run_state (buildSpec K podID c rootfs) tr) =
       \<lparr>os_Version = ociVersion,
        os_Process = Some \<lparr>pr_Terminal = False,
          pr_User = \<lparr>u_UID = fst (parseUser (c_User c)), u_GID = snd (parseUser (c_User c))\<rparr>,
          pr_Args = c_Command c @ c_Args c, pr_Env = mergeEnv defaultEnv (c_Env c),
          pr_Cwd = (if c_Workdir c = [] then ''/'' else c_Workdir c),
          pr_Capabilities = Some \<lparr>cs_Bounding = defaultCaps (c_Privileged c),
            cs_Permitted = defaultCaps (c_Privileged c), cs_Effective = defaultCaps (c_Privileged c),
            cs_Inheritable = [], cs_Ambient = []\<rparr>,
          pr_Rlimits = defaultRlimits, pr_NoNewPrivileges = (\<not> c_Privileged c)\<rparr>,
        os_Root = \<lparr>ro_Path = rootfs, ro_Readonly = False\<rparr>, os_Hostname = podID,
        os_Mounts = defaultMounts @ (case m of Some x \<Rightarrow> [x] | None \<Rightarrow> []) @ map to_oci_mount (c_Mounts c),
        os_Linux = Some \<lparr>li_Namespaces = ns, li_Resources = buildResources (c_Resources c),
          li_MaskedPaths = defaultMaskedPaths, li_ReadonlyPaths = defaultReadonlyPaths\<rparr>\<rparr>"
proof -
  obtain m t where m: "run_state (resolvConfMount K c) tr = (m, t)" by fastforce
  obtain ns where ns: "run_state (namespacesFor K c) t = (ns, t)"
    by (simp add: namespacesFor_def namespacesFromEnv_def lookup_env_def)
  obtain u g where ug: "parseUser (c_User c) = (u, g)" by fastforce
  from m have "m = (if c_Net c = ''none'' \<or> k_stat K tr resolvConfPath \<noteq> None then None
      else Some resolv_mount)"
    by (auto simp: resolvConfMount_def os_stat_def split: if_splits)
  with m ns ug that show thesis by (simp add: buildSpec_def Let_def)
qed

text \<open>
  C36. The capabilities and privileges of the generated process: the three effective sets are the same
  list, it holds the default capabilities in every case, the administrative ones and the right to gain
  privileges exactly when the container is privileged, and never CAP_SYS_MODULE.
\<close>

theorem buildSpec_privileges:
  "\<exists>p caps. os_Process (fst (run_state (buildSpec K podID c rootfs) tr)) = Some p \<and>
     pr_Capabilities p = Some \<lparr>cs_Bounding = caps, cs_Permitted = caps, cs_Effective = caps,
       cs_Inheritable = [], cs_Ambient = []\<rparr> \<and>
     set baseCaps \<subseteq> set caps \<and> ''CAP_SYS_MODULE'' \<notin> set caps \<and> distinct caps \<and>
     (c_Privileged c \<longleftrightarrow> ''CAP_SYS_ADMIN'' \<in> set caps) \<and>
     (c_Privileged c \<longleftrightarrow> ''CAP_NET_ADMIN'' \<in> set caps) \<and>
     (c_Privileged c \<longleftrightarrow> ''CAP_SYS_PTRACE'' \<in> set caps) \<and>
     (pr_NoNewPrivileges p \<longleftrightarrow> \<not> c_Privileged c)"
proof -
  have caps: "set baseCaps \<subseteq> set (defaultCaps b) \<and> ''CAP_SYS_MODULE'' \<notin> set (defaultCaps b) \<and>
      distinct (defaultCaps b) \<and> (b \<longleftrightarrow> ''CAP_SYS_ADMIN'' \<in> set (defaultCaps b)) \<and>
      (b \<longleftrightarrow> ''CAP_NET_ADMIN'' \<in> set (defaultCaps b)) \<and>
      (b \<longleftrightarrow> ''CAP_SYS_PTRACE'' \<in> set (defaultCaps b))" for b
    by (cases b) (simp_all add: defaultCaps_def baseCaps_def)
  show ?thesis
    by (rule buildSpec_run [of K c tr podID rootfs]) (use caps [of "c_Privileged c"] in simp)
qed

text \<open>
  The mounts of the generated spec: the default mounts, then the pod's resolver when the container
  is on the network and the init has one, bound read-only, then the container's own mounts unchanged and
  in order.
\<close>

theorem buildSpec_mounts:
  "os_Mounts (fst (run_state (buildSpec K podID c rootfs) tr)) =
     defaultMounts @
     (if c_Net c \<noteq> ''none'' \<and> k_stat K tr resolvConfPath = None then [resolv_mount] else []) @
     map (\<lambda>m. oci_mnt (m_Destination m) (m_Type m) (m_Source m) (m_Options m)) (c_Mounts c) \<and>
   ''ro'' \<in> set (om_Options resolv_mount)"
  by (rule buildSpec_run [of K c tr podID rootfs])
    (auto simp: to_oci_mount_def oci_mnt_def resolv_mount_def)

subsection \<open>Bundle directories\<close>

lemma BundlesRoot_join:
  "BundlesRoot = CHR ''/'' # join_with ''/'' [''run'', ''weft'', ''bundles'']"
  by (simp add: BundlesRoot_def)

lemma bundle_dir_simple:
  assumes "simple_name i"
  shows "path_join [BundlesRoot, i] = BundlesRoot @ ''/'' @ i"
  using path_join_simple [of "[''run'', ''weft'', ''bundles'']" i] assms
  unfolding BundlesRoot_join by (simp add: simple_name_def)

fun written :: "event \<Rightarrow> bool" where
  "written (EWrite _ _ _ r) = (r = None)"
| "written _ = False"

lemma buildSpec_appends: "appends (\<lambda>e. \<not> written e) (buildSpec K podID c rootfs)"
  unfolding buildSpec_def resolvConfMount_def namespacesFor_def namespacesFromEnv_def lookup_env_def
    os_stat_def Let_def
  by (intro appends_intros) auto

text \<open>
  \<open>Build\<close> and the file it leaves: when it returns a directory, that is the container's, it was
  made, and the last thing written is config.json in it, the encoding of a spec whose process runs the
  container's non-empty command line on the given rootfs; when it returns an error, no file was written.
\<close>

theorem Build_correct:
  assumes "run_state (Build K marshal podID c rootfs) tr = (r, tr')"
  shows "case r of
      Inr d \<Rightarrow> d = path_join [BundlesRoot, c_ID c] \<and>
        (\<exists>t spec p b. tr' = tr @ EMkdir d None # t @ [EWrite (path_join [d, ''config.json'']) b 420 None] \<and>
           marshal spec = Inr b \<and> os_Root spec = \<lparr>ro_Path = rootfs, ro_Readonly = False\<rparr> \<and>
           os_Process spec = Some p \<and> pr_Args p = c_Command c @ c_Args c \<and> c_Command c \<noteq> [] \<and>
           rootfs \<noteq> [] \<and> list_all (\<lambda>e. \<not> written e) t)
    | Inl e \<Rightarrow> (\<exists>t. tr' = tr @ t \<and> list_all (\<lambda>e. \<not> written e) t)"
proof -
  let ?d = "path_join [BundlesRoot, c_ID c]"
  let ?tr1 = "tr @ [EMkdir ?d (k_mkdir K tr ?d)]"
  obtain t where t: "snd (run_state (buildSpec K podID c rootfs) ?tr1) = ?tr1 @ t"
    "list_all (\<lambda>e. \<not> written e) t"
    using buildSpec_appends [of K podID c rootfs] unfolding appends_def by blast
  obtain m ns where spec: "os_Root (fst (run_state (buildSpec K podID c rootfs) ?tr1)) =
      \<lparr>ro_Path = rootfs, ro_Readonly = False\<rparr>"
    "\<exists>p. os_Process (fst (run_state (buildSpec K podID c rootfs) ?tr1)) = Some p \<and>
       pr_Args p = c_Command c @ c_Args c"
    by (rule buildSpec_run [of K c ?tr1 podID rootfs]) auto
  show ?thesis
  proof (cases "run_state (buildSpec K podID c rootfs) ?tr1")
    case (Pair s t')
    with assms t spec show ?thesis
      by (auto simp: Build_def os_mkdir_all_def os_write_file_def Let_def
          split: option.splits sum.splits if_splits)
  qed
qed

theorem Build_correct_witness:
  "\<exists>r. fst (run_state (Build (kernel_with (\<lambda>_. None)) (\<lambda>_. Inr ''{}'') ''pod''
      ((new_container ''web'' ''r'')\<lparr>c_Command := [''/bin/true'']\<rparr>) ''/rootfs'') []) = Inr r \<and>
    r = path_join [BundlesRoot, ''web'']"
proof -
  let ?c = "(new_container ''web'' ''r'')\<lparr>c_Command := [''/bin/true'']\<rparr>"
  obtain r tr' where run: "run_state (Build (kernel_with (\<lambda>_. None)) (\<lambda>_. Inr ''{}'') ''pod'' ?c ''/rootfs'') []
      = (r, tr')" by fastforce
  then obtain d where "r = Inr d"
    by (auto simp: Build_def os_mkdir_all_def os_write_file_def Let_def kernel_with_def
        split: prod.splits)
  with Build_correct [OF run] run show ?thesis by (simp add: new_container_def)
qed

text \<open>
  Containers with plain names get bundle directories of their own, below the bundles root.
\<close>

theorem bundle_dirs_distinct:
  assumes "simple_name i" "simple_name j"
  shows "path_join [BundlesRoot, i] = BundlesRoot @ ''/'' @ i \<and>
    (path_join [BundlesRoot, i] = path_join [BundlesRoot, j] \<longleftrightarrow> i = j)"
  using assms by (simp add: bundle_dir_simple)

theorem bundle_dirs_distinct_witness:
  "path_join [BundlesRoot, ''web''] = BundlesRoot @ ''/'' @ ''web'' \<and>
   path_join [BundlesRoot, ''web''] \<noteq> path_join [BundlesRoot, ''db'']"
proof -
  have "simple_name ''web''" "simple_name ''db''" by (simp_all add: simple_name_def)
  note h = bundle_dirs_distinct [OF this]
  have "''web'' \<noteq> ''db''" by simp
  with h have "path_join [BundlesRoot, ''web''] \<noteq> path_join [BundlesRoot, ''db'']" by blast
  with h show ?thesis by (intro conjI) blast+
qed

text \<open>
  \<open>Spec.Validate\<close> does not ask for plain names: a pod that passes it can have two containers
  that share one bundle directory, and one whose bundle lies outside the bundles root.
\<close>

theorem bundle_dirs_collide:
  "\<exists>s a b d. Spec_Validate s = None \<and> map c_ID (sp_Containers s) = [a, b, d] \<and> a \<noteq> b \<and>
     path_join [BundlesRoot, a] = path_join [BundlesRoot, b] \<and>
     path_join [BundlesRoot, d] = ''/etc''"
proof -
  let ?s = "\<lparr>sp_PodID = ''p'',
    sp_Containers = [new_container ''a'' ''t'', new_container ''b/../a'' ''t'',
      new_container ''../../../etc'' ''t''],
    sp_Shares = [], sp_Network = None, sp_WireGuard = None, sp_ShareMounts = [], sp_Labels = []\<rparr>"
  have "Spec_Validate ?s = None"
    by (simp add: Spec_Validate_None_iff spec_ok_def)
  moreover have "path_join [BundlesRoot, ''a''] = path_join [BundlesRoot, ''b/../a'']"
    by (simp add: path_join_def path_clean_def BundlesRoot_def)
  moreover have "path_join [BundlesRoot, ''../../../etc''] = ''/etc''"
    by (simp add: path_join_def path_clean_def BundlesRoot_def)
  ultimately show ?thesis
    by (intro exI [of _ ?s] exI [of _ "''a''"] exI [of _ "''b/../a''"] exI [of _ "''../../../etc''"])
      (simp add: Spec_Validate_None_iff spec_ok_def)
qed

end
