(* ===== verification/Net_Addr.thy ===== *)
theory Net_Addr
  imports Go_Os
begin

unbundle bit_operations_syntax

text \<open>
  The parts of Go's packages net and net/netip that the network code relies on: parsing an IP address
  and a CIDR prefix from text, the mask of a prefix, and masking.  An address is its bytes, 4 or 16 of
  them; the two prefix parsers differ, and the program uses one to validate and the other to act.
\<close>

subsection \<open>IPv4\<close>

text \<open>
  \<open>parseIPv4Fields\<close>: the loop over the text with the current value, the number of digits of the
  current field, the fields so far, and whether the previous byte was a dot or there was none.
\<close>

fun v4_loop :: "nat \<Rightarrow> nat \<Rightarrow> bytes \<Rightarrow> string \<Rightarrow> bytes option" where
  "v4_loop val dig fs [] = (if length fs < 3 \<or> dig = 0 then None else Some (fs @ [of_nat val]))"
| "v4_loop val dig fs (c # s) =
     (if is_digit c then
        if dig = 1 \<and> val = 0 then None
        else if 255 < val * 10 + digit_val c then None
        else v4_loop (val * 10 + digit_val c) (Suc dig) fs s
      else if c = CHR ''.'' then
        if dig = 0 \<or> s = [] then None
        else if length fs = 3 then None
        else v4_loop 0 0 (fs @ [of_nat val]) s
      else None)"

definition parse_v4 :: "string \<Rightarrow> bytes option" where
  "parse_v4 s = v4_loop 0 0 [] s"

subsection \<open>IPv6\<close>

definition is_hex :: "char \<Rightarrow> bool" where
  "is_hex c \<longleftrightarrow> is_digit c \<or> 97 \<le> (of_char c :: nat) \<and> (of_char c :: nat) \<le> 102 \<or>
     65 \<le> (of_char c :: nat) \<and> (of_char c :: nat) \<le> 70"

definition hex_val :: "char \<Rightarrow> nat" where
  "hex_val c = (if is_digit c then of_char c - 48 else if 97 \<le> (of_char c :: nat) then of_char c - 87
     else of_char c - 55)"

definition hex_num :: "string \<Rightarrow> nat" where
  "hex_num h = foldl (\<lambda>acc c. 16 * acc + hex_val c) 0 h"

text \<open>
  The loop of \<open>parseIPv6\<close> over the groups: the bytes so far, the position of the \<open>::\<close> among them,
  the rest of the text.  It ends with the address full or the text used up; \<^const>\<open>None\<close> is an error.
\<close>

function v6_loop :: "bytes \<Rightarrow> nat option \<Rightarrow> string \<Rightarrow> (bytes \<times> nat option \<times> string) option" where
  "v6_loop ip el s =
     (if 16 \<le> length ip then Some (ip, el, s)
      else
        let h = takeWhile is_hex s; rest = drop (length h) s;
            ip' = ip @ [of_nat (hex_num h div 256), of_nat (hex_num h)]
        in if h = [] \<or> 4 < length h then None
           else (case rest of
             [] \<Rightarrow> Some (ip', el, [])
           | c # t \<Rightarrow>
               if c = CHR ''.'' then
                 if el = None \<and> length ip \<noteq> 12 then None
                 else if 16 < length ip + 4 then None
                 else (case parse_v4 s of None \<Rightarrow> None | Some b \<Rightarrow> Some (ip @ b, el, []))
               else if c \<noteq> CHR '':'' then None
               else (case t of
                   [] \<Rightarrow> None
                 | d # u \<Rightarrow>
                     if d = CHR '':'' then
                       if el \<noteq> None then None
                       else if u = [] then Some (ip', Some (length ip'), [])
                       else v6_loop ip' (Some (length ip')) u
                     else v6_loop ip' el t)))"
  by pat_completeness auto
termination by (relation "measure (\<lambda>(ip, el, s). 16 - length ip)") auto

declare v6_loop.simps [simp del]

text \<open>Expanding the \<open>::\<close>, which must stand for at least one group.\<close>

definition v6_expand :: "bytes \<times> nat option \<times> string \<Rightarrow> bytes option" where
  "v6_expand r = (case r of (ip, el, s) \<Rightarrow>
     if s \<noteq> [] then None
     else if length ip < 16 then
       (case el of None \<Rightarrow> None
        | Some k \<Rightarrow> Some (take k ip @ replicate (16 - length ip) 0 @ drop k ip))
     else if el \<noteq> None then None else Some ip)"

definition parse_v6 :: "string \<Rightarrow> bytes option" where
  "parse_v6 s =
     (case cut_prefix ''::'' s of
        Some t \<Rightarrow> if t = [] then Some (replicate 16 0) else Option.bind (v6_loop [] (Some 0) t) v6_expand
      | None \<Rightarrow> Option.bind (v6_loop [] None s) v6_expand)"

text \<open>\<open>netip.ParseAddr\<close>: the family is that of the first dot or colon; an IPv6 address may have a zone.\<close>

datatype addr = V4 bytes | V6 bytes string

definition ParseAddr :: "string \<Rightarrow> addr option" where
  "ParseAddr s =
     (case filter (\<lambda>c. c \<in> {CHR ''.'', CHR '':'', CHR ''%''}) s of
        [] \<Rightarrow> None
      | c # _ \<Rightarrow>
          if c = CHR ''.'' then map_option V4 (parse_v4 s)
          else if c = CHR '':'' then
            (case cut (CHR ''%'') s of
               None \<Rightarrow> map_option (\<lambda>b. V6 b []) (parse_v6 s)
             | Some (a, zone) \<Rightarrow> if zone = [] then None else map_option (\<lambda>b. V6 b zone) (parse_v6 a))
          else None)"

fun addr_bits :: "addr \<Rightarrow> nat" where
  "addr_bits (V4 _) = 32"
| "addr_bits (V6 _ _) = 128"

fun addr_bytes :: "addr \<Rightarrow> bytes" where
  "addr_bytes (V4 b) = b"
| "addr_bytes (V6 b _) = b"

fun addr_zone :: "addr \<Rightarrow> string" where
  "addr_zone (V4 _) = []"
| "addr_zone (V6 _ z) = z"

subsection \<open>Prefixes\<close>

text \<open>\<open>netip.ParsePrefix\<close>: cut at the last slash, no zone, a length without sign or leading zero.\<close>

definition cut_last :: "char \<Rightarrow> string \<Rightarrow> (string \<times> string) option" where
  "cut_last c s = map_option (\<lambda>(a, b). (rev b, rev a)) (cut c (rev s))"

definition prefix_len :: "nat \<Rightarrow> string \<Rightarrow> nat option" where
  "prefix_len mx s =
     (if s = [] \<or> \<not> list_all is_digit s \<or> 1 < length s \<and> hd s = CHR ''0'' then None
      else if mx < fst (parse_uint 64 s) then None else Some (fst (parse_uint 64 s)))"

definition ParsePrefix :: "string \<Rightarrow> (addr \<times> nat) option" where
  "ParsePrefix s =
     (case cut_last (CHR ''/'') s of
        None \<Rightarrow> None
      | Some (a, bits) \<Rightarrow>
          (case ParseAddr a of
             None \<Rightarrow> None
           | Some ip \<Rightarrow> if addr_zone ip \<noteq> [] then None
                        else map_option (Pair ip) (prefix_len (addr_bits ip) bits)))"

text \<open>\<open>net.ParseCIDR\<close>: cut at the first slash, no zone, a length of digits; the mask and the masked address.\<close>

fun dtoi_loop :: "nat \<Rightarrow> string \<Rightarrow> nat option" where
  "dtoi_loop n [] = Some n"
| "dtoi_loop n (c # s) =
     (if \<not> is_digit c then None
      else if 16777215 \<le> n * 10 + digit_val c then None
      else dtoi_loop (n * 10 + digit_val c) s)"

definition dtoi :: "string \<Rightarrow> nat option" where
  "dtoi s = (if s = [] then None else dtoi_loop 0 s)"

fun CIDRMask :: "nat \<Rightarrow> nat \<Rightarrow> bytes" where
  "CIDRMask n 0 = []"
| "CIDRMask n (Suc l) =
     (if 8 \<le> n then 255 # CIDRMask (n - 8) l else NOT (drop_bit n 255) # CIDRMask 0 l)"

definition mask_bytes :: "bytes \<Rightarrow> bytes \<Rightarrow> bytes" where
  "mask_bytes a m = map2 (AND) a m"

text \<open>
  The address and the prefix length; \<open>ParseCIDR\<close> returns the address in 16 bytes, and beside it the
  network address and the mask, which have the length of the address as written.
\<close>

definition cidr_parts :: "string \<Rightarrow> (addr \<times> nat) option" where
  "cidr_parts s =
     (case cut (CHR ''/'') s of
        None \<Rightarrow> None
      | Some (a, bits) \<Rightarrow>
          (case ParseAddr a of
             None \<Rightarrow> None
           | Some ip \<Rightarrow>
               if addr_zone ip \<noteq> [] then None
               else (case dtoi bits of
                   None \<Rightarrow> None
                 | Some n \<Rightarrow> if addr_bits ip < n then None else Some (ip, n))))"

fun As16 :: "addr \<Rightarrow> bytes" where
  "As16 (V4 b) = replicate 10 0 @ [255, 255] @ b"
| "As16 (V6 b _) = b"

definition ParseCIDR :: "string \<Rightarrow> (bytes \<times> bytes) option" where
  "ParseCIDR s = map_option (\<lambda>(ip, n).
     let m = CIDRMask n (addr_bits ip div 8) in (mask_bytes (addr_bytes ip) m, m)) (cidr_parts s)"

definition ParseCIDR_ip :: "string \<Rightarrow> bytes option" where
  "ParseCIDR_ip s = map_option (\<lambda>(ip, n). As16 ip) (cidr_parts s)"

text \<open>\<open>net.ParseIP\<close>: an address without a zone, in 16 bytes.\<close>

definition ParseIP :: "string \<Rightarrow> bytes option" where
  "ParseIP s = (case ParseAddr s of None \<Rightarrow> None
     | Some ip \<Rightarrow> if addr_zone ip \<noteq> [] then None else Some (As16 ip))"

text \<open>\<open>IPMask.Size\<close>, the number of leading ones; -1, of a mask with a one after a zero, is \<^const>\<open>None\<close>.\<close>

definition byte_ones :: "8 word \<Rightarrow> nat option" where
  "byte_ones b = map_option fst (List.find (\<lambda>(k, m). b = m)
     [(0, 0), (1, 128), (2, 192), (3, 224), (4, 240), (5, 248), (6, 252), (7, 254)])"

fun simpleMaskLength :: "bytes \<Rightarrow> nat option" where
  "simpleMaskLength [] = Some 0"
| "simpleMaskLength (b # m) =
     (if b = 255 then map_option ((+) 8) (simpleMaskLength m)
      else if list_all (\<lambda>x. x = 0) m then byte_ones b else None)"

text \<open>\<open>IP.To4\<close>: also an IPv4 address mapped into IPv6 counts.\<close>

definition To4 :: "bytes \<Rightarrow> bytes option" where
  "To4 ip =
     (if length ip = 4 then Some ip
      else if length ip = 16 \<and> take 12 ip = replicate 10 0 @ [255, 255] then Some (drop 12 ip)
      else None)"

subsection \<open>Facts about the parsers\<close>

lemma v4_loop_Some:
  "v4_loop val dig fs s = Some b \<Longrightarrow> length fs \<le> 3 \<Longrightarrow> CHR ''/'' \<notin> set s \<and> length b = 4"
  by (induction val dig fs s rule: v4_loop.induct) (auto simp: is_digit_def split: if_splits)

lemma parse_v4_Some: "parse_v4 s = Some b \<Longrightarrow> CHR ''/'' \<notin> set s \<and> length b = 4"
  using v4_loop_Some [of 0 0 "[]" s b] by (simp add: parse_v4_def)

lemma is_hex_slash: "\<not> is_hex (CHR ''/'')"
  by (simp add: is_hex_def is_digit_def)

text \<open>One round of the IPv6 loop: the hexadecimal digits \<open>h\<close> at the front, and the rest.\<close>

definition v6_round :: "8 word list \<Rightarrow> nat option \<Rightarrow> string \<Rightarrow> string \<Rightarrow> string \<Rightarrow> (8 word list \<times> nat option \<times> string) option" where
  "v6_round ip el s h rest =
    (let ip' = ip @ [of_nat (hex_num h div 256), of_nat (hex_num h)] in
     if h = [] \<or> 4 < length h then None
     else (case rest of [] \<Rightarrow> Some (ip', el, [])
       | c # t \<Rightarrow>
         if c = CHR ''.'' then
           if el = None \<and> length ip \<noteq> 12 then None
           else if 16 < length ip + 4 then None
           else (case parse_v4 s of None \<Rightarrow> None | Some b \<Rightarrow> Some (ip @ b, el, []))
         else if c \<noteq> CHR '':'' then None
         else (case t of [] \<Rightarrow> None
           | d # u \<Rightarrow>
               if d = CHR '':'' then
                 if el \<noteq> None then None
                 else if u = [] then Some (ip', Some (length ip'), [])
                 else v6_loop ip' (Some (length ip')) u
               else v6_loop ip' el t)))"

lemma v6_loop_round:
  assumes "v6_loop ip el s = Some r" "length ip < 16"
  shows "\<exists>h rest. s = h @ rest \<and> list_all is_hex h \<and> v6_round ip el s h rest = Some r"
proof -
  let ?h = "takeWhile is_hex s"
  have "s = ?h @ drop (length ?h) s" by (metis append_eq_conv_conj takeWhile_eq_take)
  moreover have "list_all is_hex ?h" by (auto simp: list_all_iff dest: set_takeWhileD)
  moreover have "v6_round ip el s ?h (drop (length ?h) s) = Some r"
    using assms by (subst (asm) v6_loop.simps) (simp add: v6_round_def Let_def)
  ultimately show ?thesis by blast
qed

lemma v6_loop_cases:
  assumes "v6_loop ip el s = Some r"
  obtains (full) "16 \<le> length ip" "r = (ip, el, s)"
  | (last) h where "length ip < 16" "s = h" "list_all is_hex h" "r = (ip @ [of_nat (hex_num h div 256), of_nat (hex_num h)], el, [])"
  | (v4) b where "length ip < 16" "length ip + 4 \<le> 16" "parse_v4 s = Some b" "r = (ip @ b, el, [])"
  | (ellipsis_end) h where "length ip < 16" "list_all is_hex h" "s = h @ ''::''" "el = None"
      "r = (ip @ [of_nat (hex_num h div 256), of_nat (hex_num h)], Some (length ip + 2), [])"
  | (ellipsis) h u where "length ip < 16" "list_all is_hex h" "s = h @ ''::'' @ u" "el = None"
      "v6_loop (ip @ [of_nat (hex_num h div 256), of_nat (hex_num h)]) (Some (length ip + 2)) u = Some r"
  | (group) h t where "length ip < 16" "list_all is_hex h" "s = h @ '':'' @ t"
      "v6_loop (ip @ [of_nat (hex_num h div 256), of_nat (hex_num h)]) el t = Some r"
proof (cases "16 \<le> length ip")
  case True
  with assms full show thesis by (subst (asm) v6_loop.simps) simp
next
  case False
  then obtain h rest where s: "s = h @ rest" and hex: "list_all is_hex h" and run: "v6_round ip el s h rest = Some r"
    using v6_loop_round [OF assms] by auto
  note run = run [unfolded v6_round_def Let_def]
  show thesis
  proof (cases rest)
    case Nil
    with run s hex False last [of h] show thesis by (simp split: if_splits)
  next
    case (Cons c t)
    show thesis
    proof (cases "c = CHR ''.''")
      case True
      with run Cons False v4 show thesis by (auto split: if_splits option.splits)
    next
      case nd: False
      with run Cons have c: "c = CHR '':''" "t \<noteq> []" by (auto split: if_splits list.splits)
      then obtain d u where t: "t = d # u" by (cases t) auto
      show thesis
      proof (cases "d = CHR '':''")
        case True
        with run Cons c t False s hex ellipsis_end [of h] ellipsis [of h u] show thesis
          by (auto split: if_splits)
      next
        case False
        with run Cons c t \<open>\<not> 16 \<le> length ip\<close> s hex group [of h t] show thesis
          by (auto split: if_splits)
      qed
    qed
  qed
qed

lemma hex_no_slash: "list_all is_hex h \<Longrightarrow> CHR ''/'' \<notin> set h"
  using is_hex_slash by (auto simp: list_all_iff)

lemma v6_loop_Some:
  "v6_loop ip el s = Some (ip', el', s') \<Longrightarrow> even (length ip) \<Longrightarrow> length ip \<le> 16 \<Longrightarrow>
   length ip' \<le> 16 \<and> (s' = [] \<longrightarrow> CHR ''/'' \<notin> set s)"
proof (induction "16 - length ip" arbitrary: ip el s rule: less_induct)
  case less
  have len: "length ip + 2 \<le> 16" if "length ip < 16"
    using that less.prems(2) by (elim evenE) simp
  from less.prems(1) show ?case
  proof (cases rule: v6_loop_cases)
    case (v4 b)
    then show ?thesis using parse_v4_Some by auto
  next
    case (ellipsis h u)
    with less.hyps [OF _ ellipsis(5)] less.prems len hex_no_slash show ?thesis by auto
  next
    case (group h t)
    with less.hyps [OF _ group(4)] less.prems len hex_no_slash show ?thesis by auto
  qed (use less.prems len hex_no_slash in auto)
qed

lemma v6_expand_Some: "v6_expand (ip, el, s) = Some b \<Longrightarrow> length ip \<le> 16 \<Longrightarrow> s = [] \<and> length b = 16"
  by (auto simp: v6_expand_def split: if_splits option.splits)

lemma parse_v6_Some:
  assumes "parse_v6 s = Some b"
  shows "CHR ''/'' \<notin> set s \<and> length b = 16"
proof (cases "cut_prefix ''::'' s")
  case None
  with assms obtain r where r: "v6_loop [] None s = Some r" "v6_expand r = Some b"
    by (auto simp: parse_v6_def Option.bind_eq_Some_conv)
  obtain ip el s' where "r = (ip, el, s')" by (cases r)
  with r v6_loop_Some [of "[]" None s ip el s'] v6_expand_Some [of ip el s' b] show ?thesis by auto
next
  case (Some t)
  then have s: "s = ''::'' @ t" by (simp add: cut_prefix_Some_iff)
  show ?thesis
  proof (cases "t = []")
    case True
    with Some s assms show ?thesis by (auto simp: parse_v6_def)
  next
    case False
    with Some assms obtain r where r: "v6_loop [] (Some 0) t = Some r" "v6_expand r = Some b"
      by (auto simp: parse_v6_def Option.bind_eq_Some_conv)
    obtain ip el s' where "r = (ip, el, s')" by (cases r)
    with r s v6_loop_Some [of "[]" "Some 0" t ip el s'] v6_expand_Some [of ip el s' b] show ?thesis by auto
  qed
qed

lemma ParseAddr_Some:
  assumes "ParseAddr s = Some ip" "addr_zone ip = []"
  shows "CHR ''/'' \<notin> set s" "length (addr_bytes ip) = addr_bits ip div 8"
  using assms parse_v4_Some parse_v6_Some
  by (auto simp: ParseAddr_def split: list.splits if_splits option.splits)

lemma parse_uint_loop_ge:
  "list_all is_digit s \<Longrightarrow> m \<le> mx \<Longrightarrow> m \<le> fst (parse_uint_loop mx m s)"
proof (induction s arbitrary: m)
  case (Cons c s)
  show ?case
  proof (cases "mx < m * 10 + digit_val c")
    case True
    with Cons.prems show ?thesis by simp
  next
    case False
    with Cons.IH [of "m * 10 + digit_val c"] Cons.prems show ?thesis by simp
  qed
qed simp

lemma dtoi_parse_uint:
  "list_all is_digit s \<Longrightarrow> parse_uint_loop mx m s = (v, e) \<Longrightarrow> v \<le> 128 \<Longrightarrow> 128 < mx \<Longrightarrow> m \<le> 128 \<Longrightarrow>
   dtoi_loop m s = Some v"
proof (induction s arbitrary: m)
  case (Cons c s)
  have d: "is_digit c" "list_all is_digit s" using Cons.prems(1) by auto
  show ?case
  proof (cases "mx < m * 10 + digit_val c")
    case True
    with Cons.prems d show ?thesis by auto
  next
    case False
    then have r: "parse_uint_loop mx (m * 10 + digit_val c) s = (v, e)" using Cons.prems d by simp
    with parse_uint_loop_ge [OF d(2), of "m * 10 + digit_val c" mx] False Cons.prems(3)
    have "m * 10 + digit_val c \<le> 128" by simp
    with Cons.IH [OF d(2) r] Cons.prems d show ?thesis by simp
  qed
qed auto

lemma prefix_len_dtoi:
  assumes "prefix_len mx s = Some n" "mx \<le> 128"
  shows "dtoi s = Some n" "n \<le> mx" "CHR ''/'' \<notin> set s"
proof -
  from assms have s: "s \<noteq> []" "list_all is_digit s" "n = fst (parse_uint 64 s)" "n \<le> mx"
    by (auto simp: prefix_len_def split: if_splits)
  obtain v e where "parse_uint_loop (2 ^ 64 - 1) 0 s = (v, e)" by fastforce
  with dtoi_parse_uint [OF s(2) this] s assms(2) show "dtoi s = Some n"
    by (simp add: dtoi_def parse_uint_def)
  show "n \<le> mx" by (rule s(4))
  have "\<not> is_digit (CHR ''/'')" by (simp add: is_digit_def)
  with s(2) show "CHR ''/'' \<notin> set s" by (auto simp: list_all_iff)
qed

text \<open>What the validating parser accepts, the acting one reads as the same prefix.\<close>

lemma ParsePrefix_ParseCIDR:
  assumes "ParsePrefix s = Some (ip, n)"
  shows "ParseCIDR s = Some (mask_bytes (addr_bytes ip) (CIDRMask n (addr_bits ip div 8)),
      CIDRMask n (addr_bits ip div 8))"
    "n \<le> addr_bits ip" "length (addr_bytes ip) = addr_bits ip div 8"
proof -
  from assms obtain a b where ab: "cut_last (CHR ''/'') s = Some (a, b)" "ParseAddr a = Some ip"
    "addr_zone ip = []" "prefix_len (addr_bits ip) b = Some n"
    by (auto simp: ParsePrefix_def split: option.splits if_splits)
  have "addr_bits ip \<le> 128" by (cases ip) auto
  note p = prefix_len_dtoi [OF ab(4) this]
  note q = ParseAddr_Some [OF ab(2,3)]
  from ab(1) obtain x y where "cut (CHR ''/'') (rev s) = Some (x, y)" "a = rev y" "b = rev x"
    by (auto simp: cut_last_def)
  then have "rev s = x @ CHR ''/'' # y" by (simp add: cut_Some_iff)
  then have "s = rev (x @ CHR ''/'' # y)" by (metis rev_rev_ident)
  with \<open>a = rev y\<close> \<open>b = rev x\<close> have "s = a @ CHR ''/'' # b" by simp
  with q(1) have "cut (CHR ''/'') s = Some (a, b)" by simp
  with ab p show "ParseCIDR s = Some (mask_bytes (addr_bytes ip) (CIDRMask n (addr_bits ip div 8)),
      CIDRMask n (addr_bits ip div 8))"
    by (simp add: ParseCIDR_def cidr_parts_def Let_def)
  show "n \<le> addr_bits ip" by (rule p(2))
  show "length (addr_bytes ip) = addr_bits ip div 8" by (rule q(2))
qed

subsection \<open>What masking compares\<close>

definition byte_bits :: "8 word \<Rightarrow> bool list" where
  "byte_bits b = map (bit b) [7, 6, 5, 4, 3, 2, 1, 0]"

definition address_bits :: "bytes \<Rightarrow> bool list" where
  "address_bits a = concat (map byte_bits a)"

text \<open>Two addresses agree on their first \<open>n\<close> bits.\<close>

definition same_prefix :: "nat \<Rightarrow> bytes \<Rightarrow> bytes \<Rightarrow> bool" where
  "same_prefix n a b \<longleftrightarrow> take n (address_bits a) = take n (address_bits b)"

lemma nat_less_8: "n < 8 \<Longrightarrow> n = 0 \<or> n = 1 \<or> n = 2 \<or> n = 3 \<or> n = 4 \<or> n = 5 \<or> n = 6 \<or> n = (7 :: nat)"
  by presburger

lemma byte_eq_iff: "a = b \<longleftrightarrow> (bit a 0 \<longleftrightarrow> bit b 0) \<and> (bit a 1 \<longleftrightarrow> bit b 1) \<and> (bit a 2 \<longleftrightarrow> bit b 2) \<and>
    (bit a 3 \<longleftrightarrow> bit b 3) \<and> (bit a 4 \<longleftrightarrow> bit b 4) \<and> (bit a 5 \<longleftrightarrow> bit b 5) \<and> (bit a 6 \<longleftrightarrow> bit b 6) \<and>
    (bit a 7 \<longleftrightarrow> bit b 7)" for a b :: "8 word"
proof
  assume r: "(bit a 0 \<longleftrightarrow> bit b 0) \<and> (bit a 1 \<longleftrightarrow> bit b 1) \<and> (bit a 2 \<longleftrightarrow> bit b 2) \<and>
    (bit a 3 \<longleftrightarrow> bit b 3) \<and> (bit a 4 \<longleftrightarrow> bit b 4) \<and> (bit a 5 \<longleftrightarrow> bit b 5) \<and> (bit a 6 \<longleftrightarrow> bit b 6) \<and>
    (bit a 7 \<longleftrightarrow> bit b 7)"
  show "a = b"
  proof (rule bit_word_eqI)
    fix n assume "n < LENGTH(8)"
    then have "n < 8" by simp
    from nat_less_8 [OF this] r show "bit a n = bit b n" by (elim disjE) simp_all
  qed
qed simp

lemma byte_eq_bits: "a = b \<longleftrightarrow> byte_bits a = byte_bits b"
  by (auto simp: byte_bits_def byte_eq_iff)

lemma byte_mask_bits:
  assumes "n < 8"
  shows "a AND NOT (drop_bit n 255) = b AND NOT (drop_bit n (255 :: 8 word)) \<longleftrightarrow>
    take n (byte_bits a) = take n (byte_bits b)"
proof -
  have m: "bit (NOT (drop_bit n (255 :: 8 word))) j \<longleftrightarrow> 8 \<le> n + j" if "j < 8" for j
  proof -
    have "(255 :: 8 word) = mask 8" by (simp add: mask_eq_exp_minus_1)
    then have "bit (255 :: 8 word) (n + j) \<longleftrightarrow> n + j < 8" by (simp only: bit_mask_iff) simp
    with that show ?thesis by (auto simp: bit_not_iff bit_drop_bit_eq)
  qed
  from nat_less_8 [OF assms] show ?thesis
    by (elim disjE) (simp_all add: byte_bits_def byte_eq_iff bit_and_iff m conj_ac)
qed

lemma byte_and_255: "a AND (255 :: 8 word) = a"
  by (simp add: byte_eq_iff bit_simps)

lemma length_byte_bits [simp]: "length (byte_bits b) = 8"
  by (simp add: byte_bits_def)

lemma CIDRMask_0: "length a = l \<Longrightarrow> mask_bytes a (CIDRMask 0 l) = replicate l 0"
proof (induction l arbitrary: a)
  case (Suc l)
  then obtain x a' where "a = x # a'" "length a' = l" by (cases a) auto
  moreover have "x AND NOT (drop_bit 0 255) = 0"
    by (simp add: byte_eq_iff bit_simps)
  ultimately show ?case using Suc.IH [of a'] by (simp add: mask_bytes_def del: drop_bit_0 bit.compl_eq_compl_iff)
qed (simp add: mask_bytes_def)

lemma mask_same_prefix:
  "length a = l \<Longrightarrow> length b = l \<Longrightarrow> n \<le> 8 * l \<Longrightarrow>
   mask_bytes a (CIDRMask n l) = mask_bytes b (CIDRMask n l) \<longleftrightarrow> same_prefix n a b"
proof (induction l arbitrary: a b n)
  case 0
  then show ?case by (simp add: mask_bytes_def same_prefix_def)
next
  case (Suc l)
  then obtain x a' y b' where ab: "a = x # a'" "b = y # b'" "length a' = l" "length b' = l"
    by (cases a; cases b; simp)
  show ?case
  proof (cases "8 \<le> n")
    case True
    with Suc.IH [OF ab(3,4), of "n - 8"] Suc.prems ab show ?thesis
      using byte_eq_bits [of x y]
      by (auto simp: mask_bytes_def same_prefix_def address_bits_def byte_and_255)
  next
    case False
    with CIDRMask_0 [OF ab(3)] CIDRMask_0 [OF ab(4)] byte_mask_bits [of n x y] ab show ?thesis
      by (simp add: mask_bytes_def same_prefix_def address_bits_def)
  qed
qed

lemma length_CIDRMask [simp]: "length (CIDRMask n l) = l"
  by (induction n l rule: CIDRMask.induct) auto

lemma mask_idem: "length a = length m \<Longrightarrow> mask_bytes (mask_bytes a m) m = mask_bytes a m"
proof (induction a m rule: list_induct2)
  case (Cons x a y m)
  then show ?case by (simp add: mask_bytes_def and.assoc)
qed (simp add: mask_bytes_def)

lemma length_mask_bytes [simp]: "length (mask_bytes a m) = min (length a) (length m)"
  by (simp add: mask_bytes_def)

end
