(* ===== verification/Netlink.thy ===== *)
theory Netlink
  imports Net_Addr Pod_Spec
begin

text \<open>
  pkg/network/netlink.go: the rtnetlink requests of the init, framed by hand (\<open>newMessage\<close>,
  \<open>append\<close>, \<open>appendAttr\<close>, \<open>bytes\<close>), the exchange with the kernel (\<open>talk\<close>) and \<open>Apply\<close>, which brings
  up the network of the pod.  The guest is little-endian (amd64, arm64), so a Go struct reinterpreted
  as bytes has its fields in little-endian order.  The kernel's side of the framing is stated as a
  decoder of its own, after linux/netlink.h and linux/rtnetlink.h.
\<close>

subsection \<open>Little-endian fields\<close>

definition le16 :: "16 word \<Rightarrow> bytes" where
  "le16 w = [ucast w, ucast (drop_bit 8 w)]"

definition le32 :: "32 word \<Rightarrow> bytes" where
  "le32 w = [ucast w, ucast (drop_bit 8 w), ucast (drop_bit 16 w), ucast (drop_bit 24 w)]"

definition get16 :: "bytes \<Rightarrow> 16 word" where
  "get16 b = ucast (b ! 0) OR push_bit 8 (ucast (b ! 1))"

definition get32 :: "bytes \<Rightarrow> 32 word" where
  "get32 b = ucast (b ! 0) OR push_bit 8 (ucast (b ! 1)) OR push_bit 16 (ucast (b ! 2)) OR
     push_bit 24 (ucast (b ! 3))"

subsection \<open>The message builder\<close>

type_synonym nlmsg = bytes

definition NLMSG_HDRLEN :: nat where "NLMSG_HDRLEN = 16"

text \<open>\<open>make([]byte, NLMSG_HDRLEN)\<close> with the fields Type, Flags and Seq of the header set; Len and Pid stay 0.\<close>

definition newMessage :: "16 word \<Rightarrow> 16 word \<Rightarrow> nlmsg" where
  "newMessage msgType flags = le32 0 @ le16 msgType @ le16 flags @ le32 1 @ le32 0"

function nl_pad :: "bytes \<Rightarrow> bytes" where
  "nl_pad buf = (if length buf mod 4 \<noteq> 0 then nl_pad (buf @ [0]) else buf)"
  by pat_completeness auto
termination
proof (relation "measure (\<lambda>buf. (4 - length buf mod 4) mod 4)")
  fix buf :: bytes
  assume "length buf mod 4 \<noteq> 0"
  moreover have "length buf mod 4 < 4" by simp
  ultimately have "length buf mod 4 = 1 \<or> length buf mod 4 = 2 \<or> length buf mod 4 = 3" by linarith
  then have "(4 - Suc (length buf) mod 4) mod 4 < (4 - length buf mod 4) mod 4"
    by (elim disjE) (simp_all add: mod_Suc)
  then show "(buf @ [0], buf) \<in> measure (\<lambda>buf. (4 - length buf mod 4) mod 4)" by simp
qed simp

declare nl_pad.simps [simp del]

definition nl_append :: "nlmsg \<Rightarrow> bytes \<Rightarrow> nlmsg" where
  "nl_append m b = nl_pad (m @ b)"

definition appendAttr :: "nlmsg \<Rightarrow> 16 word \<Rightarrow> bytes \<Rightarrow> nlmsg" where
  "appendAttr m typ val = m @ nl_pad (le16 (of_nat (4 + length val)) @ le16 typ @ val)"

definition nl_bytes :: "nlmsg \<Rightarrow> bytes" where
  "nl_bytes m = le32 (of_nat (length m)) @ drop 4 m"

subsection \<open>The requests\<close>

definition RTM_NEWLINK :: "16 word" where "RTM_NEWLINK = 16"
definition RTM_NEWADDR :: "16 word" where "RTM_NEWADDR = 20"
definition RTM_NEWROUTE :: "16 word" where "RTM_NEWROUTE = 24"

definition NLM_F_REQUEST :: "16 word" where "NLM_F_REQUEST = 1"
definition NLM_F_ACK :: "16 word" where "NLM_F_ACK = 4"
definition NLM_F_EXCL :: "16 word" where "NLM_F_EXCL = 0x200"
definition NLM_F_CREATE :: "16 word" where "NLM_F_CREATE = 0x400"

definition AF_INET :: "8 word" where "AF_INET = 2"
definition AF_INET6 :: "8 word" where "AF_INET6 = 10"

definition ifinfomsg :: "32 word \<Rightarrow> bytes" where
  "ifinfomsg idx = [0, 0] @ le16 0 @ le32 idx @ le32 1 @ le32 1"

definition linkUp_msg :: "32 word \<Rightarrow> bytes" where
  "linkUp_msg idx = nl_bytes (nl_append (newMessage RTM_NEWLINK (NLM_F_REQUEST OR NLM_F_ACK)) (ifinfomsg idx))"

text \<open>The family and the bytes of an address: an IPv4 address, also one mapped into IPv6, has four.\<close>

definition ip_family :: "bytes \<Rightarrow> 8 word" where
  "ip_family ip = (if To4 ip = None then AF_INET6 else AF_INET)"

definition ip_payload :: "bytes \<Rightarrow> bytes" where
  "ip_payload ip = (case To4 ip of Some v4 \<Rightarrow> v4 | None \<Rightarrow> ip)"

text \<open>\<open>Mask.Size\<close> gives 0 for a mask that is no prefix.\<close>

definition mask_size :: "bytes \<Rightarrow> nat" where
  "mask_size m = (case simpleMaskLength m of None \<Rightarrow> 0 | Some n \<Rightarrow> n)"

definition ifaddrmsg :: "32 word \<Rightarrow> bytes \<Rightarrow> bytes \<Rightarrow> bytes" where
  "ifaddrmsg idx ip m = [ip_family ip, of_nat (mask_size m), 0, 0] @ le32 idx"

definition addrAdd_msg :: "32 word \<Rightarrow> bytes \<Rightarrow> bytes \<Rightarrow> bytes" where
  "addrAdd_msg idx ip m =
     (let msg = newMessage RTM_NEWADDR (NLM_F_REQUEST OR NLM_F_ACK OR NLM_F_CREATE OR NLM_F_EXCL);
          msg = nl_append msg (ifaddrmsg idx ip m);
          msg = appendAttr msg 2 (ip_payload ip);
          msg = appendAttr msg 1 (ip_payload ip)
      in nl_bytes msg)"

definition rtmsg :: "bytes \<Rightarrow> bytes" where
  "rtmsg gw = [ip_family gw, 0, 0, 0, 254, 3, 0, 1] @ le32 0"

definition defaultRoute_msg :: "32 word \<Rightarrow> bytes \<Rightarrow> bytes" where
  "defaultRoute_msg idx gw =
     (let msg = newMessage RTM_NEWROUTE (NLM_F_REQUEST OR NLM_F_ACK OR NLM_F_CREATE OR NLM_F_EXCL);
          msg = nl_append msg (rtmsg gw);
          msg = appendAttr msg 5 (ip_payload gw);
          msg = appendAttr msg 4 (le32 idx)
      in nl_bytes msg)"

subsection \<open>The exchange\<close>

record nl_message =
  y_type :: "16 word"
  y_data :: bytes

text \<open>
  \<open>syscall.ParseNetlinkMessage\<close>: messages of at least a header, each advancing by its length rounded
  up to four; \<^const>\<open>None\<close> is EINVAL.
\<close>

definition nlm_align :: "nat \<Rightarrow> nat" where
  "nlm_align n = (n + 3) div 4 * 4"

function ParseNetlinkMessage :: "bytes \<Rightarrow> nl_message list option" where
  "ParseNetlinkMessage b =
     (if length b < NLMSG_HDRLEN then Some []
      else
        let len = unat (get32 b); l = nlm_align len
        in if len < NLMSG_HDRLEN \<or> length b < l then None
           else map_option (Cons \<lparr>y_type = get16 (drop 4 b), y_data = take (len - NLMSG_HDRLEN) (drop NLMSG_HDRLEN b)\<rparr>)
                  (ParseNetlinkMessage (drop l b)))"
  by pat_completeness auto
termination
proof (relation "measure length")
  fix b :: bytes and len l
  assume "\<not> length b < NLMSG_HDRLEN" "len = unat (get32 b)" "l = nlm_align len"
    "\<not> (len < NLMSG_HDRLEN \<or> length b < l)"
  then have "16 \<le> len" "0 < length b" "l = (len + 3) div 4 * 4" by (auto simp: nlm_align_def NLMSG_HDRLEN_def)
  then have "0 < l" "0 < length b" by linarith+
  then show "(drop l b, b) \<in> measure length" by simp
qed simp

declare ParseNetlinkMessage.simps [simp del]

definition NLMSG_ERROR :: "16 word" where "NLMSG_ERROR = 2"
definition NLMSG_DONE :: "16 word" where "NLMSG_DONE = 3"

text \<open>\<open>syscall.Errno(-errno)\<close>: the negated 32-bit value, sign-extended to a machine word.\<close>

definition errno_of :: "32 word \<Rightarrow> goerr" where
  "errno_of e = Errno (uint (scast (- e) :: 64 word))"

text \<open>What one message makes the loop return; \<^const>\<open>None\<close> goes on.\<close>

definition talk_message :: "nl_message \<Rightarrow> goerr option option" where
  "talk_message m =
     (if y_type m = NLMSG_DONE then Some None
      else if y_type m = NLMSG_ERROR then
        (if length (y_data m) < 4 then Some (Some (Errorf ''short NLMSG_ERROR'' []))
         else if get32 (y_data m) = 0 then Some None
         else Some (Some (errno_of (get32 (y_data m)))))
      else None)"

fun talk_messages :: "nl_message list \<Rightarrow> goerr option option" where
  "talk_messages [] = None"
| "talk_messages (m # ms) = (case talk_message m of Some r \<Rightarrow> Some r | None \<Rightarrow> talk_messages ms)"

text \<open>The loop over the reads, into a buffer of 4096 bytes; \<^const>\<open>None\<close> is a read that never returns.\<close>

fun talk_reads :: "bytes result list \<Rightarrow> goerr option option" where
  "talk_reads [] = None"
| "talk_reads (Inl e # rs) = Some (Some e)"
| "talk_reads (Inr b # rs) =
     (case ParseNetlinkMessage (take 4096 b) of
        None \<Rightarrow> Some (Some (Errno EINVAL))
      | Some ms \<Rightarrow> (case talk_messages ms of Some r \<Rightarrow> Some r | None \<Rightarrow> talk_reads rs))"

definition openRTNL :: "nl_session \<Rightarrow> goerr option" where
  "openRTNL n = (case nl_socket n of Some e \<Rightarrow> Some e | None \<Rightarrow> nl_bind n)"

definition talk_session :: "nl_session \<Rightarrow> goerr option option" where
  "talk_session n =
     (case openRTNL n of
        Some e \<Rightarrow> Some (Some e)
      | None \<Rightarrow> (case nl_write n of Some e \<Rightarrow> Some (Some e) | None \<Rightarrow> talk_reads (nl_reads n)))"

definition talk :: "kernel \<Rightarrow> bytes \<Rightarrow> goerr option option io" where
  "talk K req = call (\<lambda>tr. talk_session (k_netlink K tr req)) (ENetlink req)"

subsection \<open>Apply\<close>

definition ifaceIndex :: "kernel \<Rightarrow> string \<Rightarrow> 32 word result io" where
  "ifaceIndex K name = ask (\<lambda>tr. case k_ifindex K tr name of Inl e \<Rightarrow> Inl e | Inr i \<Rightarrow> Inr (word_of_int i))"

definition resolv_conf_text :: "string list \<Rightarrow> string" where
  "resolv_conf_text dns = concat (map (\<lambda>s. ''nameserver '' @ s @ [CHR 0x0A]) dns)"

definition writeResolvConf :: "kernel \<Rightarrow> string list \<Rightarrow> goerr option io" where
  "writeResolvConf K dns = do {
     e \<leftarrow> os_mkdir_all K ''/etc'';
     (case e of
        Some e \<Rightarrow> ret (Some e)
      | None \<Rightarrow> os_write_file K ''/etc/resolv.conf'' (resolv_conf_text dns) 420)
   }"

text \<open>
  A step of \<open>Apply\<close> returns \<^const>\<open>None\<close> when it waits for the kernel for ever; \<open>and_then\<close> goes on
  after a step that returned without error.
\<close>

definition and_then :: "goerr option option io \<Rightarrow> goerr option option io \<Rightarrow> goerr option option io" where
  "and_then m n = do { r \<leftarrow> m; (if r = Some None then n else ret r) }"

text \<open>\<open>if err := f(); err != nil \<and> err != EEXIST { return Errorf(...) }\<close>.\<close>

definition swallow :: "int set \<Rightarrow> (goerr \<Rightarrow> goerr) \<Rightarrow> goerr option option \<Rightarrow> goerr option option" where
  "swallow ok wrap r =
     (case r of Some (Some e) \<Rightarrow> if e \<in> Errno ` ok then Some None else Some (Some (wrap e)) | _ \<Rightarrow> r)"

definition apply_link :: "kernel \<Rightarrow> string \<Rightarrow> 32 word \<Rightarrow> goerr option option io" where
  "apply_link K iface idx = do {
     r \<leftarrow> talk K (linkUp_msg idx);
     ret (swallow {} (Wrapf ''link up %s: %w'' [AStr iface]) r)
   }"

definition apply_address :: "kernel \<Rightarrow> string \<Rightarrow> 32 word \<Rightarrow> string \<Rightarrow> goerr option option io" where
  "apply_address K iface idx address =
     (if address = [] then ret (Some None)
      else (case (ParseCIDR_ip address, ParseCIDR address) of
          (Some ip, Some (_, m)) \<Rightarrow> do {
            r \<leftarrow> talk K (addrAdd_msg idx ip m);
            ret (swallow {EEXIST} (Wrapf ''addr add %s on %s: %w'' [AStr address, AStr iface]) r)
          }
        | _ \<Rightarrow> ret (Some (Some (Wrapf ''parse address %q: %w'' [AStr address]
              (Errorf ''invalid CIDR address: %s'' [AStr address]))))))"

definition apply_gateway :: "kernel \<Rightarrow> 32 word \<Rightarrow> string \<Rightarrow> goerr option option io" where
  "apply_gateway K idx gateway =
     (if gateway = [] then ret (Some None)
      else (case ParseIP gateway of
          None \<Rightarrow> ret (Some (Some (Errorf ''parse gateway %q'' [AStr gateway])))
        | Some gw \<Rightarrow> do {
            r \<leftarrow> talk K (defaultRoute_msg idx gw);
            ret (swallow {EEXIST} (Wrapf ''default route via %s: %w'' [AStr gateway]) r)
          }))"

definition apply_dns :: "kernel \<Rightarrow> string list \<Rightarrow> goerr option option io" where
  "apply_dns K dns =
     (if dns = [] then ret (Some None)
      else do { e \<leftarrow> writeResolvConf K dns; ret (swallow {} (Wrapf ''resolv.conf: %w'' []) (Some e)) })"

definition apply_hostname :: "kernel \<Rightarrow> string \<Rightarrow> goerr option option io" where
  "apply_hostname K h =
     (if h = [] then ret (Some None)
      else do { e \<leftarrow> sys_sethostname K h; ret (swallow {} (Wrapf ''sethostname %q: %w'' [AStr h]) (Some e)) })"

definition iface_name :: "Network \<Rightarrow> string" where
  "iface_name n = (if n_Interface n = [] then ''eth0'' else n_Interface n)"

definition Apply :: "kernel \<Rightarrow> Network option \<Rightarrow> goerr option option io" where
  "Apply K n = (case n of None \<Rightarrow> ret (Some None) | Some n \<Rightarrow> do {
     i \<leftarrow> ifaceIndex K (iface_name n);
     (case i of
        Inl e \<Rightarrow> ret (Some (Some (Wrapf ''resolve %s: %w'' [AStr (iface_name n)] e)))
      | Inr idx \<Rightarrow>
          and_then (apply_link K (iface_name n) idx)
          (and_then (apply_address K (iface_name n) idx (n_Address n))
          (and_then (apply_gateway K idx (n_Gateway n))
          (and_then (apply_dns K (n_DNS n))
            (apply_hostname K (n_Hostname n))))))
   })"

subsection \<open>The framing\<close>

lemma unat_of_nat_small: "n < 2 ^ LENGTH('a) \<Longrightarrow> unat (of_nat n :: 'a :: len word) = n"
  by (simp add: unsigned_of_nat take_bit_nat_eq_self)

lemma length_le [simp]: "length (le16 w) = 2" "length (le32 v) = 4"
  by (simp_all add: le16_def le32_def)

lemma get16_le16 [simp]: "get16 (le16 w @ r) = w"
proof (rule bit_word_eqI)
  fix n assume "n < LENGTH(16)"
  then show "bit (get16 (le16 w @ r)) n \<longleftrightarrow> bit w n"
    by (cases "n < 8") (auto simp: get16_def le16_def bit_simps)
qed

lemma get32_le32 [simp]: "get32 (le32 w @ r) = w"
proof (rule bit_word_eqI)
  fix n assume n: "n < LENGTH(32)"
  consider "n < 8" | "8 \<le> n" "n < 16" | "16 \<le> n" "n < 24" | "24 \<le> n" "n < 32"
    using n by force
  then show "bit (get32 (le32 w @ r)) n \<longleftrightarrow> bit w n"
    by cases (auto simp: get32_def le32_def bit_simps)
qed

lemma drop_le [simp]: "drop 2 (le16 w @ r) = r" "drop 4 (le32 v @ r) = r"
  by (simp_all add: le16_def le32_def)

lemma nl_pad_id: "length b mod 4 = 0 \<Longrightarrow> nl_pad b = b"
  by (subst nl_pad.simps) simp

lemma nl_pad_zeros: "\<exists>z. nl_pad b = b @ replicate z 0 \<and> length b + z = nlm_align (length b)"
proof (induction b rule: nl_pad.induct)
  case (1 b)
  show ?case
  proof (cases "length b mod 4 = 0")
    case True
    then have "nlm_align (length b) = length b" unfolding nlm_align_def by presburger
    with True show ?thesis by (intro exI [of _ 0]) (simp add: nl_pad_id)
  next
    case False
    with 1 obtain z where z: "nl_pad (b @ [0]) = (b @ [0]) @ replicate z 0"
      "Suc (length b) + z = nlm_align (Suc (length b))" by auto
    from False have "nlm_align (Suc (length b)) = nlm_align (length b)"
      unfolding nlm_align_def by presburger
    with z False show ?thesis by (intro exI [of _ "Suc z"]) (simp add: nl_pad.simps [of b])
  qed
qed

lemma length_nl_pad [simp]: "length (nl_pad b) = nlm_align (length b)"
  using nl_pad_zeros [of b] by auto

lemma take_nl_pad: "n \<le> length b \<Longrightarrow> take n (nl_pad b @ r) = take n b"
  using nl_pad_zeros [of b] by auto

lemma nlm_align_ge: "n \<le> nlm_align n" and nlm_align_mod: "nlm_align n mod 4 = 0"
  unfolding nlm_align_def by (presburger, simp)

lemma nlm_align_add: "m mod 4 = 0 \<Longrightarrow> nlm_align (m + n) = m + nlm_align n"
  unfolding nlm_align_def by presburger

text \<open>The kernel's reading of the attributes, and of a request whose fixed part has \<open>sz\<close> bytes.\<close>

function decode_attrs :: "bytes \<Rightarrow> (16 word \<times> bytes) list option" where
  "decode_attrs b =
     (if b = [] then Some []
      else
        let n = unat (get16 b)
        in if length b < 4 \<or> n < 4 \<or> length b < n then None
           else map_option (Cons (get16 (drop 2 b), take (n - 4) (drop 4 b)))
                  (decode_attrs (drop (nlm_align n) b)))"
  by pat_completeness auto
termination
proof (relation "measure length")
  fix b :: bytes and n
  assume "b \<noteq> []" "n = unat (get16 b)" "\<not> (length b < 4 \<or> n < 4 \<or> length b < n)"
  with nlm_align_ge [of n] show "(drop (nlm_align n) b, b) \<in> measure length" by simp
qed simp

declare decode_attrs.simps [simp del]

definition decode_request ::
    "nat \<Rightarrow> bytes \<Rightarrow> (16 word \<times> 16 word \<times> 32 word \<times> bytes \<times> (16 word \<times> bytes) list) option" where
  "decode_request sz b =
     (if length b < NLMSG_HDRLEN + nlm_align sz \<or> unat (get32 b) \<noteq> length b then None
      else map_option (\<lambda>as. (get16 (drop 4 b), get16 (drop 6 b), get32 (drop 8 b),
               take sz (drop NLMSG_HDRLEN b), as))
             (decode_attrs (drop (NLMSG_HDRLEN + nlm_align sz) b)))"

definition attr_bytes :: "16 word \<times> bytes \<Rightarrow> bytes" where
  "attr_bytes a = nl_pad (le16 (of_nat (4 + length (snd a))) @ le16 (fst a) @ snd a)"

lemma decode_attr_bytes:
  assumes "length v + 4 < 2 ^ 16" "decode_attrs r = Some as"
  shows "decode_attrs (attr_bytes (t, v) @ r) = Some ((t, v) # as)"
proof -
  define n where "n = 4 + length v"
  define a where "a = le16 (of_nat n) @ le16 t @ v"
  define b where "b = nl_pad a @ r"
  have a: "length a = n" by (simp add: a_def n_def)
  obtain z where z: "nl_pad a = a @ replicate z 0" using nl_pad_zeros by blast
  have be: "b = le16 (of_nat n) @ le16 t @ v @ replicate z 0 @ r" unfolding b_def z by (simp add: a_def)
  have p: "length (nl_pad a) = nlm_align n" by (simp add: a)
  then have l: "length b = nlm_align n + length r" by (simp add: b_def)
  have dn: "drop (nlm_align n) b = r" using p by (simp add: b_def)
  have n: "4 \<le> n" "n < 2 ^ 16" "n - 4 = length v" using assms(1) by (simp_all add: n_def)
  have g: "unat (get16 b) = n" using n(2) by (simp add: be unat_of_nat_small)
  have d2: "drop 2 b = le16 t @ v @ replicate z 0 @ r" by (simp only: be drop_le)
  have "drop 4 b = drop 2 (drop 2 b)" by simp
  then have d4: "drop 4 b = v @ replicate z 0 @ r" by (simp only: d2 drop_le)
  have t: "get16 (drop 2 b) = t" by (simp only: d2 get16_le16)
  have ne: "b \<noteq> []" by (simp add: be le16_def)
  have len: "\<not> (length b < 4 \<or> n < 4 \<or> length b < n)"
    unfolding l using nlm_align_ge [of n] n(1) by linarith
  have "decode_attrs b = Some ((t, v) # as)"
    by (subst decode_attrs.simps) (simp only: ne len g d4 dn t Let_def assms(2) n(3) if_False option.map, simp)
  then show ?thesis by (simp add: attr_bytes_def b_def a_def n_def)
qed

lemma decode_attrs_concat:
  "\<forall>a \<in> set as. length (snd a) + 4 < 2 ^ 16 \<Longrightarrow> decode_attrs (concat (map attr_bytes as)) = Some as"
proof (induction as)
  case Nil
  show ?case by (subst decode_attrs.simps) simp
next
  case (Cons a as)
  then show ?case using decode_attr_bytes [of "snd a" "concat (map attr_bytes as)" as "fst a"] by simp
qed

lemma nl_pad_append: "length h mod 4 = 0 \<Longrightarrow> nl_pad (h @ b) = h @ nl_pad b"
proof -
  assume h: "length h mod 4 = 0"
  obtain z where z: "nl_pad (h @ b) = (h @ b) @ replicate z 0" "length (h @ b) + z = nlm_align (length (h @ b))"
    using nl_pad_zeros by blast
  obtain y where y: "nl_pad b = b @ replicate y 0" "length b + y = nlm_align (length b)"
    using nl_pad_zeros by blast
  from z(2) y(2) nlm_align_add [OF h, of "length b"] have "z = y" by simp
  with z(1) y(1) show ?thesis by simp
qed

lemma length_newMessage [simp]: "length (newMessage ty fl) = 16"
  by (simp add: newMessage_def)

definition message :: "16 word \<Rightarrow> 16 word \<Rightarrow> bytes \<Rightarrow> (16 word \<times> bytes) list \<Rightarrow> bytes" where
  "message ty fl body as =
     nl_bytes (foldl (\<lambda>m (t, v). appendAttr m t v) (nl_append (newMessage ty fl) body) as)"

lemma foldl_appendAttr: "foldl (\<lambda>m (t, v). appendAttr m t v) m as = m @ concat (map attr_bytes as)"
  by (induction as arbitrary: m) (auto simp: appendAttr_def attr_bytes_def)

lemma message_alt: "message ty fl body as =
  le32 (of_nat (16 + nlm_align (length body) + length (concat (map attr_bytes as)))) @
  le16 ty @ le16 fl @ le32 1 @ le32 0 @ nl_pad body @ concat (map attr_bytes as)"
proof -
  let ?r = "nl_pad body @ concat (map attr_bytes as)"
  have m: "foldl (\<lambda>m (t, v). appendAttr m t v) (nl_append (newMessage ty fl) body) as = newMessage ty fl @ ?r"
    by (simp add: foldl_appendAttr nl_append_def nl_pad_append)
  have "drop 4 (newMessage ty fl @ ?r) = le16 ty @ le16 fl @ le32 1 @ le32 0 @ ?r"
    unfolding newMessage_def append_assoc drop_le ..
  then show ?thesis by (simp add: message_def m nl_bytes_def add.assoc)
qed

lemma decode_message:
  assumes "\<forall>a \<in> set as. length (snd a) + 4 < 2 ^ 16" "length (message ty fl body as) < 2 ^ 32"
  shows "decode_request (length body) (message ty fl body as) = Some (ty, fl, 1, body, as)"
proof -
  let ?m = "message ty fl body as" and ?t = "concat (map attr_bytes as)"
  let ?l = "16 + nlm_align (length body) + length ?t"
  note m = message_alt [of ty fl body as]
  have len: "length ?m = ?l" by (simp add: m)
  have g: "unat (get32 ?m) = length ?m"
    using assms(2) unfolding len unfolding m get32_le32 by (subst unat_of_nat_small) simp_all
  have d4: "drop 4 ?m = le16 ty @ le16 fl @ le32 1 @ le32 0 @ nl_pad body @ ?t" unfolding m drop_le ..
  have "drop 6 ?m = drop 2 (drop 4 ?m)" "drop 8 ?m = drop 2 (drop 2 (drop 4 ?m))"
    "drop 16 ?m = drop 4 (drop 4 (drop 2 (drop 2 (drop 4 ?m))))" by simp_all
  then have d: "drop 6 ?m = le16 fl @ le32 1 @ le32 0 @ nl_pad body @ ?t"
    "drop 8 ?m = le32 1 @ le32 0 @ nl_pad body @ ?t" "drop 16 ?m = nl_pad body @ ?t"
    unfolding d4 drop_le by simp_all
  have "drop (16 + nlm_align (length body)) ?m = drop (nlm_align (length body)) (drop 16 ?m)"
    by (simp add: add.commute)
  then have r: "drop (16 + nlm_align (length body)) ?m = ?t" unfolding d by simp
  show ?thesis
    unfolding decode_request_def NLMSG_HDRLEN_def
    by (simp only: g d4 d r get16_le16 get32_le32 decode_attrs_concat [OF assms(1)] take_nl_pad)
      (simp add: len take_nl_pad)
qed

text \<open>
  C20. What the message builder writes, the kernel reads back: the type and the flags, sequence number
  1, the fixed part and the attributes in order, whatever their lengths, padding removed, as long as
  an attribute fits the 16 bits of its length field and the message the 32 bits of its own.
\<close>

theorem netlink_roundtrip:
  assumes "\<forall>a \<in> set as. length (snd a) + 4 < 2 ^ 16" "length (message ty fl body as) < 2 ^ 32"
  shows "decode_request (length body) (message ty fl body as) = Some (ty, fl, 1, body, as)"
  using assms by (rule decode_message)

theorem netlink_roundtrip_witness:
  "decode_request (length [7 :: 8 word]) (message 20 5 [7] [(2, [10, 0, 2, 15])]) =
    Some (20, 5, 1, [7], [(2, [10, 0, 2, 15])])"
  by (rule netlink_roundtrip) (simp_all add: message_alt nlm_align_def attr_bytes_def)

lemma message_simps:
  "message ty fl body [] = nl_bytes (nl_append (newMessage ty fl) body)"
  "message ty fl body [(t, v)] = nl_bytes (appendAttr (nl_append (newMessage ty fl) body) t v)"
  "message ty fl body [(t, v), (u, w)] =
     nl_bytes (appendAttr (appendAttr (nl_append (newMessage ty fl) body) t v) u w)"
  by (simp_all add: message_def)

lemma NOT_bytes: "NOT (0x3F :: 8 word) = 192" "NOT (0x7F :: 8 word) = 128" "NOT (0xFF :: 8 word) = 0"
  "NOT (0x1F :: 8 word) = 224" "NOT (0xF :: 8 word) = 240" "NOT (7 :: 8 word) = 248"
  "NOT (3 :: 8 word) = 252" "NOT (1 :: 8 word) = 254"
  by (simp_all add: not_eq_complement)

lemma drop_bytes: "drop_bit 0 (255 :: 8 word) = 255" "drop_bit 1 (255 :: 8 word) = 127"
  "drop_bit 2 (255 :: 8 word) = 63" "drop_bit 3 (255 :: 8 word) = 31" "drop_bit 4 (255 :: 8 word) = 15"
  "drop_bit 5 (255 :: 8 word) = 7" "drop_bit 6 (255 :: 8 word) = 3" "drop_bit 7 (255 :: 8 word) = 1"
  by (simp_all add: drop_bit_eq_div word_eq_iff_unsigned [where ?'a = nat] unat_div)

lemma mask_byte:
  assumes "n < 8"
  shows "byte_ones (NOT (drop_bit n 255)) = Some n \<and> NOT (drop_bit n 255) \<noteq> (255 :: 8 word)"
  using nat_less_8 [OF assms]
  by (elim disjE) (simp_all only: drop_bytes NOT_bytes, simp_all add: byte_ones_def)

lemma CIDRMask_zeros: "list_all (\<lambda>x. x = 0) (CIDRMask 0 l)"
  by (induction l) (simp_all add: drop_bytes(1) NOT_bytes del: drop_bit_0)

lemma simpleMaskLength_CIDRMask: "n \<le> 8 * l \<Longrightarrow> simpleMaskLength (CIDRMask n l) = Some n"
proof (induction l arbitrary: n)
  case (Suc l)
  show ?case
  proof (cases "8 \<le> n")
    case True
    with Suc show ?thesis by simp
  next
    case False
    then have "n < 8" by simp
    from mask_byte [OF this] False show ?thesis by (simp add: CIDRMask_zeros)
  qed
qed simp

lemma cidr_parts_Some:
  assumes "cidr_parts s = Some (ip, n)"
  shows "n \<le> addr_bits ip" "length (addr_bytes ip) = addr_bits ip div 8"
  using assms ParseAddr_Some by (auto simp: cidr_parts_def split: option.splits if_splits)

lemma mask_size_parts:
  assumes "cidr_parts s = Some (ip, n)"
  shows "mask_size (CIDRMask n (addr_bits ip div 8)) = n"
proof -
  have "8 * (addr_bits ip div 8) = addr_bits ip" by (cases ip) auto
  with cidr_parts_Some(1) [OF assms] simpleMaskLength_CIDRMask [of n "addr_bits ip div 8"]
  show ?thesis by (simp add: mask_size_def)
qed

text \<open>The family and address the kernel is to be given for a parsed address.\<close>

fun mapped :: "addr \<Rightarrow> bool" where
  "mapped (V4 b) = False"
| "mapped (V6 b z) = (take 12 b = replicate 10 0 @ [255, 255])"

definition wire_addr :: "addr \<Rightarrow> 8 word \<times> bytes" where
  "wire_addr ip = (case ip of V4 b \<Rightarrow> (AF_INET, b)
     | V6 b _ \<Rightarrow> if mapped ip then (AF_INET, drop 12 b) else (AF_INET6, b))"

lemma As16_wire:
  assumes "length (addr_bytes ip) = addr_bits ip div 8"
  shows "(ip_family (As16 ip), ip_payload (As16 ip)) = wire_addr ip"
    "length (snd (wire_addr ip)) \<le> 16"
  using assms by (cases ip; auto simp: ip_family_def ip_payload_def wire_addr_def To4_def)+

lemma flags_1541: "NLM_F_REQUEST OR NLM_F_ACK OR NLM_F_CREATE OR NLM_F_EXCL = 0x605"
  by (simp add: NLM_F_REQUEST_def NLM_F_ACK_def NLM_F_CREATE_def NLM_F_EXCL_def)

lemma address_request:
  assumes "ParseCIDR_ip s = Some ip" "ParseCIDR s = Some (net, m)"
  shows "\<exists>a n. cidr_parts s = Some (a, n) \<and> n \<le> addr_bits a \<and>
    decode_request 8 (addrAdd_msg idx ip m) =
      Some (RTM_NEWADDR, 0x605, 1, [fst (wire_addr a), of_nat n, 0, 0] @ le32 idx,
        [(2, snd (wire_addr a)), (1, snd (wire_addr a))])"
proof -
  from assms obtain a n where p: "cidr_parts s = Some (a, n)" "ip = As16 a"
    "m = CIDRMask n (addr_bits a div 8)"
    by (auto simp: ParseCIDR_def ParseCIDR_ip_def Let_def)
  note c = cidr_parts_Some [OF p(1)]
  note w = As16_wire [OF c(2)]
  let ?as = "[(2, snd (wire_addr a)), (1, snd (wire_addr a))] :: (16 word \<times> bytes) list"
  have "fst (wire_addr a) = ip_family ip" "snd (wire_addr a) = ip_payload ip"
    using w(1) p(2) by (metis fst_conv snd_conv)+
  then have "addrAdd_msg idx ip m = message RTM_NEWADDR 0x605 ([fst (wire_addr a), of_nat n, 0, 0] @ le32 idx) ?as"
    by (simp add: addrAdd_msg_def message_simps Let_def flags_1541 ifaddrmsg_def mask_size_parts [OF p(1)] p(3))
  moreover have "decode_request 8 (message RTM_NEWADDR 0x605 ([fst (wire_addr a), of_nat n, 0, 0] @ le32 idx) ?as) =
    Some (RTM_NEWADDR, 0x605, 1, [fst (wire_addr a), of_nat n, 0, 0] @ le32 idx, ?as)"
    using decode_message [where as = ?as and ty = RTM_NEWADDR and fl = "0x605"
        and body = "[fst (wire_addr a), of_nat n, 0, 0] @ le32 idx"] w(2)
    by (simp add: message_alt nlm_align_def attr_bytes_def)
  ultimately show ?thesis using p(1) c(1) by auto
qed

lemma route_request:
  assumes "ParseIP g = Some gw"
  shows "\<exists>a. ParseAddr g = Some a \<and> addr_zone a = [] \<and>
    decode_request 12 (defaultRoute_msg idx gw) =
      Some (RTM_NEWROUTE, 0x605, 1, [fst (wire_addr a), 0, 0, 0, 254, 3, 0, 1] @ le32 0,
        [(5, snd (wire_addr a)), (4, le32 idx)])"
proof -
  from assms obtain a where p: "ParseAddr g = Some a" "addr_zone a = []" "gw = As16 a"
    by (auto simp: ParseIP_def split: option.splits if_splits)
  note w = As16_wire [OF ParseAddr_Some(2) [OF p(1,2)]]
  let ?as = "[(5, snd (wire_addr a)), (4, le32 idx)] :: (16 word \<times> bytes) list"
  let ?body = "[fst (wire_addr a), 0, 0, 0, 254, 3, 0, 1] @ le32 0"
  have "fst (wire_addr a) = ip_family gw" "snd (wire_addr a) = ip_payload gw"
    using w(1) p(3) by (metis fst_conv snd_conv)+
  then have "defaultRoute_msg idx gw = message RTM_NEWROUTE 0x605 ?body ?as"
    by (simp add: defaultRoute_msg_def message_simps Let_def flags_1541 rtmsg_def)
  moreover have "decode_request 12 (message RTM_NEWROUTE 0x605 ?body ?as) = Some (RTM_NEWROUTE, 0x605, 1, ?body, ?as)"
    using decode_message [where as = ?as and ty = RTM_NEWROUTE and fl = "0x605" and body = ?body] w(2)
    by (simp add: message_alt nlm_align_def attr_bytes_def)
  ultimately show ?thesis using p(1,2) by auto
qed

lemma link_request:
  "decode_request 16 (linkUp_msg idx) = Some (RTM_NEWLINK, 5, 1, ifinfomsg idx, [])"
proof -
  have "linkUp_msg idx = message RTM_NEWLINK 5 (ifinfomsg idx) []"
    by (simp add: linkUp_msg_def message_simps NLM_F_REQUEST_def NLM_F_ACK_def)
  then show ?thesis
    using decode_message [where as = "[]" and ty = RTM_NEWLINK and fl = 5 and body = "ifinfomsg idx"]
    by (simp add: message_alt nlm_align_def ifinfomsg_def)
qed

text \<open>
  C21. The three requests say what the pod specification says.  The link request sets IFF_UP on the
  interface.  For every address that \<open>ParseCIDR\<close> accepts, the kernel reads a new-address request
  (create, exclusive, acknowledged) for the interface with the family, the prefix length and the
  address, both local and peer, of the string.  For every gateway that \<open>ParseIP\<close> accepts, it reads a
  new unicast route of the main table with destination length 0, that gateway and that interface.
  An IPv4-mapped IPv6 address goes out as an IPv4 address, with the prefix length as written.
\<close>

theorem requests_decode:
  assumes "ParseCIDR_ip s = Some ip" "ParseCIDR s = Some (net, m)" "ParseIP g = Some gw"
  shows "decode_request 16 (linkUp_msg idx) =
      Some (RTM_NEWLINK, 5, 1, [0, 0, 0, 0] @ le32 idx @ le32 1 @ le32 1, []) \<and>
    (\<exists>a n. cidr_parts s = Some (a, n) \<and> n \<le> addr_bits a \<and>
      decode_request 8 (addrAdd_msg idx ip m) =
        Some (RTM_NEWADDR, 0x605, 1, [fst (wire_addr a), of_nat n, 0, 0] @ le32 idx,
          [(2, snd (wire_addr a)), (1, snd (wire_addr a))])) \<and>
    (\<exists>a. ParseAddr g = Some a \<and> addr_zone a = [] \<and>
      decode_request 12 (defaultRoute_msg idx gw) =
        Some (RTM_NEWROUTE, 0x605, 1, [fst (wire_addr a), 0, 0, 0, 254, 3, 0, 1] @ le32 0,
          [(5, snd (wire_addr a)), (4, le32 idx)]))"
  using link_request [of idx] address_request [OF assms(1,2)] route_request [OF assms(3)]
  by (auto simp: ifinfomsg_def le16_def)

lemma example_address: "cidr_parts ''10.0.2.15/24'' = Some (V4 [10, 0, 2, 15], 24)"
  "ParseAddr ''10.0.2.2'' = Some (V4 [10, 0, 2, 2])"
  by (simp_all add: cidr_parts_def cut_def ParseAddr_def parse_v4_def is_digit_def digit_val_def dtoi_def)

theorem requests_decode_witness:
  "\<exists>ip net m gw. ParseCIDR_ip ''10.0.2.15/24'' = Some ip \<and> ParseCIDR ''10.0.2.15/24'' = Some (net, m) \<and>
    ParseIP ''10.0.2.2'' = Some gw \<and>
    decode_request 8 (addrAdd_msg 2 ip m) =
      Some (RTM_NEWADDR, 0x605, 1, [AF_INET, 24, 0, 0] @ le32 2, [(2, [10, 0, 2, 15]), (1, [10, 0, 2, 15])])"
proof -
  let ?m = "CIDRMask 24 4"
  have p: "ParseCIDR_ip ''10.0.2.15/24'' = Some (As16 (V4 [10, 0, 2, 15]))"
    "ParseCIDR ''10.0.2.15/24'' = Some (mask_bytes [10, 0, 2, 15] ?m, ?m)"
    "ParseIP ''10.0.2.2'' = Some (As16 (V4 [10, 0, 2, 2]))"
    by (simp_all add: ParseCIDR_ip_def ParseCIDR_def ParseIP_def example_address Let_def)
  from requests_decode [OF p, of 2] p show ?thesis
    by (auto simp: example_address wire_addr_def)
qed

subsection \<open>The answers\<close>

text \<open>The kernel's answer to a request: an error message with minus the errno and the header of the request.\<close>

definition error_frame :: "nat \<Rightarrow> bytes \<Rightarrow> bytes" where
  "error_frame e h = le32 36 @ le16 NLMSG_ERROR @ le16 0 @ le32 1 @ le32 0 @ le32 (- of_nat e) @ h"

definition silent :: "bytes \<Rightarrow> bool" where
  "silent f \<longleftrightarrow> (\<exists>ms. ParseNetlinkMessage (take 4096 f) = Some ms \<and> (\<forall>m \<in> set ms. talk_message m = None))"

lemma talk_messages_silent: "\<forall>m \<in> set ms. talk_message m = None \<Longrightarrow> talk_messages ms = None"
  by (induction ms) auto

lemma talk_reads_silent: "\<forall>f \<in> set fs. silent f \<Longrightarrow> talk_reads (map Inr fs @ rs) = talk_reads rs"
  by (induction fs) (auto simp: silent_def talk_messages_silent)

lemma parse_error_frame:
  assumes "length h = 16"
  shows "ParseNetlinkMessage (error_frame e h) = Some [\<lparr>y_type = NLMSG_ERROR, y_data = le32 (- of_nat e) @ h\<rparr>]"
proof -
  define f where "f = error_frame e h"
  have f: "f = le32 36 @ le16 NLMSG_ERROR @ le16 0 @ le32 1 @ le32 0 @ le32 (- of_nat e) @ h"
    by (simp add: f_def error_frame_def)
  have l: "length f = 36" using assms by (simp add: f)
  have d4: "drop 4 f = le16 NLMSG_ERROR @ le16 0 @ le32 1 @ le32 0 @ le32 (- of_nat e) @ h"
    unfolding f drop_le ..
  have "drop 16 f = drop 4 (drop 4 (drop 2 (drop 2 (drop 4 f))))" by simp
  then have d16: "drop 16 f = le32 (- of_nat e) @ h" unfolding d4 drop_le .
  have g: "unat (get32 f) = 36" unfolding f get32_le32 by simp
  have t: "get16 (drop 4 f) = NLMSG_ERROR" unfolding d4 get16_le16 ..
  have a: "nlm_align 36 = 36" by (simp add: nlm_align_def)
  have nil: "ParseNetlinkMessage [] = Some []"
    by (subst ParseNetlinkMessage.simps) (simp add: NLMSG_HDRLEN_def)
  have "take 20 (le32 (- of_nat e) @ h) = le32 (- of_nat e) @ h" using assms by simp
  then have "ParseNetlinkMessage f = Some [\<lparr>y_type = NLMSG_ERROR, y_data = le32 (- of_nat e) @ h\<rparr>]"
    by (subst ParseNetlinkMessage.simps) (simp add: Let_def NLMSG_HDRLEN_def g t d16 l a nil)
  then show ?thesis by (simp add: f_def)
qed

lemma errno_of_small: "e < 2 ^ 31 \<Longrightarrow> errno_of (- of_nat e) = Errno (int e)"
proof -
  assume e: "e < 2 ^ 31"
  have "sint (of_nat e :: 32 word) = int e"
    using e by (simp add: signed_of_nat signed_take_bit_int_eq_self)
  then have "(scast (of_nat e :: 32 word) :: 64 word) = of_nat e"
    by (metis of_int_of_nat_eq of_int_sint)
  then show ?thesis using e by (simp add: errno_of_def take_bit_nat_eq_self unsigned_of_nat)
qed



subsection \<open>Apply\<close>

lemma and_then_ok: "run_state (and_then m n) tr = (Some None, tr') \<longleftrightarrow>
  (\<exists>t. run_state m tr = (Some None, t) \<and> run_state n t = (Some None, tr'))"
  by (auto simp: and_then_def split: prod.splits if_splits)

lemma swallow_ok: "swallow ok wrap r = Some None \<longleftrightarrow> r = Some None \<or> (\<exists>e \<in> ok. r = Some (Some (Errno e)))"
  by (auto simp: swallow_def split: option.splits)

definition accepted :: "goerr option option \<Rightarrow> bool" where
  "accepted r \<longleftrightarrow> r = Some None \<or> r = Some (Some (Errno EEXIST))"

definition address_events :: "32 word \<Rightarrow> string \<Rightarrow> trace \<Rightarrow> bool" where
  "address_events idx a es \<longleftrightarrow> (if a = [] then es = [] else
     \<exists>ip net m r. ParseCIDR_ip a = Some ip \<and> ParseCIDR a = Some (net, m) \<and> accepted r \<and>
       es = [ENetlink (addrAdd_msg idx ip m) r])"

definition gateway_events :: "32 word \<Rightarrow> string \<Rightarrow> trace \<Rightarrow> bool" where
  "gateway_events idx g es \<longleftrightarrow> (if g = [] then es = [] else
     \<exists>gw r. ParseIP g = Some gw \<and> accepted r \<and> es = [ENetlink (defaultRoute_msg idx gw) r])"

definition dns_events :: "string list \<Rightarrow> trace" where
  "dns_events dns = (if dns = [] then [] else
     [EMkdir ''/etc'' None, EWrite ''/etc/resolv.conf'' (resolv_conf_text dns) 420 None])"

definition hostname_events :: "string \<Rightarrow> trace" where
  "hostname_events h = (if h = [] then [] else [EHostname h None])"

lemma cidr_both: "ParseCIDR_ip s = None \<longleftrightarrow> ParseCIDR s = None"
  by (simp add: ParseCIDR_ip_def ParseCIDR_def)

lemma step_link: "run_state (apply_link K iface idx) tr = (Some None, t) \<longleftrightarrow>
  t = tr @ [ENetlink (linkUp_msg idx) (Some None)] \<and>
  talk_session (k_netlink K tr (linkUp_msg idx)) = Some None"
  by (auto simp: apply_link_def talk_def swallow_ok)

lemma step_address: "run_state (apply_address K iface idx a) tr = (Some None, t) \<Longrightarrow>
  \<exists>es. t = tr @ es \<and> address_events idx a es"
  by (auto simp: apply_address_def address_events_def talk_def swallow_ok accepted_def
      split: if_splits option.splits)

lemma step_gateway: "run_state (apply_gateway K idx g) tr = (Some None, t) \<Longrightarrow>
  \<exists>es. t = tr @ es \<and> gateway_events idx g es"
  by (auto simp: apply_gateway_def gateway_events_def talk_def swallow_ok accepted_def
      split: if_splits option.splits)

lemma step_dns: "run_state (apply_dns K dns) tr = (Some None, t) \<Longrightarrow> t = tr @ dns_events dns"
  by (auto simp: apply_dns_def writeResolvConf_def dns_events_def io_defs swallow_ok
      split: if_splits option.splits)

lemma step_hostname: "run_state (apply_hostname K h) tr = (Some None, t) \<Longrightarrow> t = tr @ hostname_events h"
  by (auto simp: apply_hostname_def hostname_events_def io_defs swallow_ok split: if_splits)

definition apply_events :: "Network \<Rightarrow> 32 word \<Rightarrow> trace \<Rightarrow> bool" where
  "apply_events n idx evs \<longleftrightarrow> (\<exists>es gs. address_events idx (n_Address n) es \<and>
     gateway_events idx (n_Gateway n) gs \<and>
     evs = [ENetlink (linkUp_msg idx) (Some None)] @ es @ gs @ dns_events (n_DNS n) @
       hostname_events (n_Hostname n))"

lemma Apply_events:
  assumes "run_state (Apply K (Some n)) tr = (Some None, tr')"
  shows "\<exists>i evs. k_ifindex K tr (iface_name n) = Inr i \<and> apply_events n (word_of_int i) evs \<and> tr' = tr @ evs"
proof -
  from assms obtain i where i: "k_ifindex K tr (iface_name n) = Inr i"
    by (auto simp: Apply_def ifaceIndex_def split: sum.splits)
  let ?idx = "word_of_int i"
  from assms i obtain t1 t2 t3 t4 where
    t: "run_state (apply_link K (iface_name n) ?idx) tr = (Some None, t1)"
    "run_state (apply_address K (iface_name n) ?idx (n_Address n)) t1 = (Some None, t2)"
    "run_state (apply_gateway K ?idx (n_Gateway n)) t2 = (Some None, t3)"
    "run_state (apply_dns K (n_DNS n)) t3 = (Some None, t4)"
    "run_state (apply_hostname K (n_Hostname n)) t4 = (Some None, tr')"
    by (auto simp: Apply_def ifaceIndex_def and_then_ok)
  from step_address [OF t(2)] obtain es where es: "t2 = t1 @ es" "address_events ?idx (n_Address n) es" by blast
  from step_gateway [OF t(3)] obtain gs where gs: "t3 = t2 @ gs" "gateway_events ?idx (n_Gateway n) gs" by blast
  from t(1) es gs step_dns [OF t(4)] step_hostname [OF t(5)] i show ?thesis
    unfolding apply_events_def by (intro exI [of _ i]) (simp add: step_link iface_name_def, blast)
qed

text \<open>The conditions under which every step is granted.\<close>

definition network_ok :: "kernel \<Rightarrow> Network \<Rightarrow> bool" where
  "network_ok K n \<longleftrightarrow>
     (n_Address n \<noteq> [] \<longrightarrow> ParseCIDR (n_Address n) \<noteq> None) \<and> (n_Gateway n \<noteq> [] \<longrightarrow> ParseIP (n_Gateway n) \<noteq> None) \<and>
     (\<forall>t idx. talk_session (k_netlink K t (linkUp_msg idx)) = Some None) \<and>
     (\<forall>t req. accepted (talk_session (k_netlink K t req))) \<and>
     (\<forall>t p. k_mkdir K t p = None) \<and> (\<forall>t p b. k_write K t p b = None) \<and> (\<forall>t h. k_hostname K t h = None)"

lemma steps_granted:
  assumes "network_ok K n"
  shows "\<exists>t'. run_state (apply_link K iface idx) t = (Some None, t')"
    "\<exists>t'. run_state (apply_address K iface idx (n_Address n)) t = (Some None, t')"
    "\<exists>t'. run_state (apply_gateway K idx (n_Gateway n)) t = (Some None, t')"
    "\<exists>t'. run_state (apply_dns K (n_DNS n)) t = (Some None, t')"
    "\<exists>t'. run_state (apply_hostname K (n_Hostname n)) t = (Some None, t')"
  using assms cidr_both [of "n_Address n"]
  by (auto simp: network_ok_def apply_link_def apply_address_def apply_gateway_def apply_dns_def
      apply_hostname_def writeResolvConf_def io_defs talk_def swallow_ok accepted_def)

lemma and_then_granted:
  "(\<And>t. \<exists>t'. run_state m t = (Some None, t')) \<Longrightarrow> (\<And>t. \<exists>t'. run_state n t = (Some None, t')) \<Longrightarrow>
   \<exists>t'. run_state (and_then m n) t = (Some None, t')"
  unfolding and_then_ok by blast

lemma Apply_granted:
  assumes "network_ok K n" "k_ifindex K tr (iface_name n) = Inr i"
  shows "fst (run_state (Apply K (Some n)) tr) = Some None"
proof -
  note g = steps_granted [OF assms(1)]
  have "\<exists>t'. run_state (and_then (apply_link K (iface_name n) (word_of_int i))
      (and_then (apply_address K (iface_name n) (word_of_int i) (n_Address n))
      (and_then (apply_gateway K (word_of_int i) (n_Gateway n))
      (and_then (apply_dns K (n_DNS n)) (apply_hostname K (n_Hostname n)))))) tr = (Some None, t')"
    by (rule and_then_granted [OF g(1) and_then_granted [OF g(2) and_then_granted [OF g(3)
          and_then_granted [OF g(4,5)]]]])
  with assms(2) show ?thesis by (auto simp: Apply_def ifaceIndex_def)
qed

text \<open>
  C22. When \<open>Apply\<close> returns nil, the network of the specification is in place: the link was set up
  and acknowledged, then the address if there is one, then the default route if there is one, each
  accepted or there already, then resolv.conf was written with every server, then the host name set,
  on the named interface or eth0, and nothing else was done.  And it does return nil whenever the
  specification parses and the kernel grants each step, also when it answers that the address and the
  route exist: applying the network again succeeds.
\<close>

theorem Apply_success:
  "(run_state (Apply K (Some n)) tr = (Some None, tr') \<longrightarrow>
     (\<exists>i evs. k_ifindex K tr (if n_Interface n = [] then ''eth0'' else n_Interface n) = Inr i \<and>
       apply_events n (word_of_int i) evs \<and> tr' = tr @ evs)) \<and>
   ((\<exists>i. k_ifindex K tr (if n_Interface n = [] then ''eth0'' else n_Interface n) = Inr i) \<and> network_ok K n \<longrightarrow>
     fst (run_state (Apply K (Some n)) tr) = Some None)"
  using Apply_events [of K n tr tr'] Apply_granted [of K n tr] by (auto simp: iface_name_def)

lemma nl_ok_acks: "talk_session nl_ok = Some None"
proof -
  have r: "replicate (numeral k) x = x # replicate (pred_numeral k) x" for k and x :: "8 word"
    by (simp add: numeral_eq_Suc)
  have "talk_session nl_ok = talk_reads [Inr (error_frame 0 (replicate 16 0))]"
    by (simp add: talk_session_def nl_ok_def openRTNL_def error_frame_def le16_def le32_def NLMSG_ERROR_def r)
  then show ?thesis using parse_error_frame [of "replicate 16 0" 0]
    by (simp add: error_frame_def talk_message_def NLMSG_ERROR_def NLMSG_DONE_def)
qed

theorem Apply_success_witness:
  "\<exists>K n. n_Address n = ''10.0.2.15/24'' \<and> n_Gateway n = ''10.0.2.2'' \<and> network_ok K n \<and>
    fst (run_state (Apply K (Some n)) []) = Some None"
proof -
  let ?n = "\<lparr>n_Interface = [], n_Address = ''10.0.2.15/24'', n_Gateway = ''10.0.2.2'', n_DNS = [''10.0.2.3''],
    n_Hostname = ''pod''\<rparr>"
  let ?K = "kernel_with (\<lambda>_. None)"
  have ok: "network_ok ?K ?n"
    by (simp add: network_ok_def kernel_with_def nl_ok_acks accepted_def ParseCIDR_def ParseIP_def example_address)
  moreover have "fst (run_state (Apply ?K (Some ?n)) []) = Some None"
    by (rule Apply_success [THEN conjunct2, THEN mp]) (use ok in \<open>simp add: kernel_with_def\<close>)
  ultimately show ?thesis by (intro exI [of _ ?K] exI [of _ ?n]) simp
qed

end
