(* ===== verification/Overlay.thy ===== *)
theory Overlay
  imports Netlink
begin

text \<open>
  The WireGuard overlay: pkg/network/wgpeers.go (\<open>buildPeers\<close>, \<open>overlayLocalIP\<close>) and
  pkg/network/wireguard_linux.go (\<open>ApplyWireGuard\<close>, \<open>stagePrivateKey\<close>, \<open>cleanupTmpKey\<close>).  The library
  that brings the interface up is third-party: \<open>BringUp\<close> is a parameter, a function of the trace and
  the configuration it is given.  The global that keeps its closer is written and never read by the
  code of the repository; it and its mutex are in Agent_Overlay.
\<close>

subsection \<open>Base64 (encoding/base64, StdEncoding)\<close>

definition b64_alphabet :: string where
  "b64_alphabet = ''ABCDEFGHIJKLMNOPQRSTUVWXYZabcdefghijklmnopqrstuvwxyz0123456789+/''"

text \<open>The value of a byte of the alphabet.\<close>

definition b64_val :: "char \<Rightarrow> nat option" where
  "b64_val c = index_byte c b64_alphabet"

text \<open>The first bytes of the 24-bit value of four digits.\<close>

definition b64_bytes :: "nat \<Rightarrow> nat \<Rightarrow> nat \<Rightarrow> nat \<Rightarrow> bytes" where
  "b64_bytes a b c d =
     (let v = a * 262144 + b * 4096 + c * 64 + d in [of_nat (v div 65536), of_nat (v div 256), of_nat v])"

fun b64_quanta :: "string \<Rightarrow> bytes option" where
  "b64_quanta [] = Some []"
| "b64_quanta (a # b # c # d # s) =
     (case (b64_val a, b64_val b) of
        (Some va, Some vb) \<Rightarrow>
          if c = CHR ''='' then
            (if d = CHR ''='' \<and> s = [] then Some (take 1 (b64_bytes va vb 0 0)) else None)
          else (case b64_val c of
              None \<Rightarrow> None
            | Some vc \<Rightarrow>
                if d = CHR ''='' then (if s = [] then Some (take 2 (b64_bytes va vb vc 0)) else None)
                else (case b64_val d of
                    None \<Rightarrow> None
                  | Some vd \<Rightarrow> map_option ((@) (b64_bytes va vb vc vd)) (b64_quanta s)))
      | _ \<Rightarrow> None)"
| "b64_quanta s = None"

text \<open>Line breaks are skipped wherever they stand.\<close>

definition b64_decode :: "string \<Rightarrow> bytes option" where
  "b64_decode s = b64_quanta (filter (\<lambda>c. c \<noteq> CHR 0x0A \<and> c \<noteq> CHR 0x0D) s)"

subsection \<open>wgpeers.go\<close>

definition keyLen :: nat where "keyLen = 32"

text \<open>The peer and the configuration of the transport library.\<close>

record wt_peer =
  wt_PublicKey :: string
  wt_AllowedIPs :: "(addr \<times> nat) list"
  wt_Endpoint :: string
  wt_PersistentKeepalive :: "16 word"

record ServerConfig =
  sc_InterfaceName :: string
  sc_PrivateKeyPath :: string
  sc_LocalIP :: addr
  sc_ListenPort :: "16 word"
  sc_Peers :: "wt_peer list"

fun parse_allowed :: "nat \<Rightarrow> string list \<Rightarrow> (addr \<times> nat) list result" where
  "parse_allowed i [] = Inr []"
| "parse_allowed i (cidr # cs) =
     (case ParsePrefix cidr of
        None \<Rightarrow> Inl (Wrapf ''peer %d allowed_ip %q: %w'' [AInt (int i), AStr cidr] (Errorf ''netip.ParsePrefix'' []))
      | Some p \<Rightarrow> (case parse_allowed i cs of Inl e \<Rightarrow> Inl e | Inr ps \<Rightarrow> Inr (p # ps)))"

definition key_ok :: "string \<Rightarrow> bool" where
  "key_ok k \<longleftrightarrow> (case b64_decode k of None \<Rightarrow> False | Some b \<Rightarrow> length b = keyLen)"

fun build_peers_from :: "nat \<Rightarrow> WGPeer list \<Rightarrow> wt_peer list result" where
  "build_peers_from i [] = Inr []"
| "build_peers_from i (p # ps) =
     (if \<not> key_ok (wp_PublicKey p)
      then Inl (Errorf ''peer %d public_key: invalid base64/length'' [AInt (int i)])
      else (case parse_allowed i (wp_AllowedIPs p) of
          Inl e \<Rightarrow> Inl e
        | Inr allowed \<Rightarrow>
            (case build_peers_from (Suc i) ps of
               Inl e \<Rightarrow> Inl e
             | Inr out \<Rightarrow> Inr (\<lparr>wt_PublicKey = wp_PublicKey p, wt_AllowedIPs = allowed,
                 wt_Endpoint = wp_Endpoint p, wt_PersistentKeepalive = wp_PersistentKeepalive p\<rparr> # out))))"

definition buildPeers :: "WGPeer list \<Rightarrow> wt_peer list result" where
  "buildPeers ps = build_peers_from 0 ps"

text \<open>\<open>netip.AddrFromSlice\<close> and \<open>Unmap\<close>.\<close>

definition AddrFromSlice :: "bytes \<Rightarrow> addr option" where
  "AddrFromSlice b = (if length b = 4 then Some (V4 b) else if length b = 16 then Some (V6 b []) else None)"

fun Unmap :: "addr \<Rightarrow> addr" where
  "Unmap (V4 b) = V4 b"
| "Unmap (V6 b z) = (if take 12 b = replicate 10 0 @ [255, 255] then V4 (drop 12 b) else V6 b z)"

definition overlayLocalIP :: "bytes option \<Rightarrow> addr result" where
  "overlayLocalIP ip =
     (case ip of
        None \<Rightarrow> Inl (Errorf ''wireguard address is required'' [])
      | Some b \<Rightarrow> (case AddrFromSlice b of
            None \<Rightarrow> Inl (Errorf ''wireguard address %v: not a valid IP'' [])
          | Some a \<Rightarrow> Inr (Unmap a)))"

subsection \<open>wireguard_linux.go\<close>

text \<open>Every error after the file was created closes it, unless the close failed, and removes it.\<close>

definition stage_error :: "goerr \<Rightarrow> string result" where
  "stage_error e = Inl (Wrapf ''stage wg private key: %w'' [] e)"

definition stagePrivateKey :: "kernel \<Rightarrow> string \<Rightarrow> string result io" where
  "stagePrivateKey K b64 = do {
     f \<leftarrow> os_create_temp K ''wg-priv-*'';
     (case f of
        Inl e \<Rightarrow> ret (stage_error e)
      | Inr f \<Rightarrow> do {
          w \<leftarrow> file_write_string K f (b64 @ [CHR 0x0A]);
          (case w of
             Some e \<Rightarrow> do { _ \<leftarrow> file_close K f; _ \<leftarrow> os_remove f; ret (stage_error e) }
           | None \<Rightarrow> do {
               c \<leftarrow> file_chmod K f 384;
               (case c of
                  Some e \<Rightarrow> do { _ \<leftarrow> file_close K f; _ \<leftarrow> os_remove f; ret (stage_error e) }
                | None \<Rightarrow> do {
                    x \<leftarrow> file_close K f;
                    (case x of
                       Some e \<Rightarrow> do { _ \<leftarrow> os_remove f; ret (stage_error e) }
                     | None \<Rightarrow> ret (Inr f))
                  })
             })
        })
   }"

definition cleanupTmpKey :: "string \<Rightarrow> unit io" where
  "cleanupTmpKey path = (if path \<noteq> [] then os_remove path else ret ())"

type_synonym bring_up = "trace \<Rightarrow> ServerConfig \<Rightarrow> goerr option"

text \<open>The checks before anything is touched: key, address, peers, local address.\<close>

definition wg_iface :: "WireGuard \<Rightarrow> string" where
  "wg_iface wg = (if wg_Interface wg = [] then ''wg0'' else wg_Interface wg)"

definition check_wireguard :: "WireGuard \<Rightarrow> (wt_peer list \<times> addr \<times> bytes \<times> bytes) result" where
  "check_wireguard wg =
     (case b64_decode (wg_PrivateKey wg) of
        None \<Rightarrow> Inl (Wrapf ''wireguard private_key: %w'' [] (Errorf ''illegal base64 data'' []))
      | Some priv \<Rightarrow>
          if length priv \<noteq> keyLen
          then Inl (Errorf ''wireguard private_key must be %d bytes, got %d'' [AInt (int keyLen), AInt (int (length priv))])
          else if wg_Address wg \<noteq> [] \<and> ParseCIDR_ip (wg_Address wg) = None
          then Inl (Wrapf ''wireguard address %q: %w'' [AStr (wg_Address wg)]
                 (Errorf ''invalid CIDR address: %s'' [AStr (wg_Address wg)]))
          else (case buildPeers (wg_Peers wg) of
              Inl e \<Rightarrow> Inl e
            | Inr peers \<Rightarrow>
                let ip = (if wg_Address wg = [] then None else ParseCIDR_ip (wg_Address wg)) in
                (case overlayLocalIP ip of
                   Inl e \<Rightarrow> Inl e
                 | Inr a \<Rightarrow> (case (ip, ParseCIDR (wg_Address wg)) of
                       (Some b, Some (_, m)) \<Rightarrow> Inr (peers, a, b, m)
                     | _ \<Rightarrow> Inl (Errorf ''wireguard address is required'' [])))))"

definition server_config :: "WireGuard \<Rightarrow> string \<Rightarrow> addr \<Rightarrow> wt_peer list \<Rightarrow> ServerConfig" where
  "server_config wg keyPath localIP peers =
     \<lparr>sc_InterfaceName = wg_iface wg, sc_PrivateKeyPath = keyPath, sc_LocalIP = localIP,
      sc_ListenPort = wg_ListenPort wg, sc_Peers = peers\<rparr>"

text \<open>From the bring-up on; the address is re-added with its full mask.\<close>

definition bring_up_step :: "kernel \<Rightarrow> bring_up \<Rightarrow> WireGuard \<Rightarrow> ServerConfig \<Rightarrow> bytes \<Rightarrow> bytes \<Rightarrow> goerr option option io" where
  "bring_up_step K BU wg cfg ip m = do {
     b \<leftarrow> call (\<lambda>tr. BU tr cfg) (EBringUp (sc_InterfaceName cfg) (sc_PrivateKeyPath cfg));
     (case b of
        Some e \<Rightarrow> ret (Some (Some (Wrapf ''wireguard bring-up %s: %w'' [AStr (wg_iface wg)] e)))
      | None \<Rightarrow> do {
          i \<leftarrow> ifaceIndex K (wg_iface wg);
          (case i of
             Inl e \<Rightarrow> ret (Some (Some (Wrapf ''resolve %s after bring-up: %w'' [AStr (wg_iface wg)] e)))
           | Inr idx \<Rightarrow> do {
               r \<leftarrow> talk K (addrAdd_msg idx ip m);
               ret (case r of
                      Some (Some e) \<Rightarrow>
                        if errors_is e EEXIST then Some None
                        else Some (Some (Wrapf ''addr add %s on %s: %w'' [AStr (wg_Address wg), AStr (wg_iface wg)] e))
                    | _ \<Rightarrow> r)
             })
        })
   }"

text \<open>The deferred \<open>cleanupTmpKey\<close> runs when the function returns, so not while it waits for the kernel.\<close>

definition ApplyWireGuard :: "kernel \<Rightarrow> bring_up \<Rightarrow> WireGuard option \<Rightarrow> goerr option option io" where
  "ApplyWireGuard K BU wg =
     (case wg of
        None \<Rightarrow> ret (Some None)
      | Some wg \<Rightarrow>
          (case check_wireguard wg of
             Inl e \<Rightarrow> ret (Some (Some e))
           | Inr (peers, localIP, ip, m) \<Rightarrow> do {
               k \<leftarrow> stagePrivateKey K (wg_PrivateKey wg);
               (case k of
                  Inl e \<Rightarrow> ret (Some (Some e))
                | Inr keyPath \<Rightarrow> do {
                    r \<leftarrow> bring_up_step K BU wg (server_config wg keyPath localIP peers) ip m;
                    _ \<leftarrow> (if r = None then ret () else cleanupTmpKey keyPath);
                    ret r
                  })
             }))"

subsection \<open>Base64\<close>

definition b64_char :: "nat \<Rightarrow> char" where
  "b64_char n = b64_alphabet ! (n mod 64)"

fun b64_encode :: "bytes \<Rightarrow> string" where
  "b64_encode [] = []"
| "b64_encode [x] = (let v = unat x * 65536 in [b64_char (v div 262144), b64_char (v div 4096), CHR ''='', CHR ''=''])"
| "b64_encode [x, y] = (let v = unat x * 65536 + unat y * 256 in
     [b64_char (v div 262144), b64_char (v div 4096), b64_char (v div 64), CHR ''=''])"
| "b64_encode (x # y # z # bs) = (let v = unat x * 65536 + unat y * 256 + unat z in
     [b64_char (v div 262144), b64_char (v div 4096), b64_char (v div 64), b64_char v] @ b64_encode bs)"

lemma b64_table: "list_all (\<lambda>n. index_byte (b64_alphabet ! n) b64_alphabet = Some n \<and>
  b64_alphabet ! n \<noteq> CHR ''='' \<and> b64_alphabet ! n \<noteq> CHR 0x0A \<and> b64_alphabet ! n \<noteq> CHR 0x0D) [0..<64]"
  by code_simp

lemma b64_char_simps [simp]:
  "b64_val (b64_char n) = Some (n mod 64)" "b64_char n \<noteq> CHR ''=''" "b64_char n \<noteq> CHR 0x0A"
  "b64_char n \<noteq> CHR 0x0D"
  using b64_table by (auto simp: b64_val_def b64_char_def list_all_iff)

lemma sextets:
  assumes "v < 16777216"
  shows "v div 262144 mod 64 * 262144 + v div 4096 mod 64 * 4096 + v div 64 mod 64 * 64 + v mod 64 = (v :: nat)"
proof -
  define a where "a = v div 64"
  define b where "b = a div 64"
  define c where "c = b div 64"
  have d: "v div 4096 = b" "v div 262144 = c" "v div 64 = a"
    by (simp_all add: a_def b_def c_def div_mult2_eq [symmetric])
  have "c < 64" using assms by (simp add: a_def b_def c_def div_mult2_eq [symmetric] div_less_iff_less_mult)
  then have "c mod 64 = c" by simp
  moreover have "v = a * 64 + v mod 64" "a = b * 64 + a mod 64" "b = c * 64 + b mod 64"
    unfolding a_def b_def c_def by simp_all
  ultimately show ?thesis unfolding d by linarith
qed

lemma of_nat_byte: "of_nat (256 * k + unat x) = (x :: 8 word)"
  using unat_byte [of x]
  by (simp only: word_eq_iff_unsigned [where ?'a = nat] unsigned_of_nat) (simp add: take_bit_eq_mod)

lemma octets: "v = unat x * 65536 + unat y * 256 + unat z \<Longrightarrow>
  [of_nat (v div 65536), of_nat (v div 256), of_nat v] = [x, y, z :: 8 word]"
proof -
  assume v: "v = unat x * 65536 + unat y * 256 + unat z"
  have "v div 65536 = unat x" "v div 256 = 256 * unat x + unat y" "v = 256 * (256 * unat x + unat y) + unat z"
    using v unat_byte [of x] unat_byte [of y] unat_byte [of z] by simp_all
  then show ?thesis using of_nat_byte [of "unat x" y] of_nat_byte [of "256 * unat x + unat y" z] by simp
qed

lemma b64_decode_encode_quanta: "b64_quanta (b64_encode bs) = Some bs"
proof (induction bs rule: b64_encode.induct)
  case (2 x)
  let ?v = "unat x * 65536"
  from sextets [of ?v] unat_byte [of x] octets [of ?v x 0 0] show ?case
    by (simp add: Let_def b64_bytes_def)
next
  case (3 x y)
  let ?v = "unat x * 65536 + unat y * 256"
  from sextets [of ?v] unat_byte [of x] unat_byte [of y] octets [of ?v x y 0] show ?case
    by (simp add: Let_def b64_bytes_def)
next
  case (4 x y z bs)
  let ?v = "unat x * 65536 + unat y * 256 + unat z"
  from sextets [of ?v] unat_byte [of x] unat_byte [of y] unat_byte [of z] octets [of ?v x y z] 4 show ?case
    by (simp add: Let_def b64_bytes_def)
qed simp

lemma b64_encode_no_breaks: "filter (\<lambda>c. c \<noteq> CHR 0x0A \<and> c \<noteq> CHR 0x0D) (b64_encode bs) = b64_encode bs"
  by (induction bs rule: b64_encode.induct) (simp_all add: Let_def)

lemma b64_decode_encode [simp]: "b64_decode (b64_encode bs) = Some bs"
  by (simp add: b64_decode_def b64_encode_no_breaks b64_decode_encode_quanta)

subsection \<open>The peers\<close>

definition peer_ok :: "WGPeer \<Rightarrow> bool" where
  "peer_ok p \<longleftrightarrow> key_ok (wp_PublicKey p) \<and> list_all (\<lambda>c. ParsePrefix c \<noteq> None) (wp_AllowedIPs p)"

definition to_peer :: "WGPeer \<Rightarrow> wt_peer" where
  "to_peer p = \<lparr>wt_PublicKey = wp_PublicKey p, wt_AllowedIPs = map (the \<circ> ParsePrefix) (wp_AllowedIPs p),
     wt_Endpoint = wp_Endpoint p, wt_PersistentKeepalive = wp_PersistentKeepalive p\<rparr>"

lemma sum_map_Inr: "(case x of Inl e \<Rightarrow> Inl e | Inr y \<Rightarrow> Inr (f y)) = Inr z \<longleftrightarrow> (\<exists>y. x = Inr y \<and> z = f y)"
  by (auto split: sum.split)

lemma parse_allowed_Inr: "parse_allowed i cs = Inr out \<longleftrightarrow>
  list_all (\<lambda>c. ParsePrefix c \<noteq> None) cs \<and> out = map (the \<circ> ParsePrefix) cs"
proof (induction cs arbitrary: out)
  case (Cons c cs)
  show ?case by (cases "ParsePrefix c") (auto simp: sum_map_Inr Cons.IH simp del: not_None_eq)
qed auto

lemma build_peers_from_Inr: "build_peers_from i ps = Inr out \<longleftrightarrow> list_all peer_ok ps \<and> out = map to_peer ps"
proof (induction ps arbitrary: i out)
  case (Cons p ps)
  show ?case
  proof (cases "key_ok (wp_PublicKey p)")
    case True
    show ?thesis
    proof (cases "parse_allowed i (wp_AllowedIPs p)")
      case (Inl e)
      then have "\<not> peer_ok p" using parse_allowed_Inr [of i "wp_AllowedIPs p"] by (auto simp: peer_ok_def)
      with True Inl show ?thesis by simp
    next
      case (Inr allowed)
      then have "list_all (\<lambda>c. ParsePrefix c \<noteq> None) (wp_AllowedIPs p)"
        "allowed = map (the \<circ> ParsePrefix) (wp_AllowedIPs p)" by (simp_all only: parse_allowed_Inr)
      with True have "peer_ok p" "\<lparr>wt_PublicKey = wp_PublicKey p, wt_AllowedIPs = allowed,
          wt_Endpoint = wp_Endpoint p, wt_PersistentKeepalive = wp_PersistentKeepalive p\<rparr> = to_peer p"
        unfolding peer_ok_def to_peer_def by simp_all
      with True Inr Cons.IH [of "Suc i"] show ?thesis by (auto simp: sum_map_Inr)
    qed
  qed (simp add: peer_ok_def)
qed auto

text \<open>
  \<open>buildPeers\<close> translates exactly the lists in which every public key decodes to 32 bytes and every
  allowed prefix parses, peer by peer and in order, keeping keys, endpoints and keepalives; and the
  standard encoding of a key passes the check exactly when the key has 32 bytes.
\<close>

theorem buildPeers_correct:
  "(buildPeers ps = Inr out \<longleftrightarrow> list_all peer_ok ps \<and> out = map to_peer ps) \<and>
   (key_ok (b64_encode key) \<longleftrightarrow> length key = 32)"
  by (simp add: buildPeers_def build_peers_from_Inr key_ok_def keyLen_def)

subsection \<open>The private key file\<close>

definition key_line :: "string \<Rightarrow> string" where
  "key_line key = key @ [CHR 0x0A]"

text \<open>What may happen between the creation of the key file \<open>f\<close> and its removal.\<close>

fun key_event :: "string \<Rightarrow> string \<Rightarrow> event \<Rightarrow> bool" where
  "key_event key f (EFileWrite g s e) = (g = f \<and> s = key_line key)"
| "key_event key f (EChmod g mode e) = (g = f \<and> mode = 384)"
| "key_event key f (EClose g e) = (g = f)"
| "key_event key f (EBringUp i g e) = (g = f)"
| "key_event key f (ENetlink req r) = True"
| "key_event key f _ = False"

definition staged :: "string \<Rightarrow> string \<Rightarrow> trace" where
  "staged key f = [EFileWrite f (key_line key) None, EChmod f 384 None, EClose f None]"

lemma stage_cases:
  assumes "run_state (stagePrivateKey K key) tr = (r, t)"
  obtains (none) e where "r = stage_error e" "t = tr @ [ECreateTemp (Inl e)]"
  | (failed) f mid e where "r = stage_error e" "t = tr @ ECreateTemp (Inr f) # mid @ [ERemove f]"
      "list_all (key_event key f) mid" "\<forall>i g b. EBringUp i g b \<notin> set mid"
  | (ready) f where "r = Inr f" "t = tr @ ECreateTemp (Inr f) # staged key f" "k_temp K tr ''wg-priv-*'' = Inr f"
proof (cases "k_temp K tr ''wg-priv-*''")
  case (Inl e)
  with assms show thesis by (intro none [of e]) (auto simp: stagePrivateKey_def io_defs)
next
  case (Inr f)
  let ?t1 = "tr @ [ECreateTemp (Inr f)]"
  show thesis
  proof (cases "k_fwrite K ?t1 f (key_line key)")
    case (Some e)
    with Inr assms show thesis
      by (intro failed [of e f "[EFileWrite f (key_line key) (Some e), EClose f (k_close K (?t1 @ [EFileWrite f (key_line key) (Some e)]) f)]"])
        (auto simp: stagePrivateKey_def io_defs key_line_def)
  next
    case w: None
    let ?t2 = "?t1 @ [EFileWrite f (key_line key) None]"
    show thesis
    proof (cases "k_chmod K ?t2 f 384")
      case (Some e)
      with Inr w assms show thesis
        by (intro failed [of e f "[EFileWrite f (key_line key) None, EChmod f 384 (Some e), EClose f (k_close K (?t2 @ [EChmod f 384 (Some e)]) f)]"])
          (auto simp: stagePrivateKey_def io_defs key_line_def)
    next
      case c: None
      let ?t3 = "?t2 @ [EChmod f 384 None]"
      show thesis
      proof (cases "k_close K ?t3 f")
        case (Some e)
        with Inr w c assms show thesis
          by (intro failed [of e f "[EFileWrite f (key_line key) None, EChmod f 384 None, EClose f (Some e)]"])
            (auto simp: stagePrivateKey_def io_defs key_line_def)
      next
        case None
        with Inr w c assms show thesis
          by (intro ready [of f]) (auto simp: stagePrivateKey_def io_defs key_line_def staged_def)
      qed
    qed
  qed
qed

lemma bring_up_cases:
  assumes "run_state (bring_up_step K BU wg cfg ip m) tr = (r, t)"
  obtains es where "t = tr @ es" "list_all (key_event key (sc_PrivateKeyPath cfg)) es"
    "r = Some None \<Longrightarrow> BU tr cfg = None \<and>
       (\<exists>i u. k_ifindex K (tr @ [EBringUp (sc_InterfaceName cfg) (sc_PrivateKeyPath cfg) None]) (wg_iface wg) = Inr i \<and>
         es = [EBringUp (sc_InterfaceName cfg) (sc_PrivateKeyPath cfg) None,
               ENetlink (addrAdd_msg (word_of_int i) ip m) u] \<and>
         (u = Some None \<or> (\<exists>e. u = Some (Some e) \<and> errors_is e EEXIST)))"
proof (cases "BU tr cfg")
  case (Some e)
  with assms show thesis
    by (intro that [of "[EBringUp (sc_InterfaceName cfg) (sc_PrivateKeyPath cfg) (Some e)]"])
      (auto simp: bring_up_step_def)
next
  case b: None
  let ?b = "EBringUp (sc_InterfaceName cfg) (sc_PrivateKeyPath cfg) None"
  show thesis
  proof (cases "k_ifindex K (tr @ [?b]) (wg_iface wg)")
    case (Inl e)
    with assms b show thesis by (intro that [of "[?b]"]) (auto simp: bring_up_step_def ifaceIndex_def)
  next
    case (Inr i)
    let ?req = "addrAdd_msg (word_of_int i) ip m"
    from Inr assms b show thesis
      by (intro that [of "[?b, ENetlink ?req (talk_session (k_netlink K (tr @ [?b]) ?req))]"])
        (auto simp: bring_up_step_def ifaceIndex_def talk_def split: option.splits if_splits)
  qed
qed

lemma check_wireguard_bad_key: "\<not> key_ok (wg_PrivateKey wg) \<Longrightarrow> \<exists>e. check_wireguard wg = Inl e"
  by (auto simp: check_wireguard_def key_ok_def split: option.splits)

lemma check_wireguard_key:
  assumes "key_ok (wg_PrivateKey wg)"
  shows "check_wireguard wg =
    (if wg_Address wg \<noteq> [] \<and> cidr_parts (wg_Address wg) = None
     then Inl (Wrapf ''wireguard address %q: %w'' [AStr (wg_Address wg)]
            (Errorf ''invalid CIDR address: %s'' [AStr (wg_Address wg)]))
     else (case buildPeers (wg_Peers wg) of
         Inl e \<Rightarrow> Inl e
       | Inr peers \<Rightarrow> (case cidr_parts (wg_Address wg) of
           None \<Rightarrow> Inl (Errorf ''wireguard address is required'' [])
         | Some (x, n) \<Rightarrow>
             Inr (peers, Unmap (V6 (As16 x) []), As16 x, CIDRMask n (addr_bits x div 8)))))"
proof -
  from assms obtain b where b: "b64_decode (wg_PrivateKey wg) = Some b" "length b = keyLen"
    by (auto simp: key_ok_def split: option.splits)
  show ?thesis
  proof (cases "cidr_parts (wg_Address wg)")
    case None
    moreover have "cidr_parts [] = None" by (simp add: cidr_parts_def)
    ultimately show ?thesis using b
      by (simp add: check_wireguard_def ParseCIDR_ip_def ParseCIDR_def overlayLocalIP_def Let_def
          split: sum.split)
  next
    case (Some p)
    obtain x n where p: "p = (x, n)" by (cases p)
    from Some have ne: "wg_Address wg \<noteq> []" by (auto simp: cidr_parts_def)
    from cidr_parts_Some(2) [of "wg_Address wg" x n] Some p have "length (As16 x) = 16" by (cases x) auto
    then have o: "overlayLocalIP (Some (As16 x)) = Inr (Unmap (V6 (As16 x) []))"
      by (simp add: overlayLocalIP_def AddrFromSlice_def del: Unmap.simps)
    from Some p have c: "ParseCIDR_ip (wg_Address wg) = Some (As16 x)"
      "\<exists>net. ParseCIDR (wg_Address wg) = Some (net, CIDRMask n (addr_bits x div 8))"
      by (simp_all add: ParseCIDR_ip_def ParseCIDR_def Let_def)
    from c(2) obtain net where "ParseCIDR (wg_Address wg) = Some (net, CIDRMask n (addr_bits x div 8))" ..
    with b c(1) ne o Some p show ?thesis
      by (simp add: check_wireguard_def Let_def del: Unmap.simps split: sum.split)
  qed
qed

lemma check_wireguard_Inr: "check_wireguard wg = Inr (peers, a, ip, m) \<longleftrightarrow>
  key_ok (wg_PrivateKey wg) \<and> list_all peer_ok (wg_Peers wg) \<and> peers = map to_peer (wg_Peers wg) \<and>
  (\<exists>x n. cidr_parts (wg_Address wg) = Some (x, n) \<and> a = Unmap (V6 (As16 x) []) \<and> ip = As16 x \<and>
     m = CIDRMask n (addr_bits x div 8))"
proof (cases "key_ok (wg_PrivateKey wg)")
  case False
  with check_wireguard_bad_key show ?thesis by fastforce
next
  case True
  note c = check_wireguard_key [OF True]
  show ?thesis
  proof (cases "cidr_parts (wg_Address wg)")
    case None
    with c show ?thesis by (auto split: sum.split)
  next
    case (Some p)
    obtain x n where p: "p = (x, n)" by (cases p)
    show ?thesis
    proof (cases "buildPeers (wg_Peers wg)")
      case (Inl e)
      then have "\<not> list_all peer_ok (wg_Peers wg)"
        using build_peers_from_Inr [of 0 "wg_Peers wg"] by (auto simp: buildPeers_def)
      with c Some p Inl show ?thesis by simp
    next
      case (Inr out)
      then have "list_all peer_ok (wg_Peers wg)" "out = map to_peer (wg_Peers wg)"
        by (simp_all only: buildPeers_def build_peers_from_Inr)
      with c Some p Inr True show ?thesis by (auto simp del: Unmap.simps)
    qed
  qed
qed

subsection \<open>ApplyWireGuard\<close>

lemma ApplyWireGuard_run:
  "check_wireguard wg = Inr (peers, a, ip, m) \<Longrightarrow>
   run_state (ApplyWireGuard K BU (Some wg)) tr =
     (case run_state (stagePrivateKey K (wg_PrivateKey wg)) tr of
        (Inl e, t) \<Rightarrow> (Some (Some e), t)
      | (Inr f, t) \<Rightarrow>
          (case run_state (bring_up_step K BU wg (server_config wg f a peers) ip m) t of
             (r, u) \<Rightarrow> (r, if r = None \<or> f = [] then u else u @ [ERemove f])))"
  by (simp add: ApplyWireGuard_def cleanupTmpKey_def io_defs split: prod.split sum.split)

lemma key_path [simp]: "sc_PrivateKeyPath (server_config wg f a peers) = f"
  "sc_InterfaceName (server_config wg f a peers) = wg_iface wg"
  by (simp_all add: server_config_def)

text \<open>
  C24. The private key leaves no file behind: whenever \<open>ApplyWireGuard\<close> returns, it has either touched no
  file or, as its last act, removed the one temporary file it created, whatever failed in between;
  the key is written to that file only, with mode 0600, and the library is handed the path only after
  the file was written and closed without error.
\<close>

theorem key_file_removed:
  assumes "\<forall>t f. k_temp K t ''wg-priv-*'' = Inr f \<longrightarrow> f \<noteq> []"
    "run_state (ApplyWireGuard K BU (Some wg)) tr = (Some r, tr')"
  shows "tr' = tr \<or> (\<exists>e. tr' = tr @ [ECreateTemp (Inl e)]) \<or>
    (\<exists>f mid. tr' = tr @ ECreateTemp (Inr f) # mid @ [ERemove f] \<and>
       list_all (key_event (wg_PrivateKey wg) f) mid \<and>
       ((\<exists>i g b. EBringUp i g b \<in> set mid) \<longrightarrow> take 3 mid = staged (wg_PrivateKey wg) f))"
proof (cases "check_wireguard wg")
  case (Inl e)
  with assms(2) show ?thesis by (simp add: ApplyWireGuard_def)
next
  case (Inr c)
  obtain peers a ip m where c: "c = (peers, a, ip, m)" by (cases c)
  obtain s t where st: "run_state (stagePrivateKey K (wg_PrivateKey wg)) tr = (s, t)" by fastforce
  note run = assms(2) [unfolded ApplyWireGuard_run [OF Inr [unfolded c]] st]
  from st show ?thesis
  proof (cases rule: stage_cases)
    case (none e)
    with run show ?thesis by (auto simp: stage_error_def)
  next
    case (failed f mid e)
    with run show ?thesis by (simp add: stage_error_def) blast
  next
    case (ready f)
    from ready(3) assms(1) have f: "f \<noteq> []" by blast
    obtain q u where q: "run_state (bring_up_step K BU wg (server_config wg f a peers) ip m) t = (q, u)" by fastforce
    from q obtain es where es: "u = t @ es" "list_all (key_event (wg_PrivateKey wg) f) es"
      by (rule bring_up_cases [where key = "wg_PrivateKey wg"]) auto
    from run ready(1) q f have tr': "tr' = u @ [ERemove f]" by (simp split: if_splits)
    have "list_all (key_event (wg_PrivateKey wg) f) (staged (wg_PrivateKey wg) f @ es)"
      "take 3 (staged (wg_PrivateKey wg) f @ es) = staged (wg_PrivateKey wg) f"
      using es(2) by (simp_all add: staged_def)
    with tr' es(1) ready(2) show ?thesis
      by (intro disjI2 exI [of _ f] exI [of _ "staged (wg_PrivateKey wg) f @ es"]) simp
  qed
qed

definition wireguard_config_ok :: "WireGuard \<Rightarrow> bool" where
  "wireguard_config_ok wg \<longleftrightarrow> key_ok (wg_PrivateKey wg) \<and> list_all peer_ok (wg_Peers wg) \<and>
     cidr_parts (wg_Address wg) \<noteq> None"

text \<open>
  What happened when the overlay of the configuration is up: the address was asked for under the
  index that the name of the overlay interface resolves to once the library has brought it up.
\<close>

definition overlay_up :: "kernel \<Rightarrow> bring_up \<Rightarrow> WireGuard \<Rightarrow> trace \<Rightarrow> trace \<Rightarrow> bool" where
  "overlay_up K BU wg tr es \<longleftrightarrow>
     (\<exists>f x n i u. cidr_parts (wg_Address wg) = Some (x, n) \<and>
        BU (tr @ ECreateTemp (Inr f) # staged (wg_PrivateKey wg) f)
           \<lparr>sc_InterfaceName = wg_iface wg, sc_PrivateKeyPath = f, sc_LocalIP = Unmap (V6 (As16 x) []),
            sc_ListenPort = wg_ListenPort wg, sc_Peers = map to_peer (wg_Peers wg)\<rparr> = None \<and>
        k_ifindex K (tr @ ECreateTemp (Inr f) # staged (wg_PrivateKey wg) f @ [EBringUp (wg_iface wg) f None])
          (if wg_Interface wg = [] then ''wg0'' else wg_Interface wg) = Inr i \<and>
        (u = Some None \<or> (\<exists>e. u = Some (Some e) \<and> errors_is e EEXIST)) \<and>
        es = ECreateTemp (Inr f) # staged (wg_PrivateKey wg) f @
          [EBringUp (wg_iface wg) f None,
           ENetlink (addrAdd_msg (word_of_int i) (As16 x) (CIDRMask n (addr_bits x div 8))) u] @
          (if f = [] then [] else [ERemove f]))"

lemma ApplyWireGuard_up:
  assumes "check_wireguard wg = Inr c" "run_state (ApplyWireGuard K BU (Some wg)) tr = (Some None, tr')"
  shows "wireguard_config_ok wg \<and> (\<exists>es. tr' = tr @ es \<and> overlay_up K BU wg tr es)"
proof -
  obtain peers a ip m where c: "c = (peers, a, ip, m)" by (cases c)
  from assms(1) c obtain x n where k: "wireguard_config_ok wg" "peers = map to_peer (wg_Peers wg)"
    "cidr_parts (wg_Address wg) = Some (x, n)" "a = Unmap (V6 (As16 x) [])" "ip = As16 x"
    "m = CIDRMask n (addr_bits x div 8)"
    by (auto simp: check_wireguard_Inr wireguard_config_ok_def simp del: Unmap.simps As16.simps)
  obtain s t where st: "run_state (stagePrivateKey K (wg_PrivateKey wg)) tr = (s, t)" by fastforce
  note run = assms(2) [unfolded ApplyWireGuard_run [OF assms(1) [unfolded c]] st]
  then obtain f where f: "s = Inr f" by (cases s) auto
  from st f have t: "t = tr @ ECreateTemp (Inr f) # staged (wg_PrivateKey wg) f"
    by (cases rule: stage_cases) (auto simp: stage_error_def)
  obtain q u where q: "run_state (bring_up_step K BU wg (server_config wg f a peers) ip m) t = (q, u)" by fastforce
  with run f have r: "q = Some None" "tr' = u @ (if f = [] then [] else [ERemove f])"
    by (auto split: if_splits)
  from q obtain es where es: "u = t @ es" "BU t (server_config wg f a peers) = None"
    "\<exists>i v. k_ifindex K (t @ [EBringUp (wg_iface wg) f None]) (wg_iface wg) = Inr i \<and>
      es = [EBringUp (wg_iface wg) f None, ENetlink (addrAdd_msg (word_of_int i) ip m) v] \<and>
      (v = Some None \<or> (\<exists>e. v = Some (Some e) \<and> errors_is e EEXIST))"
    by (rule bring_up_cases) (use r(1) in auto)
  from es(3) obtain i v where "k_ifindex K (t @ [EBringUp (wg_iface wg) f None]) (wg_iface wg) = Inr i"
    "es = [EBringUp (wg_iface wg) f None, ENetlink (addrAdd_msg (word_of_int i) ip m) v]"
    "v = Some None \<or> (\<exists>e. v = Some (Some e) \<and> errors_is e EEXIST)" by blast
  with es(1,2) r(2) t k show ?thesis
    unfolding overlay_up_def server_config_def wg_iface_def
    by (intro conjI exI [of _ "ECreateTemp (Inr f) # staged (wg_PrivateKey wg) f @ es @ (if f = [] then [] else [ERemove f])"]
        exI [of _ f] exI [of _ x] exI [of _ n] exI [of _ i] exI [of _ v])
      (simp_all del: Unmap.simps As16.simps)
qed

text \<open>
  C23. A malformed overlay configuration (a key that is not 32 bytes, an address, peer key or prefix that
  does not parse, no address) is an error before anything is touched.  And when \<open>ApplyWireGuard\<close> returns
  nil, the library brought up the named interface, or wg0, with the address, port and peers of the
  configuration, the name of that interface resolved to an index, and the kernel was then asked for
  the address with its full prefix on the interface of that index and accepted it or had it already.
\<close>

theorem ApplyWireGuard_correct:
  "(\<not> wireguard_config_ok wg \<longrightarrow> (\<exists>e. run_state (ApplyWireGuard K BU (Some wg)) tr = (Some (Some e), tr))) \<and>
   (run_state (ApplyWireGuard K BU (Some wg)) tr = (Some None, tr') \<longrightarrow>
     wireguard_config_ok wg \<and> (\<exists>es. tr' = tr @ es \<and> overlay_up K BU wg tr es))"
proof (cases "check_wireguard wg")
  case (Inl e)
  then show ?thesis by (simp add: ApplyWireGuard_def)
next
  case (Inr c)
  moreover have "wireguard_config_ok wg"
  proof -
    obtain peers a ip m where "c = (peers, a, ip, m)" by (cases c)
    with Inr show ?thesis by (auto simp: check_wireguard_Inr wireguard_config_ok_def)
  qed
  ultimately show ?thesis using ApplyWireGuard_up by blast
qed

subsection \<open>Examples\<close>

definition example_wg :: WireGuard where
  "example_wg = \<lparr>wg_Interface = [], wg_PrivateKey = b64_encode (replicate 32 7), wg_ListenPort = 51820,
     wg_Address = ''10.9.0.1/24'', wg_Peers = []\<rparr>"

lemma example_overlay: "cidr_parts ''10.9.0.1/24'' = Some (V4 [10, 9, 0, 1], 24)"
  by (simp add: cidr_parts_def cut_def ParseAddr_def parse_v4_def is_digit_def digit_val_def dtoi_def)

lemma example_check: "\<exists>c. check_wireguard example_wg = Inr c"
proof -
  have "check_wireguard example_wg =
      Inr ([], Unmap (V6 (As16 (V4 [10, 9, 0, 1])) []), As16 (V4 [10, 9, 0, 1]), CIDRMask 24 4)"
    by (simp add: check_wireguard_Inr example_wg_def example_overlay key_ok_def keyLen_def
        del: Unmap.simps As16.simps)
  then show ?thesis by blast
qed

theorem key_file_removed_witness:
  "\<exists>f mid. snd (run_state (ApplyWireGuard (kernel_with (\<lambda>_. None)) (\<lambda>_ _. Some (Errno EPERM)) (Some example_wg)) [])
      = ECreateTemp (Inr f) # mid @ [ERemove f] \<and>
    list_all (key_event (wg_PrivateKey example_wg) f) mid"
proof -
  let ?K = "kernel_with (\<lambda>_. None)" let ?B = "\<lambda>_ _. Some (Errno EPERM)"
  obtain peers a ip m where c: "check_wireguard example_wg = Inr (peers, a, ip, m)"
    using example_check by (metis prod_cases4)
  have "\<exists>r tr'. run_state (ApplyWireGuard ?K ?B (Some example_wg)) [] = (Some r, tr' @ [ERemove ''/tmp/wg-priv-1''])"
    unfolding ApplyWireGuard_run [OF c]
    by (simp add: stagePrivateKey_def bring_up_step_def io_defs kernel_with_def)
  then obtain r tr' where run: "run_state (ApplyWireGuard ?K ?B (Some example_wg)) [] =
      (Some r, tr' @ [ERemove ''/tmp/wg-priv-1''])" by blast
  have "\<forall>t f. k_temp ?K t ''wg-priv-*'' = Inr f \<longrightarrow> f \<noteq> []" by (simp add: kernel_with_def)
  from key_file_removed [OF this run] run show ?thesis by auto
qed

theorem ApplyWireGuard_correct_witness:
  "\<exists>es. run_state (ApplyWireGuard (kernel_with (\<lambda>_. None)) (\<lambda>_ _. None) (Some example_wg)) [] = (Some None, es) \<and>
    overlay_up (kernel_with (\<lambda>_. None)) (\<lambda>_ _. None) example_wg [] es"
proof -
  let ?K = "kernel_with (\<lambda>_. None)"
  obtain peers a ip m where c: "check_wireguard example_wg = Inr (peers, a, ip, m)"
    using example_check by (metis prod_cases4)
  have "\<exists>es. run_state (ApplyWireGuard ?K (\<lambda>_ _. None) (Some example_wg)) [] = (Some None, es)"
    unfolding ApplyWireGuard_run [OF c]
    by (simp add: stagePrivateKey_def bring_up_step_def ifaceIndex_def talk_def nl_ok_acks io_defs kernel_with_def)
  then obtain es where run: "run_state (ApplyWireGuard ?K (\<lambda>_ _. None) (Some example_wg)) [] = (Some None, es)"
    by blast
  from ApplyWireGuard_correct [THEN conjunct2, THEN mp, OF run] run show ?thesis by auto
qed

end
