(* ===== verification/Firewall_Rules.thy ===== *)
theory Firewall_Rules
  imports Net_Addr
begin

text \<open>
  The firewall's desired state (src/pkg/pod/firewall.go): a list of rules, their validation, and
  loading them from a file.  Decoding the JSON text is a parameter.
\<close>

record FirewallRule =
  fr_Direction :: string
  fr_Protocol :: string
  fr_PortMin :: "16 word"
  fr_PortMax :: "16 word"
  fr_RemoteCIDR :: string

record Firewall =
  fw_Rules :: "FirewallRule list"

definition FirewallRule_Validate :: "FirewallRule \<Rightarrow> goerr option" where
  "FirewallRule_Validate r =
     (if fr_Direction r \<noteq> ''ingress'' \<and> fr_Direction r \<noteq> ''egress''
      then Some (Errorf ''direction %q: must be ingress or egress'' [AStr (fr_Direction r)])
      else if fr_Protocol r \<noteq> '''' \<and> fr_Protocol r \<noteq> ''tcp'' \<and> fr_Protocol r \<noteq> ''udp'' \<and> fr_Protocol r \<noteq> ''icmp''
      then Some (Errorf ''protocol %q: must be tcp, udp, icmp or empty'' [AStr (fr_Protocol r)])
      else if (fr_PortMin r \<noteq> 0 \<or> fr_PortMax r \<noteq> 0) \<and> fr_Protocol r \<noteq> ''tcp'' \<and> fr_Protocol r \<noteq> ''udp''
      then Some (Errorf ''port range requires tcp or udp, got %q'' [AStr (fr_Protocol r)])
      else if (fr_PortMin r \<noteq> 0 \<or> fr_PortMax r \<noteq> 0) \<and> fr_PortMax r < fr_PortMin r
      then Some (Errorf ''port_min %d > port_max %d'' [AInt (uint (fr_PortMin r)), AInt (uint (fr_PortMax r))])
      else if fr_RemoteCIDR r \<noteq> [] \<and> ParsePrefix (fr_RemoteCIDR r) = None
      then Some (Wrapf ''remote_cidr %q: %w'' [AStr (fr_RemoteCIDR r)] (Errorf ''netip.ParsePrefix'' []))
      else None)"

fun validate_rules :: "nat \<Rightarrow> FirewallRule list \<Rightarrow> goerr option" where
  "validate_rules i [] = None"
| "validate_rules i (r # rs) =
     (case FirewallRule_Validate r of
        Some e \<Rightarrow> Some (Wrapf ''rule[%d]: %w'' [AInt (int i)] e)
      | None \<Rightarrow> validate_rules (Suc i) rs)"

definition Firewall_Validate :: "Firewall \<Rightarrow> goerr option" where
  "Firewall_Validate f = validate_rules 0 (fw_Rules f)"

definition LoadFirewall ::
    "kernel \<Rightarrow> (string \<Rightarrow> Firewall result) \<Rightarrow> string \<Rightarrow> Firewall option result io" where
  "LoadFirewall K decode path = do {
     r \<leftarrow> os_read_file K path;
     ret (case r of
            Inl e \<Rightarrow> if is_not_exist e then Inr None else Inl e
          | Inr b \<Rightarrow>
              (case decode b of
                 Inl e \<Rightarrow> Inl (Wrapf ''firewall config %s: %w'' [AStr path] e)
               | Inr fw \<Rightarrow>
                   (case Firewall_Validate fw of
                      Some e \<Rightarrow> Inl (Wrapf ''firewall config %s: %w'' [AStr path] e)
                    | None \<Rightarrow> Inr (Some fw))))
   }"

definition rule_fault :: "nat \<Rightarrow> FirewallRule \<Rightarrow> goerr option" where
  "rule_fault i r = map_option (Wrapf ''rule[%d]: %w'' [AInt (int i)]) (FirewallRule_Validate r)"

interpretation rule_loop: indexed_validator rule_fault validate_rules
  by unfold_locales (auto simp: rule_fault_def split: option.split)

text \<open>What a well-formed rule is, without reference to the order of the checks.\<close>

definition rule_ok :: "FirewallRule \<Rightarrow> bool" where
  "rule_ok r \<longleftrightarrow> fr_Direction r \<in> {''ingress'', ''egress''} \<and>
     fr_Protocol r \<in> {'''', ''tcp'', ''udp'', ''icmp''} \<and>
     (fr_Protocol r \<in> {'''', ''icmp''} \<longrightarrow> fr_PortMin r = 0 \<and> fr_PortMax r = 0) \<and>
     fr_PortMin r \<le> fr_PortMax r \<and>
     (fr_RemoteCIDR r \<noteq> [] \<longrightarrow> (\<exists>ip n. ParsePrefix (fr_RemoteCIDR r) = Some (ip, n)))"

lemma FirewallRule_Validate_None_iff: "FirewallRule_Validate r = None \<longleftrightarrow> rule_ok r"
  by (auto simp: FirewallRule_Validate_def rule_ok_def not_less)

lemma Firewall_Validate_None_iff: "Firewall_Validate f = None \<longleftrightarrow> list_all rule_ok (fw_Rules f)"
  using rule_loop.loop_None_iff [of 0 "fw_Rules f"]
  by (simp add: Firewall_Validate_def rule_fault_def FirewallRule_Validate_None_iff list_all_length)

text \<open>
  \<open>Firewall.Validate\<close> accepts a ruleset exactly when every rule has a known direction and protocol,
  ports only for TCP and UDP and in order, and a peer prefix that parses; otherwise the error names
  the index of the first rule that has a fault.
\<close>

theorem Firewall_Validate_correct:
  "(Firewall_Validate f = None \<longleftrightarrow> list_all rule_ok (fw_Rules f)) \<and>
   (\<forall>e. Firewall_Validate f = Some e \<longrightarrow>
     (\<exists>k < length (fw_Rules f). \<not> rule_ok (fw_Rules f ! k) \<and> (\<forall>j < k. rule_ok (fw_Rules f ! j)) \<and>
       (\<exists>e'. e = Wrapf ''rule[%d]: %w'' [AInt (int k)] e')))"
proof (intro conjI allI impI)
  show "Firewall_Validate f = None \<longleftrightarrow> list_all rule_ok (fw_Rules f)"
    by (rule Firewall_Validate_None_iff)
  fix e assume "Firewall_Validate f = Some e"
  then obtain k where k: "k < length (fw_Rules f)" "rule_fault k (fw_Rules f ! k) = Some e"
    "\<forall>j < k. rule_fault j (fw_Rules f ! j) = None"
    using rule_loop.loop_Some_iff [of 0 "fw_Rules f" e] by (auto simp: Firewall_Validate_def)
  then show "\<exists>k < length (fw_Rules f). \<not> rule_ok (fw_Rules f ! k) \<and> (\<forall>j < k. rule_ok (fw_Rules f ! j)) \<and>
       (\<exists>e'. e = Wrapf ''rule[%d]: %w'' [AInt (int k)] e')"
    by (auto simp: rule_fault_def FirewallRule_Validate_None_iff [symmetric])
qed

theorem Firewall_Validate_correct_witness:
  "\<exists>e'. Firewall_Validate \<lparr>fw_Rules = [\<lparr>fr_Direction = ''ingress'', fr_Protocol = ''tcp'', fr_PortMin = 22,
      fr_PortMax = 22, fr_RemoteCIDR = []\<rparr>, \<lparr>fr_Direction = ''bogus'', fr_Protocol = [], fr_PortMin = 0,
      fr_PortMax = 0, fr_RemoteCIDR = []\<rparr>]\<rparr> = Some (Wrapf ''rule[%d]: %w'' [AInt 1] e')"
proof -
  let ?a = "\<lparr>fr_Direction = ''ingress'', fr_Protocol = ''tcp'', fr_PortMin = 22, fr_PortMax = 22, fr_RemoteCIDR = []\<rparr>"
  let ?b = "\<lparr>fr_Direction = ''bogus'', fr_Protocol = [], fr_PortMin = 0, fr_PortMax = 0, fr_RemoteCIDR = []\<rparr>"
  have ok: "rule_ok ?a" "\<not> rule_ok ?b" by (simp_all add: rule_ok_def)
  note c = Firewall_Validate_correct [of "\<lparr>fw_Rules = [?a, ?b]\<rparr>"]
  from c ok obtain e where e: "Firewall_Validate \<lparr>fw_Rules = [?a, ?b]\<rparr> = Some e" by fastforce
  with c obtain k e' where "k < 2" "\<not> rule_ok ([?a, ?b] ! k)" "e = Wrapf ''rule[%d]: %w'' [AInt (int k)] e'"
    by auto
  moreover have "k = 1" using calculation ok(1) by (cases k) auto
  ultimately show ?thesis using e by auto
qed

end
