(* ===== verification/Config_Load.thy ===== *)
theory Config_Load
  imports Firewall_Rules Pod_Spec
begin

text \<open>
  Reading the configuration files of the config share: \<open>pod.Load\<close> (spec.go), \<open>LoadWireGuard\<close>
  (wireguard.go), \<open>LoadShareMounts\<close> (share.go) and, from the theory of its rules, \<open>LoadFirewall\<close>.
  The JSON decoder is a parameter.  The three optional files share a contract, stated as a locale.
\<close>

subsection \<open>The loaders\<close>

definition Spec_Load :: "kernel \<Rightarrow> (string \<Rightarrow> Spec result) \<Rightarrow> string \<Rightarrow> Spec result io" where
  "Spec_Load K decode path = do {
     r \<leftarrow> os_read_file K path;
     ret (case r of
            Inl e \<Rightarrow> Inl e
          | Inr b \<Rightarrow>
              (case decode b of
                 Inl e \<Rightarrow> Inl (Wrapf ''pod spec %s: %w'' [AStr path] e)
               | Inr s \<Rightarrow>
                   (case Spec_Validate s of
                      Some e \<Rightarrow> Inl (Wrapf ''pod spec %s: %w'' [AStr path] e)
                    | None \<Rightarrow> Inr s)))
   }"

definition LoadWireGuard ::
    "kernel \<Rightarrow> (string \<Rightarrow> WireGuard result) \<Rightarrow> string \<Rightarrow> WireGuard option result io" where
  "LoadWireGuard K decode path = do {
     r \<leftarrow> os_read_file K path;
     ret (case r of
            Inl e \<Rightarrow> if is_not_exist e then Inr None else Inl e
          | Inr b \<Rightarrow>
              (case decode b of
                 Inl e \<Rightarrow> Inl (Wrapf ''wireguard config %s: %w'' [AStr path] e)
               | Inr wg \<Rightarrow>
                   (case WireGuard_Validate wg of
                      Some e \<Rightarrow> Inl (Wrapf ''wireguard config %s: %w'' [AStr path] e)
                    | None \<Rightarrow> Inr (Some wg))))
   }"

text \<open>The loop of \<open>LoadShareMounts\<close> returns the error of the first mount that is refused.\<close>

fun first_fault :: "ShareMount list \<Rightarrow> goerr option" where
  "first_fault [] = None"
| "first_fault (m # ms) = (case ShareMount_Validate m of Some e \<Rightarrow> Some e | None \<Rightarrow> first_fault ms)"

definition LoadShareMounts ::
    "kernel \<Rightarrow> (string \<Rightarrow> ShareMount list result) \<Rightarrow> string \<Rightarrow> ShareMount list option result io" where
  "LoadShareMounts K decode path = do {
     r \<leftarrow> os_read_file K path;
     ret (case r of
            Inl e \<Rightarrow> if is_not_exist e then Inr None else Inl e
          | Inr b \<Rightarrow>
              (case decode b of
                 Inl e \<Rightarrow> Inl (Wrapf ''share mounts %s: %w'' [AStr path] e)
               | Inr ms \<Rightarrow>
                   (case first_fault ms of
                      Some e \<Rightarrow> Inl (Wrapf ''share mounts %s: %w'' [AStr path] e)
                    | None \<Rightarrow> Inr (Some ms))))
   }"

interpretation fault_loop: indexed_validator "\<lambda>_. ShareMount_Validate" "\<lambda>_. first_fault"
  by unfold_locales (auto split: option.splits)

lemma first_fault_iff: "first_fault ms = None \<longleftrightarrow> list_all share_mount_ok ms"
  using fault_loop.loop_None_iff [of ms] by (simp add: ShareMount_Validate_iff list_all_length)

subsection \<open>The contract of an optional file\<close>

locale optional_config =
  fixes load :: "kernel \<Rightarrow> (string \<Rightarrow> 'a result) \<Rightarrow> string \<Rightarrow> 'a option result io"
    and validate :: "'a \<Rightarrow> goerr option"
    and wrap :: "string \<Rightarrow> goerr \<Rightarrow> goerr"
  assumes run_load: "run_state (load K decode p) tr =
      (case k_read K tr p of
         Inl e \<Rightarrow> if is_not_exist e then Inr None else Inl e
       | Inr b \<Rightarrow> (case decode b of
             Inl e \<Rightarrow> Inl (wrap p e)
           | Inr x \<Rightarrow> (case validate x of Some e \<Rightarrow> Inl (wrap p e) | None \<Rightarrow> Inr (Some x))),
       tr @ [ERead p (k_read K tr p)])"
begin

lemma loaded_iff: "fst (run_state (load K decode p) tr) = Inr (Some x) \<longleftrightarrow>
  (\<exists>b. k_read K tr p = Inr b \<and> decode b = Inr x \<and> validate x = None)"
  by (auto simp: run_load split: sum.splits option.splits)

lemma absent_iff: "fst (run_state (load K decode p) tr) = Inr None \<longleftrightarrow>
  (\<exists>e. k_read K tr p = Inl e \<and> is_not_exist e)"
  by (auto simp: run_load split: sum.splits option.splits)

lemma reads_once: "snd (run_state (load K decode p) tr) = tr @ [ERead p (k_read K tr p)]"
  by (simp add: run_load)

end

interpretation wireguard_file: optional_config LoadWireGuard WireGuard_Validate
  "\<lambda>p. Wrapf ''wireguard config %s: %w'' [AStr p]"
  by unfold_locales (simp add: LoadWireGuard_def io_defs)

interpretation shares_file: optional_config LoadShareMounts first_fault
  "\<lambda>p. Wrapf ''share mounts %s: %w'' [AStr p]"
  by unfold_locales (simp add: LoadShareMounts_def io_defs)

interpretation firewall_file: optional_config LoadFirewall Firewall_Validate
  "\<lambda>p. Wrapf ''firewall config %s: %w'' [AStr p]"
  by unfold_locales (simp add: LoadFirewall_def io_defs)

subsection \<open>Properties\<close>

text \<open>
  C33. What a loader returns has been validated and is what the file says, and a missing file is told
  apart from every other failure: the overlay, share and firewall files give nil without an error
  exactly when the file does not exist, so that a read that fails in any other way, a malformed text
  and an invalid content are errors, and the pod file gives an error that \<open>os.IsNotExist\<close>
  recognises exactly then, so a malformed or invalid pod file is never taken for an absent one.
\<close>

theorem loaders_correct:
  "(fst (run_state (LoadWireGuard K dw p) tr) = Inr (Some w) \<longleftrightarrow>
      (\<exists>b. k_read K tr p = Inr b \<and> dw b = Inr w \<and> wireguard_ok w)) \<and>
   (fst (run_state (LoadWireGuard K dw p) tr) = Inr None \<longleftrightarrow> (\<exists>e. k_read K tr p = Inl e \<and> is_not_exist e)) \<and>
   (fst (run_state (LoadShareMounts K dm p) tr) = Inr (Some ms) \<longleftrightarrow>
      (\<exists>b. k_read K tr p = Inr b \<and> dm b = Inr ms \<and> list_all share_mount_ok ms)) \<and>
   (fst (run_state (LoadShareMounts K dm p) tr) = Inr None \<longleftrightarrow> (\<exists>e. k_read K tr p = Inl e \<and> is_not_exist e)) \<and>
   (fst (run_state (LoadFirewall K df p) tr) = Inr (Some f) \<longleftrightarrow>
      (\<exists>b. k_read K tr p = Inr b \<and> df b = Inr f \<and> list_all rule_ok (fw_Rules f))) \<and>
   (fst (run_state (LoadFirewall K df p) tr) = Inr None \<longleftrightarrow> (\<exists>e. k_read K tr p = Inl e \<and> is_not_exist e)) \<and>
   (fst (run_state (Spec_Load K ds p) tr) = Inr s \<longleftrightarrow>
      (\<exists>b. k_read K tr p = Inr b \<and> ds b = Inr s \<and> spec_ok s)) \<and>
   ((\<exists>e. fst (run_state (Spec_Load K ds p) tr) = Inl e \<and> is_not_exist e) \<longleftrightarrow>
      (\<exists>e. k_read K tr p = Inl e \<and> is_not_exist e))"
proof (intro conjI)
  show "fst (run_state (LoadFirewall K df p) tr) = Inr (Some f) \<longleftrightarrow>
      (\<exists>b. k_read K tr p = Inr b \<and> df b = Inr f \<and> list_all rule_ok (fw_Rules f))"
    by (simp add: firewall_file.loaded_iff Firewall_Validate_None_iff)
  show "fst (run_state (Spec_Load K ds p) tr) = Inr s \<longleftrightarrow>
      (\<exists>b. k_read K tr p = Inr b \<and> ds b = Inr s \<and> spec_ok s)"
    by (auto simp: Spec_Load_def io_defs Spec_Validate_None_iff [symmetric] split: sum.splits option.splits)
  show "(\<exists>e. fst (run_state (Spec_Load K ds p) tr) = Inl e \<and> is_not_exist e) \<longleftrightarrow>
      (\<exists>e. k_read K tr p = Inl e \<and> is_not_exist e)"
    by (auto simp: Spec_Load_def io_defs split: sum.splits option.splits)
qed (simp_all add: wireguard_file.loaded_iff wireguard_file.absent_iff shares_file.loaded_iff
    shares_file.absent_iff firewall_file.absent_iff WireGuard_Validate_iff first_fault_iff)

end
