(* ===== verification/Cubefs.thy ===== *)
theory Cubefs
  imports Pod_Spec Go_Os "HOL-Library.AList" "HOL-Library.Multiset"
begin

text \<open>
  pkg/cubefs: the configuration of cfs-client (config.go) and the life of its processes (mount.go):
  \<open>Mount\<close>, \<open>waitMounted\<close>, \<open>isMounted\<close>, \<open>Unmount\<close>, \<open>unmountPath\<close> and the \<open>Registry\<close>.  The JSON encoder
  is a parameter.  A started client is named by its argument vector; a client that was sent SIGKILL
  exits, so the wait for its reaper goroutine ends.  The clock of the kernel counts milliseconds.
\<close>

subsection \<open>Outcomes\<close>

text \<open>A call returns, panics on a nil pointer, or is still waiting when the polls are used up.\<close>

datatype 'a outcome = Returned 'a | Panicked | Waiting

definition proceed :: "'a outcome io \<Rightarrow> ('a \<Rightarrow> 'b outcome io) \<Rightarrow> 'b outcome io" where
  "proceed m f = do { r \<leftarrow> m; (case r of Returned x \<Rightarrow> f x | Panicked \<Rightarrow> ret Panicked | Waiting \<Rightarrow> ret Waiting) }"

subsection \<open>The configuration (config.go)\<close>

definition cfs_Binary :: string where "cfs_Binary = ''cfs-client''"

record clientCfg =
  cc_MountPoint :: string
  cc_VolName :: string
  cc_Owner :: string
  cc_MasterAddr :: string
  cc_LogDir :: string
  cc_LogLevel :: string
  cc_AccessKey :: string
  cc_SecretKey :: string
  cc_SubDir :: string
  cc_ReadOnly :: bool

text \<open>A spec without a CubeFS block is a nil dereference.\<close>

definition clientConfig ::
    "(clientCfg \<Rightarrow> string result) \<Rightarrow> ShareMount \<Rightarrow> string \<Rightarrow> string result outcome" where
  "clientConfig encode spec logDir =
     (case sm_CubeFS spec of
        None \<Rightarrow> Panicked
      | Some c \<Rightarrow> Returned (encode
          \<lparr>cc_MountPoint = sm_MountPoint spec, cc_VolName = cf_Volume c, cc_Owner = cf_Owner c,
           cc_MasterAddr = join_with '','' (cf_Masters c), cc_LogDir = logDir, cc_LogLevel = ''warn'',
           cc_AccessKey = cf_AccessKey c, cc_SecretKey = cf_SecretKey c, cc_SubDir = cf_SubDir c,
           cc_ReadOnly = sm_Readonly spec\<rparr>))"

subsection \<open>Mount points (mount.go)\<close>

definition runRoot :: string where "runRoot = ''/run/weft/cubefs''"

definition mounted_in :: "string \<Rightarrow> string \<Rightarrow> bool" where
  "mounted_in target text \<longleftrightarrow>
     list_ex (\<lambda>l. let fs = str_fields l in 2 \<le> length fs \<and> fs ! 1 = target) (scan_lines text)"

definition isMounted :: "kernel \<Rightarrow> string \<Rightarrow> bool io" where
  "isMounted K target = do {
     r \<leftarrow> os_read_file K ''/proc/mounts'';
     ret (case r of Inl e \<Rightarrow> False | Inr b \<Rightarrow> mounted_in target b)
   }"

text \<open>The polling loop; \<^const>\<open>None\<close> when the polls given are used up.\<close>

fun wait_loop :: "nat \<Rightarrow> kernel \<Rightarrow> string \<Rightarrow> nat \<Rightarrow> nat \<Rightarrow> goerr option option io" where
  "wait_loop 0 K target timeout deadline = ret None"
| "wait_loop (Suc n) K target timeout deadline = do {
     m \<leftarrow> isMounted K target;
     (if m then ret (Some None)
      else do {
        now \<leftarrow> ask (k_now K);
        (if deadline < now
         then ret (Some (Some (Errorf ''mount %s did not appear within %s'' [AStr target, AInt (int timeout)])))
         else do { _ \<leftarrow> time_sleep 200; wait_loop n K target timeout deadline })
      })
   }"

definition waitMounted :: "nat \<Rightarrow> kernel \<Rightarrow> string \<Rightarrow> nat \<Rightarrow> goerr option option io" where
  "waitMounted n K target timeout = do {
     now \<leftarrow> ask (k_now K);
     wait_loop n K target timeout (now + timeout)
   }"

text \<open>The tools tried in turn: not on the path or failing, the next one.\<close>

fun try_unmount :: "kernel \<Rightarrow> string list list \<Rightarrow> bool io" where
  "try_unmount K [] = ret False"
| "try_unmount K (c # cs) = do {
     found \<leftarrow> ask (\<lambda>tr. k_look_path K tr (hd c));
     (if \<not> found then try_unmount K cs
      else do {
        r \<leftarrow> exec_run K c;
        (if fst r = None then ret True else try_unmount K cs)
      })
   }"

definition unmount_commands :: "string \<Rightarrow> string list list" where
  "unmount_commands target =
     [[''fusermount3'', ''-u'', target], [''fusermount'', ''-u'', target], [''umount'', target]]"

definition unmountPath :: "kernel \<Rightarrow> string \<Rightarrow> goerr option io" where
  "unmountPath K target = do {
     ok \<leftarrow> try_unmount K (unmount_commands target);
     ret (if ok then None
          else Some (Errorf ''could not unmount %s (no working fusermount/umount)'' [AStr target]))
   }"

subsection \<open>Mount and Unmount\<close>

text \<open>
  A live mount: the path, the client by its arguments, its log file when that is open, and whether
  the channel \<open>exited\<close> is known to be closed.
\<close>

record Mounted =
  md_mountPoint :: string
  md_cmd :: "string list"
  md_logf :: "string option"
  md_exited :: bool

definition kill_and_wait :: "string list \<Rightarrow> unit io" where
  "kill_and_wait argv = do {
     _ \<leftarrow> call (\<lambda>_. ()) (\<lambda>_. EKillProc argv);
     call (\<lambda>_. ()) (\<lambda>_. EReapProc argv)
   }"

definition close_log :: "kernel \<Rightarrow> string option \<Rightarrow> unit io" where
  "close_log K logf =
     (case logf of None \<Rightarrow> ret () | Some f \<Rightarrow> do { _ \<leftarrow> file_close K f; ret () })"

text \<open>
  The method works on the object itself: afterwards its log is nil and its client gone, also when the
  path could not be unmounted.  Killing and waiting for a client that is gone does nothing.
\<close>

definition Unmount :: "kernel \<Rightarrow> Mounted \<Rightarrow> (goerr option \<times> Mounted) io" where
  "Unmount K m = do {
     uerr \<leftarrow> unmountPath K (md_mountPoint m);
     _ \<leftarrow> (if md_exited m then ret () else kill_and_wait (md_cmd m));
     _ \<leftarrow> close_log K (md_logf m);
     ret (uerr, m\<lparr>md_logf := None, md_exited := True\<rparr>)
   }"

definition log_dir :: "ShareMount \<Rightarrow> string" where
  "log_dir spec = path_join [path_join [runRoot, sm_ID spec], ''log'']"

definition cfg_path :: "ShareMount \<Rightarrow> string" where
  "cfg_path spec = path_join [path_join [runRoot, sm_ID spec], ''config.json'']"

definition client_argv :: "ShareMount \<Rightarrow> string list" where
  "client_argv spec = [cfs_Binary, ''-f'', ''-c'', cfg_path spec]"

definition mount_polls :: nat where "mount_polls = 152"

text \<open>From the creation of the log on: start the client, wait for the mount, stop the client if it does not come.\<close>

definition launch :: "kernel \<Rightarrow> ShareMount \<Rightarrow> Mounted result outcome io" where
  "launch K spec = do {
     let log = path_join [log_dir spec, ''cfs-client.out''];
     le \<leftarrow> os_create K log;
     let logf = (if le = None then Some log else None);
     e \<leftarrow> exec_start K (client_argv spec);
     (case e of
        Some e \<Rightarrow> do { _ \<leftarrow> close_log K logf; ret (Returned (Inl (Wrapf ''start cfs-client: %w'' [] e))) }
      | None \<Rightarrow> do {
          w \<leftarrow> waitMounted mount_polls K (sm_MountPoint spec) 30000;
          (case w of
             None \<Rightarrow> ret Waiting
           | Some (Some e) \<Rightarrow> do {
               _ \<leftarrow> kill_and_wait (client_argv spec);
               _ \<leftarrow> close_log K logf;
               ret (Returned (Inl (Wrapf ''cubefs %q: %w'' [AStr (sm_ID spec)] e)))
             }
           | Some None \<Rightarrow>
               ret (Returned (Inr \<lparr>md_mountPoint = sm_MountPoint spec, md_cmd = client_argv spec,
                 md_logf = logf, md_exited = False\<rparr>)))
        })
   }"

definition cfs_Mount :: "kernel \<Rightarrow> (clientCfg \<Rightarrow> string result) \<Rightarrow> ShareMount \<Rightarrow> Mounted result outcome io" where
  "cfs_Mount K encode spec =
     (if effective_backend spec \<noteq> BackendCubeFS
      then ret (Returned (Inl (Errorf ''cubefs: unsupported backend %q'' [AStr (effective_backend spec)])))
      else do {
        e \<leftarrow> os_mkdir_all K (sm_MountPoint spec);
        (case e of
           Some e \<Rightarrow> ret (Returned (Inl (Wrapf ''mkdir mount point %s: %w'' [AStr (sm_MountPoint spec)] e)))
         | None \<Rightarrow> do {
             e \<leftarrow> os_mkdir_all K (log_dir spec);
             (case e of
                Some e \<Rightarrow> ret (Returned (Inl (Wrapf ''mkdir run dir %s: %w'' [AStr (path_join [runRoot, sm_ID spec])] e)))
              | None \<Rightarrow>
                  (case clientConfig encode spec (log_dir spec) of
                     Panicked \<Rightarrow> ret Panicked
                   | Waiting \<Rightarrow> ret Waiting
                   | Returned (Inl e) \<Rightarrow> ret (Returned (Inl e))
                   | Returned (Inr cfg) \<Rightarrow> do {
                       e \<leftarrow> os_write_file K (cfg_path spec) cfg 384;
                       (case e of
                          Some e \<Rightarrow> ret (Returned (Inl (Wrapf ''write cfs-client config: %w'' [] e)))
                        | None \<Rightarrow> launch K spec)
                     }))
           })
      })"

subsection \<open>The registry\<close>

text \<open>The map of live mounts by id; the order of the list is the order a \<open>range\<close> visits it in.\<close>

type_synonym registry = "(string \<times> Mounted) list"

definition detach :: "kernel \<Rightarrow> registry \<Rightarrow> string \<Rightarrow> (goerr option \<times> registry) io" where
  "detach K reg i =
     (case map_of reg i of
        None \<Rightarrow> ret (None, reg)
      | Some existing \<Rightarrow> do {
          (e, m) \<leftarrow> Unmount K existing;
          ret (e, if e = None then AList.delete i reg else AList.update i m reg)
        })"

definition Registry_Apply ::
    "kernel \<Rightarrow> (clientCfg \<Rightarrow> string result) \<Rightarrow> registry \<Rightarrow> ShareMount \<Rightarrow> (goerr option \<times> registry) outcome io" where
  "Registry_Apply K encode reg spec = do {
     (e, reg) \<leftarrow> detach K reg (sm_ID spec);
     (if e \<noteq> None then ret (Returned (e, reg))
      else if sm_Action spec = MountActionUnmount then ret (Returned (None, reg))
      else proceed (cfs_Mount K encode spec)
        (\<lambda>r. ret (Returned (case r of
            Inl e \<Rightarrow> (Some e, reg)
          | Inr m \<Rightarrow> (None, AList.update (sm_ID spec) m reg)))))
   }"

fun unmount_all :: "kernel \<Rightarrow> goerr option \<Rightarrow> registry \<Rightarrow> goerr option io" where
  "unmount_all K first [] = ret first"
| "unmount_all K first ((i, m) # reg) = do {
     (e, _) \<leftarrow> Unmount K m;
     unmount_all K (if first = None then e else first) reg
   }"

definition UnmountAll :: "kernel \<Rightarrow> registry \<Rightarrow> (goerr option \<times> registry) io" where
  "UnmountAll K reg = do { e \<leftarrow> unmount_all K None reg; ret (e, []) }"

subsection \<open>The polling loop\<close>

text \<open>The clock never goes back, and a sleep takes at least its time.\<close>

definition clock_ok :: "kernel \<Rightarrow> bool" where
  "clock_ok K \<longleftrightarrow> (\<forall>tr ev. k_now K tr \<le> k_now K (tr @ [ev])) \<and>
     (\<forall>tr d. k_now K tr + d \<le> k_now K (tr @ [ESleep d]))"

lemma wait_loop_Suc: "run_state (wait_loop (Suc n) K target timeout deadline) tr =
  (let rd = k_read K tr ''/proc/mounts''; t = tr @ [ERead ''/proc/mounts'' rd] in
   if (case rd of Inl e \<Rightarrow> False | Inr b \<Rightarrow> mounted_in target b) then (Some None, t)
   else if deadline < k_now K t
   then (Some (Some (Errorf ''mount %s did not appear within %s'' [AStr target, AInt (int timeout)])), t)
   else run_state (wait_loop n K target timeout deadline) (t @ [ESleep 200]))"
  by (simp add: isMounted_def io_defs Let_def)

declare wait_loop.simps(2) [simp del]

lemma wait_loop_returns:
  assumes "clock_ok K"
  shows "deadline < k_now K tr + 200 * n \<Longrightarrow>
    \<exists>r. fst (run_state (wait_loop (Suc n) K target timeout deadline) tr) = Some r"
proof (induction n arbitrary: tr)
  case 0
  let ?t = "tr @ [ERead ''/proc/mounts'' (k_read K tr ''/proc/mounts'')]"
  have "k_now K tr \<le> k_now K ?t" using assms unfolding clock_ok_def by blast
  with 0 have "deadline < k_now K ?t" by simp
  then show ?case by (simp add: wait_loop_Suc Let_def)
next
  case (Suc n)
  let ?t = "tr @ [ERead ''/proc/mounts'' (k_read K tr ''/proc/mounts'')]"
  have "k_now K tr \<le> k_now K ?t" "k_now K ?t + 200 \<le> k_now K (?t @ [ESleep 200])"
    using assms unfolding clock_ok_def by blast+
  with Suc.prems have "deadline < k_now K (?t @ [ESleep 200]) + 200 * n" by simp
  from Suc.IH [OF this] show ?case by (subst wait_loop_Suc) (simp add: Let_def)
qed

text \<open>What a loop that returned has seen: a nil means that its last read listed the mount.\<close>

lemma wait_loop_seen:
  "run_state (wait_loop n K target timeout deadline) tr = (Some None, tr') \<Longrightarrow>
   \<exists>es b. tr' = tr @ es @ [ERead ''/proc/mounts'' (Inr b)] \<and> mounted_in target b"
proof (induction n arbitrary: tr)
  case (Suc n)
  let ?t = "tr @ [ERead ''/proc/mounts'' (k_read K tr ''/proc/mounts'')]"
  show ?case
  proof (cases "\<exists>b. k_read K tr ''/proc/mounts'' = Inr b \<and> mounted_in target b")
    case True
    with Suc.prems show ?thesis by (auto simp: wait_loop_Suc Let_def)
  next
    case False
    with Suc.prems have "run_state (wait_loop n K target timeout deadline) (?t @ [ESleep 200]) = (Some None, tr')"
      by (auto simp: wait_loop_Suc Let_def split: sum.splits if_splits)
    from Suc.IH [OF this] show ?thesis by auto
  qed
qed simp

lemma waitMounted_finishes:
  assumes "clock_ok K"
  shows "\<exists>r. fst (run_state (waitMounted mount_polls K target 30000) tr) = Some r"
proof -
  have "k_now K tr + 30000 < k_now K tr + 200 * 151" by simp
  moreover have "Suc 151 = 152" by simp
  ultimately have "\<exists>r. fst (run_state (wait_loop 152 K target 30000 (k_now K tr + 30000)) tr) = Some r"
    using wait_loop_returns [OF assms, of "k_now K tr + 30000" tr 151] by metis
  then show ?thesis
    unfolding waitMounted_def mount_polls_def by simp
qed

definition seen_mounted :: "string \<Rightarrow> trace \<Rightarrow> bool" where
  "seen_mounted target tr \<longleftrightarrow> (\<exists>es b. tr = es @ [ERead ''/proc/mounts'' (Inr b)] \<and> mounted_in target b)"

lemma waitMounted_seen:
  "run_state (waitMounted n K target timeout) tr = (Some None, tr') \<Longrightarrow> seen_mounted target tr'"
  using wait_loop_seen [of n K target timeout "k_now K tr + timeout" tr tr']
  by (auto simp: seen_mounted_def waitMounted_def simp flip: append_assoc)

text \<open>
  C25. Waiting for a mount ends: on a clock that advances by at least the time slept, \<open>waitMounted\<close> returns
  within 152 polls of 200 ms for its 30 seconds, nil only after \<open>/proc/mounts\<close> listed the mount point
  in the last read, and an error otherwise.
\<close>

theorem waitMounted_returns:
  assumes "clock_ok K"
  shows "\<exists>r tr'. run_state (waitMounted mount_polls K target 30000) tr = (Some r, tr') \<and>
    (r = None \<longrightarrow> seen_mounted target tr')"
proof -
  obtain q tr' where q: "run_state (waitMounted mount_polls K target 30000) tr = (q, tr')" by fastforce
  with waitMounted_finishes [OF assms, of target tr] obtain r where "q = Some r" by auto
  with q waitMounted_seen show ?thesis by blast
qed

text \<open>A clock that counts the time slept, for the witnesses.\<close>

fun clock :: "trace \<Rightarrow> nat" where
  "clock [] = 0"
| "clock (ESleep d # tr) = d + clock tr"
| "clock (_ # tr) = clock tr"

lemma clock_append [simp]: "clock (tr @ tr') = clock tr + clock tr'"
  by (induction tr rule: clock.induct) simp_all

lemma clock_clock_ok: "clock_ok (K\<lparr>k_now := clock\<rparr>)"
  by (simp add: clock_ok_def)

theorem waitMounted_returns_witness:
  "\<exists>r tr'. run_state (waitMounted mount_polls (kernel_with (\<lambda>_. None)\<lparr>k_now := clock\<rparr>) ''/mnt'' 30000) [] =
    (Some r, tr')"
  using waitMounted_returns [OF clock_clock_ok, of "kernel_with (\<lambda>_. None)" "''/mnt''" "[]"] by blast

subsection \<open>The clients that run\<close>

text \<open>
  The clients started and not yet waited for by the caller, by their arguments.  A client that exits on
  its own is among them until then; \<open>clients\<close> below tells the two apart.
\<close>

fun client_step :: "event \<Rightarrow> string list multiset \<Rightarrow> string list multiset" where
  "client_step (EStart argv None) L = add_mset argv L"
| "client_step (EReapProc argv) L = L - {#argv#}"
| "client_step _ L = L"

definition live :: "trace \<Rightarrow> string list multiset" where
  "live tr = fold client_step tr {#}"

fun clientless :: "event \<Rightarrow> bool" where
  "clientless (EStart argv None) = False"
| "clientless (EReapProc argv) = False"
| "clientless _ = True"

lemma client_step_clientless: "clientless ev \<Longrightarrow> client_step ev L = L"
  by (cases "(ev, L)" rule: client_step.cases) simp_all

lemma fold_clientless: "list_all clientless es \<Longrightarrow> fold client_step es L = L"
  by (induction es) (simp_all add: client_step_clientless)

lemma live_clientless: "list_all clientless es \<Longrightarrow> live (tr @ es) = live tr"
  by (simp add: live_def fold_clientless)

lemma live_append1 [simp]: "live (tr @ [ev]) = client_step ev (live tr)"
  by (simp add: live_def)

lemma clientless_live: "appends clientless m \<Longrightarrow> live (snd (run_state m tr)) = live tr"
  unfolding appends_def by (metis live_clientless)

text \<open>
  The processes behind a trace: \<open>R\<close> run, \<open>E\<close> have ended on their own (the network dropped, memory ran
  out) without the caller having noticed.  A client may end at any moment, and a call that kills and
  waits for one that has ended already returns at once.
\<close>

inductive clients :: "trace \<Rightarrow> string list multiset \<Rightarrow> string list multiset \<Rightarrow> bool" where
  none: "clients [] {#} {#}"
| started: "clients tr R E \<Longrightarrow> clients (tr @ [EStart a None]) (add_mset a R) E"
| ended: "clients tr (add_mset a R) E \<Longrightarrow> clients tr R (add_mset a E)"
| stopped: "clients tr (add_mset a R) E \<Longrightarrow> clients (tr @ [EReapProc a]) R E"
| awaited: "clients tr R (add_mset a E) \<Longrightarrow> clients (tr @ [EReapProc a]) R E"
| absent: "clients tr R E \<Longrightarrow> a \<notin># R + E \<Longrightarrow> clients (tr @ [EReapProc a]) R E"
| other: "clients tr R E \<Longrightarrow> clientless ev \<Longrightarrow> clients (tr @ [ev]) R E"

lemma clients_live: "clients tr R E \<Longrightarrow> R + E = live tr"
proof (induction rule: clients.induct)
  case (stopped tr a R E)
  then have "live tr = add_mset a (R + E)" by simp
  then show ?case by simp
next
  case (awaited tr R a E)
  then have "live tr = add_mset a (R + E)" by simp
  then show ?case by simp
next
  case (absent tr R E a)
  then show ?case by (simp add: diff_single_trivial)
qed (simp_all add: client_step_clientless live_def)

lemma clients_exist: "clients tr (live tr) {#}"
proof (induction tr rule: rev_induct)
  case (snoc ev tr)
  consider (start) a where "ev = EStart a None" | (reap) a where "ev = EReapProc a" | (clientless) "clientless ev"
    by (cases ev rule: clientless.cases) auto
  then show ?case
  proof cases
    case (start a)
    with clients.started [OF snoc, of a] show ?thesis by simp
  next
    case (reap a)
    show ?thesis
    proof (cases "a \<in># live tr")
      case True
      with clients.stopped [of tr a "live tr - {#a#}" "{#}"] snoc reap show ?thesis by simp
    next
      case False
      with clients.absent [OF snoc, of a] reap show ?thesis by (simp add: diff_single_trivial)
    qed
  next
    case clientless
    with clients.other [OF snoc] show ?thesis by (simp add: client_step_clientless)
  qed
qed (simp add: live_def clients.none)

lemma clientless_isMounted: "appends clientless (isMounted K target)"
  unfolding isMounted_def io_defs by (intro appends_intros) simp_all

lemma clientless_wait_loop: "appends clientless (wait_loop n K target timeout deadline)"
proof (induction n)
  case (Suc n)
  show ?case unfolding wait_loop.simps time_sleep_def
    by (intro appends_intros clientless_isMounted Suc.IH) simp_all
qed (simp add: appends_intros)

lemma clientless_waitMounted: "appends clientless (waitMounted n K target timeout)"
  unfolding waitMounted_def by (intro appends_intros clientless_wait_loop)

lemma clientless_try_unmount: "appends clientless (try_unmount K cs)"
proof (induction cs)
  case (Cons c cs)
  show ?case unfolding try_unmount.simps exec_run_def by (intro appends_intros Cons.IH) simp_all
qed (simp add: appends_intros)

lemma clientless_unmountPath: "appends clientless (unmountPath K target)"
  unfolding unmountPath_def by (intro appends_intros clientless_try_unmount)

lemma clientless_close_log: "appends clientless (close_log K logf)"
  unfolding close_log_def file_close_def by (intro appends_intros) simp_all

text \<open>Unmounting stops the client, whether or not the path could be unmounted.\<close>

lemma Unmount_run:
  assumes "run_state (Unmount K m) tr = ((e, m'), tr')"
  shows "m' = m\<lparr>md_logf := None, md_exited := True\<rparr>"
    "live tr' = (if md_exited m then live tr else live tr - {#md_cmd m#})"
    "e = fst (run_state (unmountPath K (md_mountPoint m)) tr)"
proof -
  obtain u t where u: "run_state (unmountPath K (md_mountPoint m)) tr = (u, t)" by fastforce
  with clientless_live [OF clientless_unmountPath, of K "md_mountPoint m" tr] have lt: "live t = live tr" by simp
  let ?k = "if md_exited m then t else t @ [EKillProc (md_cmd m), EReapProc (md_cmd m)]"
  obtain v where v: "run_state (close_log K (md_logf m)) ?k = (v, snd (run_state (close_log K (md_logf m)) ?k))"
    by (metis surjective_pairing)
  have run: "e = u" "m' = m\<lparr>md_logf := None, md_exited := True\<rparr>" "tr' = snd (run_state (close_log K (md_logf m)) ?k)"
    using assms u v by (auto simp: Unmount_def kill_and_wait_def split: if_splits prod.splits)
  then show "m' = m\<lparr>md_logf := None, md_exited := True\<rparr>" "e = fst (run_state (unmountPath K (md_mountPoint m)) tr)"
    using u by simp_all
  have "live ?k = (if md_exited m then live tr else live tr - {#md_cmd m#})"
    using live_append1 [of "t @ [EKillProc (md_cmd m)]" "EReapProc (md_cmd m)"] lt by simp
  then show "live tr' = (if md_exited m then live tr else live tr - {#md_cmd m#})"
    using run(3) clientless_live [OF clientless_close_log] by metis
qed

lemma live_close_log: "live (snd (run_state (close_log K logf) tr)) = live tr"
  by (rule clientless_live [OF clientless_close_log])

lemma live_kill: "live (tr @ [EKillProc argv, EReapProc argv]) = live tr - {#argv#}"
  using live_append1 [of "tr @ [EKillProc argv]" "EReapProc argv"] by simp

text \<open>What a call of \<open>Mount\<close> leaves behind.\<close>

definition mount_result :: "ShareMount \<Rightarrow> trace \<Rightarrow> Mounted result outcome \<Rightarrow> trace \<Rightarrow> bool" where
  "mount_result spec tr r tr' \<longleftrightarrow>
     (case r of
        Returned (Inr m) \<Rightarrow> live tr' = add_mset (client_argv spec) (live tr) \<and> seen_mounted (sm_MountPoint spec) tr' \<and>
          md_mountPoint m = sm_MountPoint spec \<and> md_cmd m = client_argv spec \<and> \<not> md_exited m
      | Returned (Inl e) \<Rightarrow> live tr' = live tr
      | Panicked \<Rightarrow> live tr' = live tr \<and> sm_CubeFS spec = None
      | Waiting \<Rightarrow> True)"

lemma mount_result_error: "live tr' = live tr \<Longrightarrow> mount_result spec tr (Returned (Inl e)) tr'"
  by (simp add: mount_result_def)

text \<open>The client was started: what comes of the wait for its mount.\<close>

lemma launch_started:
  fixes K spec tr
  defines "log \<equiv> path_join [log_dir spec, ''cfs-client.out'']" and "a \<equiv> client_argv spec"
  defines "t1 \<equiv> tr @ [ECreate log (k_create K tr log)]"
  assumes "run_state (launch K spec) tr = (r, tr')" "k_start K t1 a = None"
  shows "mount_result spec tr r tr' \<and> (clock_ok K \<longrightarrow> r \<noteq> Waiting) \<and> r \<noteq> Panicked"
proof -
  let ?log = "path_join [log_dir spec, ''cfs-client.out'']" and ?a = "client_argv spec"
  let ?t1 = "tr @ [ECreate ?log (k_create K tr ?log)]"
  let ?logf = "if k_create K tr ?log = None then Some ?log else None"
  note assms = assms(4) assms(5) [unfolded t1_def a_def log_def]
  let ?t2 = "?t1 @ [EStart ?a None]"
  obtain w t3 where w: "run_state (waitMounted mount_polls K (sm_MountPoint spec) 30000) ?t2 = (w, t3)" by fastforce
  have l: "live t3 = add_mset ?a (live tr)"
    using clientless_live [OF clientless_waitMounted, of mount_polls K "sm_MountPoint spec" 30000 ?t2] w
      live_append1 [of ?t1 "EStart ?a None"] by simp
  show ?thesis
  proof (cases w)
    case W: None
    with assms w have "r = Waiting" by (auto simp: launch_def Let_def io_defs split: prod.splits)
    moreover have "\<not> clock_ok K"
      using waitMounted_finishes [of K "sm_MountPoint spec" ?t2] w W by auto
    ultimately show ?thesis by (simp add: mount_result_def)
  next
    case (Some v)
    show ?thesis
    proof (cases v)
      case V: None
      with Some assms w have "r = Returned (Inr \<lparr>md_mountPoint = sm_MountPoint spec, md_cmd = ?a,
          md_logf = ?logf, md_exited = False\<rparr>)" "tr' = t3"
        by (auto simp: launch_def Let_def io_defs split: prod.splits)
      with l waitMounted_seen [of mount_polls K "sm_MountPoint spec" 30000 ?t2 t3] w Some V show ?thesis
        by (simp add: mount_result_def)
    next
      case V: (Some e)
      with Some assms w have "r = Returned (Inl (Wrapf ''cubefs %q: %w'' [AStr (sm_ID spec)] e))"
        "tr' = snd (run_state (close_log K ?logf) (t3 @ [EKillProc ?a, EReapProc ?a]))"
        by (auto simp: launch_def Let_def io_defs kill_and_wait_def split: prod.splits)
      with l live_close_log [of K ?logf "t3 @ [EKillProc ?a, EReapProc ?a]"] live_kill [of t3 ?a] show ?thesis
        by (simp add: mount_result_def)
    qed
  qed
qed

lemma launch_result:
  assumes "run_state (launch K spec) tr = (r, tr')"
  shows "mount_result spec tr r tr'" "clock_ok K \<Longrightarrow> r \<noteq> Waiting" "r \<noteq> Panicked"
proof -
  let ?log = "path_join [log_dir spec, ''cfs-client.out'']" and ?a = "client_argv spec"
  let ?t1 = "tr @ [ECreate ?log (k_create K tr ?log)]"
  let ?logf = "if k_create K tr ?log = None then Some ?log else None"
  have both: "mount_result spec tr r tr' \<and> (clock_ok K \<longrightarrow> r \<noteq> Waiting) \<and> r \<noteq> Panicked"
  proof (cases "k_start K ?t1 ?a")
    case (Some e)
    with assms have "r = Returned (Inl (Wrapf ''start cfs-client: %w'' [] e))"
      "tr' = snd (run_state (close_log K ?logf) (?t1 @ [EStart ?a (Some e)]))"
      by (auto simp: launch_def Let_def io_defs split: prod.splits)
    with live_close_log [of K ?logf "?t1 @ [EStart ?a (Some e)]"] show ?thesis
      using live_append1 [of ?t1 "EStart ?a (Some e)"] by (simp add: mount_result_def)
  next
    case None
    with launch_started [OF assms] show ?thesis by blast
  qed
  then show "mount_result spec tr r tr'" "clock_ok K \<Longrightarrow> r \<noteq> Waiting" "r \<noteq> Panicked" by blast+
qed

text \<open>The directories are there and the configuration is encoded: it is written and the client launched.\<close>

lemma cfs_Mount_written:
  fixes K spec tr
  defines "t1 \<equiv> tr @ [EMkdir (sm_MountPoint spec) (k_mkdir K tr (sm_MountPoint spec))]"
  defines "t2 \<equiv> t1 @ [EMkdir (log_dir spec) (k_mkdir K t1 (log_dir spec))]"
  assumes "run_state (cfs_Mount K encode spec) tr = (r, tr')"
    and "effective_backend spec = BackendCubeFS" "k_mkdir K tr (sm_MountPoint spec) = None"
    "k_mkdir K t1 (log_dir spec) = None" "clientConfig encode spec (log_dir spec) = Returned (Inr b)"
  shows "mount_result spec tr r tr' \<and> (clock_ok K \<longrightarrow> r \<noteq> Waiting)"
proof -
  let ?e3 = "k_write K t2 (cfg_path spec) b"
  let ?t3 = "t2 @ [EWrite (cfg_path spec) b 384 ?e3]"
  have l3: "live ?t3 = live tr"
    using live_append1 [of t2 "EWrite (cfg_path spec) b 384 ?e3"] live_append1 [of t1 "EMkdir (log_dir spec) (k_mkdir K t1 (log_dir spec))"]
    by (simp add: t1_def t2_def)
  note t = t1_def t2_def
  show ?thesis
  proof (cases ?e3)
    case None
    with assms(3-7) have "run_state (launch K spec) ?t3 = (r, tr')"
      by (auto simp: cfs_Mount_def io_defs t)
    with launch_result [OF this] l3 show ?thesis
      by (auto simp: mount_result_def split: outcome.splits sum.splits)
  next
    case (Some e)
    with assms(3-7) l3 show ?thesis by (auto simp: cfs_Mount_def io_defs mount_result_def t)
  qed
qed

lemma cfs_Mount_result:
  assumes "run_state (cfs_Mount K encode spec) tr = (r, tr')"
  shows "mount_result spec tr r tr'" "clock_ok K \<Longrightarrow> r \<noteq> Waiting"
proof -
  let ?e1 = "k_mkdir K tr (sm_MountPoint spec)"
  let ?t1 = "tr @ [EMkdir (sm_MountPoint spec) ?e1]"
  let ?e2 = "k_mkdir K ?t1 (log_dir spec)"
  let ?t2 = "?t1 @ [EMkdir (log_dir spec) ?e2]"
  have l: "live ?t1 = live tr" "live ?t2 = live tr"
    using live_append1 [of ?t1 "EMkdir (log_dir spec) ?e2"] by simp_all
  have "mount_result spec tr r tr' \<and> (clock_ok K \<longrightarrow> r \<noteq> Waiting)"
  proof (cases "effective_backend spec = BackendCubeFS \<and> ?e1 = None \<and> ?e2 = None")
    case False
    with assms l have "(\<exists>e. r = Returned (Inl e)) \<and> live tr' = live tr"
      by (auto simp: cfs_Mount_def io_defs split: if_splits option.splits)
    then show ?thesis by (auto simp: mount_result_def)
  next
    case True
    show ?thesis
    proof (cases "clientConfig encode spec (log_dir spec)")
      case Panicked
      with True assms have "r = Panicked" "tr' = ?t2" by (auto simp: cfs_Mount_def io_defs)
      moreover from Panicked have "sm_CubeFS spec = None" by (auto simp: clientConfig_def split: option.splits)
      ultimately show ?thesis using l by (simp add: mount_result_def)
    next
      case Waiting
      then show ?thesis by (simp add: clientConfig_def split: option.splits)
    next
      case (Returned c)
      show ?thesis
      proof (cases c)
        case (Inl e)
        with True Returned assms l show ?thesis by (auto simp: cfs_Mount_def io_defs mount_result_def)
      next
        case (Inr b)
        with cfs_Mount_written [OF assms] True Returned show ?thesis by blast
      qed
    qed
  qed
  then show "mount_result spec tr r tr'" "clock_ok K \<Longrightarrow> r \<noteq> Waiting" by blast+
qed


definition example_mount :: ShareMount where
  "example_mount = \<lparr>sm_ID = ''data'', sm_Action = MountActionMount, sm_Backend = [], sm_MountPoint = ''/mnt'',
     sm_Readonly = False, sm_CubeFS = Some \<lparr>cf_Volume = ''v'', cf_Masters = [''m''], cf_Owner = ''o'',
       cf_AccessKey = [], cf_SecretKey = [], cf_SubDir = []\<rparr>\<rparr>"


subsection \<open>The registry\<close>

text \<open>The clients the registry believes to run.\<close>

definition tracked :: "registry \<Rightarrow> string list multiset" where
  "tracked reg = mset (map (md_cmd \<circ> snd) (filter (\<lambda>im. \<not> md_exited (snd im)) reg))"

definition reg_inv :: "trace \<Rightarrow> registry \<Rightarrow> bool" where
  "reg_inv tr reg \<longleftrightarrow> distinct (map fst reg) \<and> live tr = tracked reg"

lemma tracked_simps [simp]: "tracked [] = {#}"
  "tracked ((i, m) # reg) = (if md_exited m then tracked reg else add_mset (md_cmd m) (tracked reg))"
  by (simp_all add: tracked_def)

lemma delete_absent: "i \<notin> fst ` set reg \<Longrightarrow> AList.delete i reg = reg"
  by (induction reg) (auto simp: AList.delete_eq)

lemma tracked_delete:
  "distinct (map fst reg) \<Longrightarrow> map_of reg i = Some m \<Longrightarrow>
   tracked (AList.delete i reg) = (if md_exited m then tracked reg else tracked reg - {#md_cmd m#}) \<and>
   (\<not> md_exited m \<longrightarrow> md_cmd m \<in># tracked reg)"
proof (induction reg)
  case (Cons jm reg)
  obtain j m' where jm: "jm = (j, m')" by (cases jm)
  show ?case
  proof (cases "j = i")
    case True
    with Cons.prems jm have "m' = m" "AList.delete i reg = reg" by (auto intro: delete_absent)
    with jm True show ?thesis by simp
  next
    case False
    with Cons jm show ?thesis by (auto simp: multi_drop_mem_not_eq)
  qed
qed simp

lemma tracked_update_new: "i \<notin> fst ` set reg \<Longrightarrow>
  tracked (AList.update i m reg) = (if md_exited m then tracked reg else add_mset (md_cmd m) (tracked reg))"
  by (induction reg) auto

lemma tracked_update:
  "distinct (map fst reg) \<Longrightarrow> map_of reg i = Some m \<Longrightarrow> md_exited m' \<Longrightarrow>
   tracked (AList.update i m' reg) = tracked (AList.delete i reg)"
proof (induction reg)
  case (Cons jm reg)
  obtain j n where jm: "jm = (j, n)" by (cases jm)
  show ?case
  proof (cases "j = i")
    case True
    with Cons.prems jm show ?thesis by (auto simp: delete_absent)
  next
    case False
    with Cons jm show ?thesis by simp
  qed
qed simp

lemma detach_run:
  assumes "run_state (detach K reg i) tr = ((e, reg'), tr')"
  obtains (absent) "map_of reg i = None" "e = None" "reg' = reg" "tr' = tr"
  | (gone) m where "map_of reg i = Some m" "e = None" "reg' = AList.delete i reg"
      "live tr' = (if md_exited m then live tr else live tr - {#md_cmd m#})"
  | (failed) m e' where "map_of reg i = Some m" "e = Some e'"
      "reg' = AList.update i (m\<lparr>md_logf := None, md_exited := True\<rparr>) reg"
      "live tr' = (if md_exited m then live tr else live tr - {#md_cmd m#})"
proof (cases "map_of reg i")
  case None
  with assms have "e = None" "reg' = reg" "tr' = tr" by (simp_all add: detach_def)
  with None show thesis by (rule absent)
next
  case (Some m)
  obtain u m' t where u: "run_state (Unmount K m) tr = ((u, m'), t)" by (rule pair3)
  note r = Unmount_run [OF u]
  from assms Some u have "e = u" "reg' = (if u = None then AList.delete i reg else AList.update i m' reg)" "tr' = t"
    by (auto simp: detach_def)
  show thesis
  proof (cases u)
    case None
    show thesis by (rule gone [OF Some]) (simp_all add: None \<open>e = u\<close> \<open>tr' = t\<close> r(2)
        \<open>reg' = (if u = None then AList.delete i reg else AList.update i m' reg)\<close>)
  next
    case (Some e')
    show thesis by (rule failed [OF \<open>map_of reg i = Some m\<close>]) (simp_all add: Some \<open>e = u\<close> \<open>tr' = t\<close> r(1,2)
        \<open>reg' = (if u = None then AList.delete i reg else AList.update i m' reg)\<close>)
  qed
qed

lemma distinct_delete: "distinct (map fst reg) \<Longrightarrow> distinct (map fst (AList.delete i reg))"
  by (simp add: AList.distinct_delete)

lemma detach_inv:
  assumes "reg_inv tr reg" "run_state (detach K reg i) tr = ((e, reg'), tr')"
  shows "reg_inv tr' reg'" "e = None \<Longrightarrow> i \<notin> fst ` set reg'" "j \<noteq> i \<Longrightarrow> map_of reg' j = map_of reg j"
proof -
  from assms(1) have inv: "distinct (map fst reg)" "live tr = tracked reg" by (simp_all add: reg_inv_def)
  from assms(2) have "reg_inv tr' reg' \<and> (e = None \<longrightarrow> i \<notin> fst ` set reg') \<and>
    (j \<noteq> i \<longrightarrow> map_of reg' j = map_of reg j)"
  proof (cases rule: detach_run)
    case absent
    with assms(1) show ?thesis by (simp add: map_of_eq_None_iff)
  next
    case (gone m)
    with inv tracked_delete [OF inv(1) gone(1)] show ?thesis
      by (auto simp: reg_inv_def distinct_delete AList.delete_conv' map_of_eq_None_iff [symmetric])
  next
    case (failed m e')
    let ?m = "m\<lparr>md_logf := None, md_exited := True\<rparr>"
    from tracked_update [OF inv(1) failed(1), of ?m] tracked_delete [OF inv(1) failed(1)] inv failed show ?thesis
      by (auto simp: reg_inv_def AList.distinct_update AList.update_conv')
  qed
  then show "reg_inv tr' reg'" "e = None \<Longrightarrow> i \<notin> fst ` set reg'" "j \<noteq> i \<Longrightarrow> map_of reg' j = map_of reg j"
    by blast+
qed

lemma Registry_Apply_run:
  assumes "run_state (Registry_Apply K encode reg spec) tr = (Returned (e, reg'), tr')"
  obtains (failed) e' where "run_state (detach K reg (sm_ID spec)) tr = ((e, reg'), tr')" "e = Some e'"
  | (unmounted) "run_state (detach K reg (sm_ID spec)) tr = ((None, reg'), tr')" "e = None"
      "sm_Action spec = MountActionUnmount"
  | (refused) t e' where "run_state (detach K reg (sm_ID spec)) tr = ((None, reg'), t)" "e = Some e'"
      "sm_Action spec \<noteq> MountActionUnmount" "run_state (cfs_Mount K encode spec) t = (Returned (Inl e'), tr')"
  | (mounted) t r m where "run_state (detach K reg (sm_ID spec)) tr = ((None, r), t)" "e = None"
      "sm_Action spec \<noteq> MountActionUnmount" "run_state (cfs_Mount K encode spec) t = (Returned (Inr m), tr')"
      "reg' = AList.update (sm_ID spec) m r"
proof -
  obtain d r t where d: "run_state (detach K reg (sm_ID spec)) tr = ((d, r), t)" by (rule pair3)
  show thesis
  proof (cases d)
    case (Some e')
    with d assms show thesis by (intro failed [of e']) (auto simp: Registry_Apply_def)
  next
    case None
    show thesis
    proof (cases "sm_Action spec = MountActionUnmount")
      case True
      with d None assms show thesis by (intro unmounted) (auto simp: Registry_Apply_def)
    next
      case False
      obtain q u where q: "run_state (cfs_Mount K encode spec) t = (q, u)" by fastforce
      with d None False assms obtain v where v: "q = Returned v" "u = tr'"
        "(e, reg') = (case v of Inl e \<Rightarrow> (Some e, r) | Inr m \<Rightarrow> (None, AList.update (sm_ID spec) m r))"
        by (auto simp: Registry_Apply_def proceed_def split: outcome.splits)
      with d None False q show thesis
        by (cases v) (auto intro: refused mounted)
    qed
  qed
qed

lemma Registry_Apply_inv:
  assumes "reg_inv tr reg" "run_state (Registry_Apply K encode reg spec) tr = (Returned (e, reg'), tr')"
  shows "reg_inv tr' reg'"
  using assms(2)
proof (cases rule: Registry_Apply_run)
  case (refused t e')
  from detach_inv(1) [OF assms(1) refused(1)] cfs_Mount_result(1) [OF refused(4)] show ?thesis
    by (simp add: reg_inv_def mount_result_def)
next
  case (mounted t r m)
  note d = detach_inv [OF assms(1) mounted(1)]
  from d(1) tracked_update_new [OF d(2), of m] cfs_Mount_result(1) [OF mounted(4)] mounted(5) show ?thesis
    by (simp add: reg_inv_def mount_result_def AList.distinct_update)
qed (use detach_inv(1) [OF assms(1)] in blast)+

lemma unmount_all_live:
  "live tr = tracked reg \<Longrightarrow> run_state (unmount_all K f reg) tr = (e, tr') \<Longrightarrow> live tr' = {#}"
proof (induction reg arbitrary: f tr)
  case (Cons im reg)
  obtain i m where im: "im = (i, m)" by (cases im)
  obtain u m' t where u: "run_state (Unmount K m) tr = ((u, m'), t)" by (rule pair3)
  from Unmount_run(2) [OF u] Cons.prems(1) im have "live t = tracked reg" by simp
  with Cons.IH Cons.prems(2) u im show ?case by simp
qed simp

text \<open>
  The registry knows the clients it has not stopped: if its ids are distinct and its live entries are
  exactly the clients started and not reaped, the same holds after every \<open>Apply\<close> that returns, mount,
  replacement, unmount or failure, and after \<open>UnmountAll\<close> no client is left at all.
\<close>

theorem registry_invariant:
  assumes "reg_inv tr reg"
  shows "(\<forall>e reg' tr'. run_state (Registry_Apply K encode reg spec) tr = (Returned (e, reg'), tr') \<longrightarrow>
      reg_inv tr' reg') \<and>
    (\<forall>e reg' tr'. run_state (UnmountAll K reg) tr = ((e, reg'), tr') \<longrightarrow> reg' = [] \<and> live tr' = {#})"
proof (intro conjI allI impI)
  fix e reg' tr' assume "run_state (Registry_Apply K encode reg spec) tr = (Returned (e, reg'), tr')"
  with assms show "reg_inv tr' reg'" by (rule Registry_Apply_inv)
next
  fix e reg' tr' assume u: "run_state (UnmountAll K reg) tr = ((e, reg'), tr')"
  then show "reg' = []" by (auto simp: UnmountAll_def split: prod.splits)
  from u have "run_state (unmount_all K None reg) tr = (e, tr')" by (auto simp: UnmountAll_def split: prod.splits)
  with assms unmount_all_live show "live tr' = {#}" unfolding reg_inv_def by blast
qed

text \<open>
  The abstract registry: the mount points by id.  \<open>Apply\<close> replaces one entry of the map.
\<close>

definition registry_view :: "registry \<Rightarrow> string \<Rightarrow> string option" where
  "registry_view reg = map_option md_mountPoint \<circ> map_of reg"

definition apply_spec :: "ShareMount \<Rightarrow> goerr option \<Rightarrow> (string \<Rightarrow> string option) \<Rightarrow> (string \<Rightarrow> string option) \<Rightarrow> bool" where
  "apply_spec spec e f f' \<longleftrightarrow>
     (case e of
        None \<Rightarrow> f' = (if sm_Action spec = MountActionUnmount then f(sm_ID spec := None)
                      else f(sm_ID spec := Some (sm_MountPoint spec)))
      | Some _ \<Rightarrow> f' = f \<or> f' = f(sm_ID spec := None))"

lemma registry_view_delete: "registry_view (AList.delete i reg) = (registry_view reg)(i := None)"
  by (auto simp: registry_view_def AList.delete_conv' fun_eq_iff)

lemma registry_view_update: "registry_view (AList.update i m reg) = (registry_view reg)(i := Some (md_mountPoint m))"
  by (auto simp: registry_view_def AList.update_conv' fun_eq_iff)

lemma detach_view:
  assumes "run_state (detach K reg i) tr = ((e, reg'), tr')"
  shows "registry_view reg' = (if e = None then (registry_view reg)(i := None) else registry_view reg)"
  using assms
proof (cases rule: detach_run)
  case absent
  then show ?thesis by (auto simp: registry_view_def fun_eq_iff)
next
  case (failed m e')
  then have "registry_view reg' = (registry_view reg)(i := Some (md_mountPoint m))"
    by (simp add: registry_view_update)
  moreover from failed(1) have "registry_view reg i = Some (md_mountPoint m)" by (simp add: registry_view_def)
  ultimately show ?thesis using failed(2) by auto
qed (simp add: registry_view_delete)

text \<open>
  C17. \<open>Apply\<close> implements the replacement of one entry: on success the map of mount points holds the mount
  point of the spec under its id, or nothing for an unmount, and every other entry is as it was; on an
  error the entry is as it was or gone.  When it reports a mount, the mount was seen in place.
\<close>

theorem Registry_Apply_refines:
  assumes "run_state (Registry_Apply K encode reg spec) tr = (Returned (e, reg'), tr')"
  shows "apply_spec spec e (registry_view reg) (registry_view reg') \<and>
    (e = None \<and> sm_Action spec \<noteq> MountActionUnmount \<longrightarrow> seen_mounted (sm_MountPoint spec) tr')"
  using assms
proof (cases rule: Registry_Apply_run)
  case (mounted t r m)
  with cfs_Mount_result(1) [OF mounted(4)] detach_view [OF mounted(1)] show ?thesis
    by (simp add: apply_spec_def registry_view_update mount_result_def)
qed (auto simp: apply_spec_def dest!: detach_view)

text \<open>No tool unmounts the path: each is missing or fails, whenever it is tried.\<close>

definition unmount_fails :: "kernel \<Rightarrow> string \<Rightarrow> bool" where
  "unmount_fails K p \<longleftrightarrow> (\<forall>tr. \<forall>c \<in> set (unmount_commands p).
     \<not> k_look_path K tr (hd c) \<or> fst (k_exec K tr c) \<noteq> None)"

lemma try_unmount_fails:
  "\<forall>tr. \<forall>c \<in> set cs. \<not> k_look_path K tr (hd c) \<or> fst (k_exec K tr c) \<noteq> None \<Longrightarrow>
   fst (run_state (try_unmount K cs) tr) = False"
  by (induction cs arbitrary: tr) (auto simp: io_defs)

lemma unmountPath_fails: "unmount_fails K p \<Longrightarrow> fst (run_state (unmountPath K p) tr) \<noteq> None"
  using try_unmount_fails [of "unmount_commands p" K tr]
  by (auto simp: unmount_fails_def unmountPath_def split: prod.splits)

text \<open>
  C12. A share whose mount point cannot be unmounted, as when its client died and the kernel dropped the
  mount, is never mounted again, against the comment of \<open>Apply\<close> that a repeated publish re-establishes
  the mount: every \<open>Apply\<close> for its id, mount or unmount, returns an error, starts no client, leaves the
  client of the entry stopped and keeps the entry under its mount point, so that the next publish for
  the id fails the same way.
\<close>

theorem registry_stuck:
  assumes "map_of reg (sm_ID spec) = Some m" "unmount_fails K (md_mountPoint m)"
  shows "\<exists>e m' reg' tr'. run_state (Registry_Apply K encode reg spec) tr = (Returned (Some e, reg'), tr') \<and>
    map_of reg' = (map_of reg)(sm_ID spec \<mapsto> m') \<and> md_mountPoint m' = md_mountPoint m \<and> md_exited m' \<and>
    live tr' = (if md_exited m then live tr else live tr - {#md_cmd m#})"
proof -
  obtain u m' t where u: "run_state (Unmount K m) tr = ((u, m'), t)" by (rule pair3)
  note r = Unmount_run [OF u]
  from r(3) unmountPath_fails [OF assms(2)] obtain e where e: "u = Some e" by blast
  with assms(1) u have "run_state (Registry_Apply K encode reg spec) tr =
      (Returned (Some e, AList.update (sm_ID spec) m' reg), t)"
    by (simp add: Registry_Apply_def detach_def)
  then show ?thesis
    by (intro exI [of _ e] exI [of _ m'] exI [of _ "AList.update (sm_ID spec) m' reg"] exI [of _ t])
      (simp add: r(1,2) AList.update_conv')
qed

theorem registry_stuck_witness:
  "\<exists>e m' reg' tr'. run_state (Registry_Apply (kernel_with (\<lambda>_. None)\<lparr>k_look_path := \<lambda>_ _. False\<rparr>) (\<lambda>_. Inr ''{}'')
     [(''data'', \<lparr>md_mountPoint = ''/mnt'', md_cmd = [''cfs-client''], md_logf = None, md_exited = False\<rparr>)]
     example_mount) [EStart [''cfs-client''] None] = (Returned (Some e, reg'), tr') \<and>
     map_of reg' ''data'' = Some m' \<and> md_mountPoint m' = ''/mnt'' \<and> md_exited m' \<and> live tr' = {#}"
proof -
  let ?K = "kernel_with (\<lambda>_. None)\<lparr>k_look_path := \<lambda>_ _. False\<rparr>"
  let ?m = "\<lparr>md_mountPoint = ''/mnt'', md_cmd = [''cfs-client''], md_logf = None, md_exited = False\<rparr>"
  have "map_of [(''data'', ?m)] (sm_ID example_mount) = Some ?m" "sm_ID example_mount = ''data''"
    by (simp_all add: example_mount_def)
  moreover have "unmount_fails ?K (md_mountPoint ?m)" by (simp add: unmount_fails_def kernel_with_def)
  moreover have "live [EStart [''cfs-client''] None] = {#[''cfs-client'']#}" by (simp add: live_def)
  ultimately show ?thesis
    using registry_stuck [of "[(''data'', ?m)]" example_mount ?m ?K "\<lambda>_. Inr ''{}''" "[EStart [''cfs-client''] None]"]
    by auto
qed

text \<open>
  \<open>/proc/mounts\<close> is split at white space, so a mount point with a blank, which the kernel writes there
  as an escape, is never found: \<open>Mount\<close> of such a spec, valid or not, never reports success, whatever
  the kernel does.
\<close>

theorem blank_mount_point_fails:
  assumes "CHR '' '' \<in> set (sm_MountPoint spec)"
  shows "fst (run_state (cfs_Mount K encode spec) tr) \<noteq> Returned (Inr m)"
proof
  assume "fst (run_state (cfs_Mount K encode spec) tr) = Returned (Inr m)"
  then obtain tr' where "run_state (cfs_Mount K encode spec) tr = (Returned (Inr m), tr')" by (metis surjective_pairing)
  from cfs_Mount_result(1) [OF this] obtain b where "mounted_in (sm_MountPoint spec) b"
    by (auto simp: mount_result_def seen_mounted_def)
  then obtain l where "2 \<le> length (str_fields l)" "str_fields l ! 1 = sm_MountPoint spec"
    by (auto simp: mounted_in_def list_ex_iff Let_def)
  then have "sm_MountPoint spec \<in> set (str_fields l)" by (metis nth_mem Suc_1 Suc_le_lessD One_nat_def)
  with assms str_fields_no_blank show False by blast
qed

theorem blank_mount_point_fails_witness:
  "ShareMount_Validate (example_mount\<lparr>sm_MountPoint := ''/my data''\<rparr>) = None \<and>
    (\<forall>K m. fst (run_state (cfs_Mount K (\<lambda>_. Inr ''{}'') (example_mount\<lparr>sm_MountPoint := ''/my data''\<rparr>)) [])
      \<noteq> Returned (Inr m))"
  using blank_mount_point_fails [of "example_mount\<lparr>sm_MountPoint := ''/my data''\<rparr>"]
  by (simp add: ShareMount_Validate_iff share_mount_ok_def example_mount_def effective_backend_def)

lemma example_mounted: "mounted_in ''/mnt'' ''fuse /mnt fuse''"
proof -
  have "str_fields (join_with '' '' [''fuse'', ''/mnt'', ''fuse'']) = [''fuse'', ''/mnt'', ''fuse'']"
    by (rule str_fields_join) (simp add: plain_byte_def)
  then show ?thesis by (simp add: mounted_in_def scan_lines_def max_scan_token_def drop_cr_def)
qed

lemma example_apply:
  "\<exists>m tr'. run_state (Registry_Apply (kernel_with [''/proc/mounts'' \<mapsto> ''fuse /mnt fuse'']) (\<lambda>_. Inr ''{}'')
      [] example_mount) [] = (Returned (None, [(''data'', m)]), tr')"
proof -
  define K where "K = kernel_with [''/proc/mounts'' \<mapsto> ''fuse /mnt fuse'']"
  have K: "k_read K t ''/proc/mounts'' = Inr ''fuse /mnt fuse''" "k_now K t = 0" "k_mkdir K t p = None"
    "k_write K t p b = None" "k_create K t p = None" "k_start K t a = None" for t p b a
    by (simp_all add: K_def kernel_with_def)
  have "\<exists>t'. run_state (wait_loop (Suc 151) K ''/mnt'' 30000 30000) t = (Some None, t')" for t
    by (subst wait_loop_Suc) (simp add: Let_def K example_mounted)
  then have w: "\<exists>t'. run_state (waitMounted mount_polls K ''/mnt'' 30000) t = (Some None, t')" for t
    by (simp add: waitMounted_def mount_polls_def K)
  have e: "sm_MountPoint example_mount = ''/mnt''" "sm_ID example_mount = ''data''" "sm_Action example_mount \<noteq> MountActionUnmount"
    "effective_backend example_mount = BackendCubeFS"
    "clientConfig (\<lambda>_. Inr ''{}'') example_mount d = Returned (Inr ''{}'')" for d
    by (simp_all add: example_mount_def effective_backend_def MountActionMount_def MountActionUnmount_def clientConfig_def)
  have "\<exists>m t'. run_state (launch K example_mount) t = (Returned (Inr m), t')" for t
  proof -
    let ?t = "t @ [ECreate (path_join [log_dir example_mount, ''cfs-client.out'']) None, EStart (client_argv example_mount) None]"
    obtain t' where "run_state (waitMounted mount_polls K ''/mnt'' 30000) ?t = (Some None, t')" using w by blast
    then show ?thesis by (simp add: launch_def Let_def io_defs K e(1))
  qed
  then have "\<exists>m t'. run_state (cfs_Mount K (\<lambda>_. Inr ''{}'') example_mount) [] = (Returned (Inr m), t')"
    by (simp add: cfs_Mount_def io_defs K e)
  then obtain m tr' where "run_state (cfs_Mount K (\<lambda>_. Inr ''{}'') example_mount) [] = (Returned (Inr m), tr')" by blast
  then have "run_state (Registry_Apply K (\<lambda>_. Inr ''{}'') [] example_mount) [] =
      (Returned (None, [(''data'', m)]), tr')"
    using e(3) by (simp add: Registry_Apply_def detach_def proceed_def e(2))
  then show ?thesis unfolding K_def by blast
qed

theorem Registry_Apply_refines_witness:
  "\<exists>reg' tr'. run_state (Registry_Apply (kernel_with [''/proc/mounts'' \<mapsto> ''fuse /mnt fuse'']) (\<lambda>_. Inr ''{}'')
      [] example_mount) [] = (Returned (None, reg'), tr') \<and> registry_view reg' = [''data'' \<mapsto> ''/mnt'']"
proof -
  obtain m tr' where run: "run_state (Registry_Apply (kernel_with [''/proc/mounts'' \<mapsto> ''fuse /mnt fuse''])
      (\<lambda>_. Inr ''{}'') [] example_mount) [] = (Returned (None, [(''data'', m)]), tr')"
    using example_apply by blast
  have "registry_view [] = Map.empty" by (simp add: registry_view_def fun_eq_iff)
  with Registry_Apply_refines [OF run] have "registry_view [(''data'', m)] = [''data'' \<mapsto> ''/mnt'']"
    by (simp add: apply_spec_def example_mount_def MountActionMount_def MountActionUnmount_def)
  with run show ?thesis by blast
qed

theorem registry_invariant_witness:
  "\<exists>reg tr. run_state (Registry_Apply (kernel_with [''/proc/mounts'' \<mapsto> ''fuse /mnt fuse'']) (\<lambda>_. Inr ''{}'')
      [] example_mount) [] = (Returned (None, reg), tr) \<and> reg \<noteq> [] \<and> reg_inv tr reg"
proof -
  have i: "reg_inv [] []" by (simp add: reg_inv_def live_def)
  from registry_invariant [OF i] example_apply show ?thesis by blast
qed

end
