(* ===== verification/Oci_Runtime.thy ===== *)
theory Oci_Runtime
  imports Go_Os
begin

text \<open>
  Package runtime (src/pkg/runtime): the interface \<open>Runtime\<close> of an OCI runtime as a record of its
  methods, the contract its callers rely on as a locale, and its implementation by the \<open>crun\<close> (or
  \<open>runc\<close>) binary (src/pkg/runtime/crun).
\<close>

subsection \<open>The interface\<close>

text \<open>
  \<open>Stdio\<close>: the readers and writers of a container.  The program wires either nothing or the
  console to the two outputs, never an input.
\<close>

record Stdio =
  io_Stdin :: "string option"
  io_Stdout :: "string option"
  io_Stderr :: "string option"

record runtime =
  rt_Name :: string
  rt_Create :: "string \<Rightarrow> string \<Rightarrow> Stdio \<Rightarrow> goerr option io"
  rt_Start :: "string \<Rightarrow> goerr option io"
  rt_State :: "string \<Rightarrow> (string \<times> int \<times> goerr option) io"
  rt_Kill :: "string \<Rightarrow> string \<Rightarrow> goerr option io"
  rt_Delete :: "string \<Rightarrow> goerr option io"

text \<open>The calls a caller makes, as data.\<close>

datatype rt_call =
    CallCreate string string
  | CallStart string
  | CallState string
  | CallKill string string
  | CallDelete string

text \<open>
  The contract: every method is one run of the runtime executable, whose arguments say which
  method it is; \<open>Create\<close>, \<open>Start\<close>, \<open>Kill\<close> and \<open>Delete\<close> return nil exactly when that run succeeds,
  and \<open>State\<close> never reports a negative pid, nor a pid together with an error.
\<close>

locale oci_runtime =
  fixes rt :: runtime and argv :: "rt_call \<Rightarrow> string list"
  assumes Create_run: "run_state (rt_Create rt i b sio) tr = (r, tr') \<Longrightarrow>
      \<exists>x. tr' = tr @ [EExec (argv (CallCreate i b)) x] \<and> (r = None \<longleftrightarrow> x = None)"
    and Start_run: "run_state (rt_Start rt i) tr = (r, tr') \<Longrightarrow>
      \<exists>x. tr' = tr @ [EExec (argv (CallStart i)) x] \<and> (r = None \<longleftrightarrow> x = None)"
    and Kill_run: "run_state (rt_Kill rt i sig) tr = (r, tr') \<Longrightarrow>
      \<exists>x. tr' = tr @ [EExec (argv (CallKill i sig)) x] \<and> (r = None \<longleftrightarrow> x = None)"
    and Delete_run: "run_state (rt_Delete rt i) tr = (r, tr') \<Longrightarrow>
      \<exists>x. tr' = tr @ [EExec (argv (CallDelete i)) x] \<and> (r = None \<longleftrightarrow> x = None)"
    and State_run: "run_state (rt_State rt i) tr = ((status, pid, e), tr') \<Longrightarrow>
      \<exists>x. tr' = tr @ [EExec (argv (CallState i)) x] \<and> 0 \<le> pid \<and> (e \<noteq> None \<longrightarrow> pid = 0)"

subsection \<open>crun\<close>

text \<open>
  \<open>exec.CommandContext\<close> with the flag \<open>--root\<close> first.  The context is left out: it is the one \<open>Stop\<close>'s
  caller cancels when \<open>Stop\<close> is done, and a command under way at that moment is killed while a later
  one is refused before it starts.  In the model the first is an error the kernel parameter may answer
  at any time, and the second shows as an \<open>EExec\<close> that fails, where the program executes nothing; a
  kernel may also let it succeed, which the program rules out.  The executions of the model include
  those of the program, with such a failed call written down for each refused one, so theorems over
  every execution carry over; no theorem that exhibits an execution has a call after the cancellation.
\<close>

record CrunRuntime =
  cr_Binary :: string
  cr_Root :: string

definition crun_New :: CrunRuntime where
  "crun_New = \<lparr>cr_Binary = ''crun'', cr_Root = ''/run/weft/crun''\<rparr>"

definition crun_NewRunc :: CrunRuntime where
  "crun_NewRunc = \<lparr>cr_Binary = ''runc'', cr_Root = ''/run/weft/runc''\<rparr>"

definition crun_Name :: "CrunRuntime \<Rightarrow> string" where
  "crun_Name r = (if cr_Binary r = [] then ''crun'' else cr_Binary r)"

definition crun_binary :: "CrunRuntime \<Rightarrow> string" where
  "crun_binary r = (if cr_Binary r = [] then ''crun'' else cr_Binary r)"

definition crun_cmd :: "CrunRuntime \<Rightarrow> string list \<Rightarrow> string list" where
  "crun_cmd r args = crun_binary r # (if cr_Root r \<noteq> [] then [''--root'', cr_Root r] else []) @ args"

text \<open>
  \<open>combinedRun\<close>: what the command prints is returned only where its output is not wired to
  something else already.  (The kernel parameter gives the two streams as one text, which is what
  the caller sees: the program wires both or neither.)
\<close>

definition combinedRun :: "kernel \<Rightarrow> string list \<Rightarrow> Stdio \<Rightarrow> (string \<times> goerr option) io" where
  "combinedRun K argv sio = do {
     (e, out) \<leftarrow> exec_run K argv;
     ret (if io_Stdout sio = None \<or> io_Stderr sio = None then out else [], e)
   }"

definition no_stdio :: Stdio where
  "no_stdio = \<lparr>io_Stdin = None, io_Stdout = None, io_Stderr = None\<rparr>"

definition crun_Create :: "kernel \<Rightarrow> CrunRuntime \<Rightarrow> string \<Rightarrow> string \<Rightarrow> Stdio \<Rightarrow> goerr option io" where
  "crun_Create K r i bundleDir sio = do {
     (out, err) \<leftarrow> combinedRun K (crun_cmd r [''create'', ''--no-pivot'', ''--bundle'', bundleDir, i]) sio;
     ret (case err of
            Some e \<Rightarrow> Some (Wrapf ''%s create %s: %w: %s'' [AStr (crun_Name r), AStr i, AStr out] e)
          | None \<Rightarrow> None)
   }"

definition crun_Start :: "kernel \<Rightarrow> CrunRuntime \<Rightarrow> string \<Rightarrow> goerr option io" where
  "crun_Start K r i = do {
     (out, err) \<leftarrow> combinedRun K (crun_cmd r [''start'', i]) no_stdio;
     ret (case err of
            Some e \<Rightarrow> Some (Wrapf ''%s start %s: %w: %s'' [AStr (crun_Name r), AStr i, AStr out] e)
          | None \<Rightarrow> None)
   }"

definition crun_Kill :: "kernel \<Rightarrow> CrunRuntime \<Rightarrow> string \<Rightarrow> string \<Rightarrow> goerr option io" where
  "crun_Kill K r i sig = do {
     (out, err) \<leftarrow> combinedRun K (crun_cmd r [''kill'', i, sig]) no_stdio;
     ret (case err of
            Some e \<Rightarrow> Some (Wrapf ''%s kill %s %s: %w: %s''
              [AStr (crun_Name r), AStr i, AStr sig, AStr out] e)
          | None \<Rightarrow> None)
   }"

definition crun_Delete :: "kernel \<Rightarrow> CrunRuntime \<Rightarrow> string \<Rightarrow> goerr option io" where
  "crun_Delete K r i = do {
     (out, err) \<leftarrow> combinedRun K (crun_cmd r [''delete'', ''--force'', i]) no_stdio;
     ret (case err of
            Some e \<Rightarrow> Some (Wrapf ''%s delete %s: %w: %s'' [AStr (crun_Name r), AStr i, AStr out] e)
          | None \<Rightarrow> None)
   }"

text \<open>
  \<open>parseState\<close>: the status up to the next quote unless that is empty, the pid as the digits right
  after the key (\<open>strconv.Atoi\<close> of digits saturates on overflow, its error is dropped).
\<close>

definition status_key :: string where "status_key = ''\"status\":\"''"

definition pid_key :: string where "pid_key = ''\"pid\":''"

definition parseState :: "string \<Rightarrow> string \<times> int" where
  "parseState out =
     (let status =
            (case index_of status_key out of
               None \<Rightarrow> []
             | Some i \<Rightarrow>
                 (let rest = drop (i + length status_key) out
                  in case index_byte (CHR 34) rest of
                       Some j \<Rightarrow> if 0 < j then take j rest else []
                     | None \<Rightarrow> []));
          pid =
            (case index_of pid_key out of
               None \<Rightarrow> 0
             | Some i \<Rightarrow>
                 (let digits = takeWhile is_digit (drop (i + length pid_key) out)
                  in if digits \<noteq> [] then atoi_digits digits else 0))
      in (status, pid))"

definition crun_State :: "kernel \<Rightarrow> CrunRuntime \<Rightarrow> string \<Rightarrow> (string \<times> int \<times> goerr option) io" where
  "crun_State K r i = do {
     (out, err) \<leftarrow> combinedRun K (crun_cmd r [''state'', i]) no_stdio;
     ret (case err of
            Some e \<Rightarrow>
              (if contains out ''does not exist'' then ([], 0, None)
               else ([], 0, Some (Wrapf ''%s state %s: %w: %s'' [AStr (crun_Name r), AStr i, AStr out] e)))
          | None \<Rightarrow> (let (status, pid) = parseState out in (status, pid, None)))
   }"

definition crun_runtime :: "kernel \<Rightarrow> CrunRuntime \<Rightarrow> runtime" where
  "crun_runtime K r = \<lparr>rt_Name = crun_Name r, rt_Create = crun_Create K r, rt_Start = crun_Start K r,
     rt_State = crun_State K r, rt_Kill = crun_Kill K r, rt_Delete = crun_Delete K r\<rparr>"

definition crun_argv :: "CrunRuntime \<Rightarrow> rt_call \<Rightarrow> string list" where
  "crun_argv r c = crun_cmd r (case c of
       CallCreate i b \<Rightarrow> [''create'', ''--no-pivot'', ''--bundle'', b, i]
     | CallStart i \<Rightarrow> [''start'', i]
     | CallState i \<Rightarrow> [''state'', i]
     | CallKill i sig \<Rightarrow> [''kill'', i, sig]
     | CallDelete i \<Rightarrow> [''delete'', ''--force'', i])"

lemma atoi_digits_nonneg [go_len]: "0 \<le> atoi_digits s"
  by (simp add: atoi_digits_def)

lemma parseState_pid_nonneg [go_len]: "0 \<le> snd (parseState out)"
  by (auto simp: parseState_def Let_def atoi_digits_nonneg split: option.splits)

interpretation crun: oci_runtime "crun_runtime K r" "crun_argv r" for K r
proof
  fix i status pid e tr tr'
  assume "run_state (rt_State (crun_runtime K r) i) tr = ((status, pid, e), tr')"
  then show "\<exists>x. tr' = tr @ [EExec (crun_argv r (CallState i)) x] \<and> 0 \<le> pid \<and> (e \<noteq> None \<longrightarrow> pid = 0)"
    using parseState_pid_nonneg
    by (auto simp: crun_runtime_def crun_State_def combinedRun_def exec_run_def crun_argv_def
        split: prod.splits option.splits if_splits) (metis snd_conv)+
qed (auto simp: crun_runtime_def crun_Create_def crun_Start_def crun_Kill_def crun_Delete_def
    combinedRun_def exec_run_def crun_argv_def split: prod.splits option.splits)

subsection \<open>Reading the state of a container\<close>

lemma index_of_first:
  assumes "\<not> sublist sub (pre @ butlast sub)" "sub \<noteq> []"
  shows "index_of sub (pre @ sub @ rest) = Some (length pre)"
  using assms(1)
proof (induction pre)
  case Nil
  then show ?case using assms(2) by (cases sub) (auto simp: prefix_def)
next
  case (Cons x pre)
  then have "\<not> sublist sub (pre @ butlast sub)" by (auto simp: sublist_Cons_right)
  moreover have "\<not> prefix sub (x # pre @ sub @ rest)"
  proof
    assume "prefix sub (x # pre @ sub @ rest)"
    then have "prefix sub ((x # pre @ butlast sub) @ last sub # rest)"
      using append_butlast_last_id [OF assms(2)] by (metis append.assoc append_Cons append_Nil)
    then have "prefix sub (x # pre @ butlast sub)"
      using prefix_length_prefix [of sub "(x # pre @ butlast sub) @ last sub # rest" "x # pre @ butlast sub"]
        assms(2) by (cases sub) auto
    then have "sublist sub (x # pre @ butlast sub)" by (rule prefix_imp_sublist)
    with Cons.prems show False by simp
  qed
  ultimately show ?case using Cons.IH by simp
qed

lemma takeWhile_digits:
  assumes "rest = [] \<or> \<not> is_digit (hd rest)"
  shows "takeWhile is_digit (show_nat n @ rest) = show_nat n"
proof -
  have "\<forall>x \<in> set (show_nat n). is_digit x" using show_nat_digits by (simp add: list_all_iff)
  with assms show ?thesis by (cases rest) (simp_all add: takeWhile_append2)
qed

lemma atoi_show: "n < 2 ^ 63 \<Longrightarrow> atoi_digits (show_nat n) = int n"
  using parse_show [of n 64] by (simp add: atoi_digits_def)

lemma parseState_pid:
  assumes "\<not> sublist pid_key (pre @ butlast pid_key)" "n < 2 ^ 63"
    and "rest = [] \<or> \<not> is_digit (hd rest)"
  shows "snd (parseState (pre @ pid_key @ show_nat n @ rest)) = int n"
proof -
  have "pid_key \<noteq> []" by (simp add: pid_key_def)
  from index_of_first [OF assms(1) this, of "show_nat n @ rest"]
  show ?thesis
    by (simp add: parseState_def Let_def takeWhile_digits [OF assms(3)] atoi_show [OF assms(2)] show_nat_not_Nil)
qed

lemma parseState_status:
  assumes "\<not> sublist status_key (pre @ butlast status_key)" "CHR 34 \<notin> set st"
  shows "fst (parseState (pre @ status_key @ st @ CHR 34 # rest)) = st"
proof -
  have "status_key \<noteq> []" by (simp add: status_key_def)
  from index_of_first [OF assms(1) this, of "st @ CHR 34 # rest"] assms(2)
  show ?thesis by (simp add: parseState_def Let_def)
qed

text \<open>
  Reading back what the runtime prints without spaces, as the comment of \<open>parseState\<close> shows it: the
  pid behind the first pid key and the status behind the first status key come back, whatever
  surrounds them.
\<close>

theorem parseState_compact:
  assumes "out = pre @ pid_key @ show_nat n @ rest" "\<not> sublist pid_key (pre @ butlast pid_key)"
    and "n < 2 ^ 63" "rest = [] \<or> \<not> is_digit (hd rest)"
    and "out = pre' @ status_key @ st @ CHR 34 # rest'" "CHR 34 \<notin> set st"
    and "\<not> sublist status_key (pre' @ butlast status_key)"
  shows "parseState out = (st, int n)"
  using parseState_pid [OF assms(2-4)] parseState_status [OF assms(7,6), of rest']
  unfolding assms(1)[symmetric] assms(5)[symmetric] by (metis prod.collapse)

theorem parseState_compact_witness:
  "parseState ''{\"ociVersion\":\"1.0.0\",\"id\":\"foo\",\"pid\":1234,\"status\":\"running\"}'' =
    (''running'', 1234)"
proof -
  have "parseState ''{\"ociVersion\":\"1.0.0\",\"id\":\"foo\",\"pid\":1234,\"status\":\"running\"}'' =
    (''running'', int 1234)"
  proof (rule parseState_compact)
    show "''{\"ociVersion\":\"1.0.0\",\"id\":\"foo\",\"pid\":1234,\"status\":\"running\"}'' =
        ''{\"ociVersion\":\"1.0.0\",\"id\":\"foo\",'' @ pid_key @ show_nat 1234 @
        '',\"status\":\"running\"}''"
      by (simp add: pid_key_def show_nat.simps digit_char_def)
    show "''{\"ociVersion\":\"1.0.0\",\"id\":\"foo\",\"pid\":1234,\"status\":\"running\"}'' =
        ''{\"ociVersion\":\"1.0.0\",\"id\":\"foo\",\"pid\":1234,'' @ status_key @ ''running'' @ CHR 34 # ''}''"
      by (simp add: status_key_def)
  qed (simp_all add: pid_key_def status_key_def sublist_Cons_right is_digit_def)
  then show ?thesis by simp
qed

lemma index_of_Some: "index_of sub s = Some i \<Longrightarrow> \<exists>rest. drop i s = sub @ rest"
  by (induction s arbitrary: i) (auto simp: prefix_def split: if_splits)

text \<open>Every colon is followed by a blank.\<close>

definition spaced_colons :: "string \<Rightarrow> bool" where
  "spaced_colons s \<longleftrightarrow> list_all (\<lambda>(x, y). x = CHR '':'' \<longrightarrow> y = CHR '' '') (zip s (tl s))"

lemma spaced_colons_next:
  assumes "spaced_colons s" "drop i s = w @ CHR '':'' # y # rest"
  shows "y = CHR '' ''"
proof -
  have e: "drop (i + length w) s = CHR '':'' # y # rest"
    using arg_cong [OF assms(2), of "drop (length w)"] by (simp add: add.commute)
  let ?j = "i + length w"
  have l: "Suc ?j < length s"
    using arg_cong [OF e, of length] by simp
  have "s ! ?j = CHR '':''" "s ! Suc ?j = y"
    using e l by (metis Cons_nth_drop_Suc Suc_lessD list.inject)+
  moreover have "(s ! ?j, s ! Suc ?j) \<in> set (zip s (tl s))"
    using l by (auto simp: in_set_zip nth_tl intro!: exI [of _ ?j])
  ultimately show ?thesis using assms(1) by (auto simp: spaced_colons_def list_all_iff)
qed

lemma parseState_spaced:
  assumes "spaced_colons out"
  shows "parseState out = ([], 0)"
proof -
  have "index_of status_key out = None"
  proof (rule ccontr)
    assume "index_of status_key out \<noteq> None"
    then obtain i rest where "drop i out = status_key @ rest" using index_of_Some by blast
    then have "drop i out = ''\"status\"'' @ CHR '':'' # CHR 34 # rest" by (simp add: status_key_def)
    from spaced_colons_next [OF assms this] show False by simp
  qed
  moreover have "takeWhile is_digit (drop (i + length pid_key) out) = []"
    if "index_of pid_key out = Some i" for i
  proof -
    from that obtain rest where r: "drop i out = pid_key @ rest" using index_of_Some by blast
    have d: "drop (i + length pid_key) out = rest"
      using arg_cong [OF r, of "drop (length pid_key)"] by (simp add: add.commute)
    show ?thesis
    proof (cases rest)
      case (Cons y ys)
      with r have "drop i out = ''\"pid\"'' @ CHR '':'' # y # ys" by (simp add: pid_key_def)
      from spaced_colons_next [OF assms this] Cons d show ?thesis by (simp add: is_digit_def)
    qed (use d in simp)
  qed
  ultimately show ?thesis by (simp add: parseState_def split: option.split)
qed

text \<open>
  What the runtime prints with a blank after each colon is read as no status and no pid: then
  \<open>State\<close> returns the pid 0 and no error for a container that runs.
\<close>

theorem crun_State_spaced:
  assumes "k_exec K tr (crun_cmd r [''state'', i]) = (None, out)" "spaced_colons out"
  shows "fst (run_state (crun_State K r i) tr) = ([], 0, None)"
  using assms(1) parseState_spaced [OF assms(2)]
  by (simp add: crun_State_def combinedRun_def exec_run_def no_stdio_def)

theorem crun_State_spaced_witness:
  "fst (run_state (crun_State ((kernel_with (\<lambda>_. None))
      \<lparr>k_exec := \<lambda>_ _. (None, ''{ \"id\": \"web\", \"pid\": 1234, \"status\": \"running\" }'')\<rparr>)
      crun_New ''web'') []) = ([], 0, None)"
  by (rule crun_State_spaced) (simp, simp add: spaced_colons_def)

text \<open>
  A container the runtime does not know is not an error: \<open>State\<close> returns no status and the pid 0
  whenever the run fails with a message that holds \<open>does not exist\<close>, and an error for every other
  failure.
\<close>

theorem crun_State_failure:
  assumes "k_exec K tr (crun_cmd r [''state'', i]) = (Some e, out)"
  shows "\<exists>err. fst (run_state (crun_State K r i) tr) = ([], 0, err) \<and>
    (err = None \<longleftrightarrow> sublist ''does not exist'' out)"
  using assms
  by (simp add: crun_State_def combinedRun_def exec_run_def no_stdio_def contains_iff_sublist)

theorem crun_State_failure_witness:
  "\<exists>err. fst (run_state (crun_State ((kernel_with (\<lambda>_. None))
      \<lparr>k_exec := \<lambda>_ _. (Some (Errorf ''exit status 1'' []), ''container web does not exist'')\<rparr>)
      crun_New ''web'') []) = ([], 0, err) \<and> err = None"
proof -
  let ?K = "(kernel_with (\<lambda>_. None))
    \<lparr>k_exec := \<lambda>_ _. (Some (Errorf ''exit status 1'' []), ''container web does not exist'')\<rparr>"
  have "k_exec ?K [] (crun_cmd crun_New [''state'', ''web'']) =
    (Some (Errorf ''exit status 1'' []), ''container web does not exist'')" by simp
  from crun_State_failure [OF this] show ?thesis by (simp add: sublist_Cons_right)
qed

end
