(* ===== verification/Reaper.thy ===== *)
theory Reaper
  imports Go_Os
begin

text \<open>
  The reaper (src/pkg/supervisor/reaper.go): the wait status of a child, the table of the children
  the kernel keeps for process 1, the loop that collects every zombie, and the bounded channel on
  which it publishes them.  \<open>Rusage\<close> is carried along by the code and read nowhere; it is left out.
\<close>

subsection \<open>Wait status\<close>

text \<open>\<open>syscall.WaitStatus\<close> of Linux: the low 7 bits are 0 for an exit, else the signal (0x7F: stopped).\<close>

type_synonym WaitStatus = "32 word"

definition ws_Exited :: "WaitStatus \<Rightarrow> bool" where
  "ws_Exited w \<longleftrightarrow> unat w mod 128 = 0"

definition ws_ExitStatus :: "WaitStatus \<Rightarrow> int" where
  "ws_ExitStatus w = (if \<not> ws_Exited w then -1 else int (unat w div 256 mod 256))"

definition ws_Signaled :: "WaitStatus \<Rightarrow> bool" where
  "ws_Signaled w \<longleftrightarrow> unat w mod 128 \<noteq> 127 \<and> unat w mod 128 \<noteq> 0"

definition exit_status :: "nat \<Rightarrow> WaitStatus" where
  "exit_status code = of_nat (256 * (code mod 256))"

definition signal_status :: "nat \<Rightarrow> WaitStatus" where
  "signal_status sig = of_nat (sig mod 127)"

record Reaped =
  rp_PID :: int
  rp_Status :: WaitStatus

lemma unat_small: "n < 2 ^ 32 \<Longrightarrow> unat (of_nat n :: 32 word) = n"
  by (simp add: unat_of_nat take_bit_eq_mod)

lemma exit_status_simps [simp]:
  assumes "code < 256"
  shows "ws_Exited (exit_status code)" "ws_ExitStatus (exit_status code) = int code"
    "\<not> ws_Signaled (exit_status code)"
proof -
  have "unat (exit_status code) = 256 * code"
    using assms unat_small [of "256 * code"] by (simp add: exit_status_def del: of_nat_mult)
  then show "ws_Exited (exit_status code)" "ws_ExitStatus (exit_status code) = int code"
    "\<not> ws_Signaled (exit_status code)"
    using assms by (auto simp: ws_Exited_def ws_ExitStatus_def ws_Signaled_def)
qed

lemma signal_status_simps [simp]:
  assumes "0 < sig" "sig < 127"
  shows "\<not> ws_Exited (signal_status sig)" "ws_ExitStatus (signal_status sig) = -1"
    "ws_Signaled (signal_status sig)"
proof -
  have "unat (signal_status sig) = sig" using assms by (simp add: signal_status_def unat_small)
  then show "\<not> ws_Exited (signal_status sig)" "ws_ExitStatus (signal_status sig) = -1"
    "ws_Signaled (signal_status sig)"
    using assms by (auto simp: ws_Exited_def ws_ExitStatus_def ws_Signaled_def)
qed

subsection \<open>Children\<close>

text \<open>
  The children of process 1: those that run, and those that have exited and wait to be collected,
  oldest first.  \<open>Wait4(-1, WNOHANG)\<close> collects one; \<open>exec.Cmd.Wait\<close> collects the one it started.
\<close>

record proc_table =
  pt_live :: "int list"
  pt_zombies :: "(int \<times> WaitStatus) list"

definition proc_exit :: "int \<Rightarrow> WaitStatus \<Rightarrow> proc_table \<Rightarrow> proc_table" where
  "proc_exit pid ws p = p\<lparr>pt_live := filter (\<lambda>x. x \<noteq> pid) (pt_live p),
     pt_zombies := pt_zombies p @ [(pid, ws)]\<rparr>"

datatype wait_result = WaitChild int WaitStatus | WaitNone | WaitErr int

definition wait4_any :: "proc_table \<Rightarrow> wait_result \<times> proc_table" where
  "wait4_any p =
     (case pt_zombies p of
        (pid, ws) # zs \<Rightarrow> (WaitChild pid ws, p\<lparr>pt_zombies := zs\<rparr>)
      | [] \<Rightarrow> (if pt_live p = [] then WaitErr ECHILD else WaitNone, p))"

text \<open>Waiting for one child by its pid; \<^const>\<open>None\<close> while that child still runs.\<close>

definition cmd_wait :: "int \<Rightarrow> proc_table \<Rightarrow> (goerr option \<times> proc_table) option" where
  "cmd_wait pid p =
     (case map_of (pt_zombies p) pid of
        Some ws \<Rightarrow> Some (if ws_Exited ws \<and> ws_ExitStatus ws = 0 then None
                      else Some (Errorf ''exit status'' [AInt (ws_ExitStatus ws)]),
                    p\<lparr>pt_zombies := filter (\<lambda>z. fst z \<noteq> pid) (pt_zombies p)\<rparr>)
      | None \<Rightarrow> if pid \<in> set (pt_live p) then None
                else Some (Some (Wrapf ''wait: %w'' [] (Errno ECHILD)), p))"

subsection \<open>The channel and the drain\<close>

definition chan_cap :: nat where "chan_cap = 64"

text \<open>\<open>select { case r.events <- ev: default: }\<close>: a full buffer drops the event.\<close>

definition publish :: "Reaped list \<Rightarrow> Reaped \<Rightarrow> Reaped list" where
  "publish ch ev = (if length ch < chan_cap then ch @ [ev] else ch)"

text \<open>One round of the loop: collect a child and publish it; \<^const>\<open>None\<close> when the loop returns.\<close>

definition drain_step :: "proc_table \<times> Reaped list \<Rightarrow> (proc_table \<times> Reaped list) option" where
  "drain_step pc =
     (case wait4_any (fst pc) of
        (WaitChild pid ws, p') \<Rightarrow>
          if pid \<le> 0 then None
          else Some (p', publish (snd pc) \<lparr>rp_PID = pid, rp_Status = ws\<rparr>)
      | _ \<Rightarrow> None)"

function drain :: "proc_table \<times> Reaped list \<Rightarrow> proc_table \<times> Reaped list" where
  "drain pc = (case drain_step pc of None \<Rightarrow> pc | Some pc' \<Rightarrow> drain pc')"
  by pat_completeness auto

lemma drain_step_less:
  "drain_step pc = Some pc' \<Longrightarrow> length (pt_zombies (fst pc')) < length (pt_zombies (fst pc))"
  by (auto simp: drain_step_def wait4_any_def split: wait_result.splits if_splits list.splits)

termination drain
  by (relation "measure (\<lambda>pc. length (pt_zombies (fst pc)))") (simp_all add: drain_step_less)

declare drain.simps [simp del]

definition reaped_of :: "(int \<times> WaitStatus) list \<Rightarrow> Reaped list" where
  "reaped_of zs = map (\<lambda>(pid, ws). \<lparr>rp_PID = pid, rp_Status = ws\<rparr>) zs"

lemma drain_run:
  assumes "pt_zombies p = zs" "list_all (\<lambda>z. 0 < fst z) zs" "length ch \<le> chan_cap"
  shows "drain (p, ch) = (p\<lparr>pt_zombies := []\<rparr>, ch @ take (chan_cap - length ch) (reaped_of zs))"
  using assms
proof (induction zs arbitrary: p ch)
  case Nil
  then show ?case by (subst drain.simps) (simp add: drain_step_def wait4_any_def reaped_of_def)
next
  case (Cons z zs)
  obtain pid ws where z: "z = (pid, ws)" by force
  let ?ev = "\<lparr>rp_PID = pid, rp_Status = ws\<rparr>"
  have "drain (p, ch) = drain (p\<lparr>pt_zombies := zs\<rparr>, publish ch ?ev)"
    using Cons.prems z by (subst drain.simps) (simp add: drain_step_def wait4_any_def)
  also have "\<dots> = (p\<lparr>pt_zombies := []\<rparr>,
      publish ch ?ev @ take (chan_cap - length (publish ch ?ev)) (reaped_of zs))"
    using Cons.IH [of "p\<lparr>pt_zombies := zs\<rparr>" "publish ch ?ev"] Cons.prems
    by (simp add: publish_def)
  also have "publish ch ?ev @ take (chan_cap - length (publish ch ?ev)) (reaped_of zs) =
      ch @ take (chan_cap - length ch) (reaped_of (z # zs))"
    using Cons.prems z by (auto simp: publish_def reaped_of_def take_Cons' Suc_diff_Suc)
  finally show ?case .
qed

text \<open>
  The drain collects every child that has exited and publishes them in the order they exited, up
  to the capacity of the channel: a prefix of them, of which only those past the 64th waiting event
  are lost, and no child is left a zombie.
\<close>

theorem drain_collects_all:
  assumes "list_all (\<lambda>z. 0 < fst z) (pt_zombies p)" "length ch \<le> chan_cap"
  shows "pt_zombies (fst (drain (p, ch))) = [] \<and> pt_live (fst (drain (p, ch))) = pt_live p \<and>
    snd (drain (p, ch)) = ch @ take (chan_cap - length ch) (reaped_of (pt_zombies p)) \<and>
    length (snd (drain (p, ch))) \<le> chan_cap"
  using drain_run [OF refl assms] assms(2) by simp

theorem drain_collects_all_witness:
  "snd (drain (\<lparr>pt_live = [7], pt_zombies = [(5, 0), (6, 256)]\<rparr>, [])) =
    [\<lparr>rp_PID = 5, rp_Status = 0\<rparr>, \<lparr>rp_PID = 6, rp_Status = 256\<rparr>]"
proof -
  let ?p = "\<lparr>pt_live = [7], pt_zombies = [(5, 0), (6, 256)]\<rparr> :: proc_table"
  have "list_all (\<lambda>z. 0 < fst z) (pt_zombies ?p)" "length ([] :: Reaped list) \<le> chan_cap" by simp_all
  from drain_collects_all [OF this] show ?thesis by (simp add: chan_cap_def reaped_of_def)
qed

text \<open>
  The reaper takes the exits of the runtime's own commands too: when it drains between the exit of
  a command and the \<open>Wait\<close> of the code that started it, that \<open>Wait\<close> fails with ECHILD, although
  the command succeeded; without the drain in between it reports success.
\<close>

theorem drain_steals_command_exit:
  assumes "pt_live p = pid # ps" "pid \<notin> set ps" "0 < pid" "pt_zombies p = []" "length ch < chan_cap"
  shows "map_option fst (cmd_wait pid (proc_exit pid 0 p)) = Some None \<and>
    map_option fst (cmd_wait pid (fst (drain (proc_exit pid 0 p, ch)))) =
      Some (Some (Wrapf ''wait: %w'' [] (Errno ECHILD))) \<and>
    snd (drain (proc_exit pid 0 p, ch)) = ch @ [\<lparr>rp_PID = pid, rp_Status = 0\<rparr>]"
proof -
  have "drain (proc_exit pid 0 p, ch) = ((proc_exit pid 0 p)\<lparr>pt_zombies := []\<rparr>,
      ch @ take (chan_cap - length ch) (reaped_of [(pid, 0)]))"
    using assms by (intro drain_run) (simp_all add: proc_exit_def)
  then show ?thesis
    using assms by (simp add: cmd_wait_def proc_exit_def reaped_of_def ws_Exited_def ws_ExitStatus_def)
qed

theorem drain_steals_command_exit_witness:
  "map_option fst (cmd_wait 42 (fst (drain (proc_exit 42 0 \<lparr>pt_live = [42], pt_zombies = []\<rparr>, [])))) =
    Some (Some (Wrapf ''wait: %w'' [] (Errno ECHILD)))"
  using drain_steals_command_exit [of "\<lparr>pt_live = [42], pt_zombies = []\<rparr>" 42 "[]" "[]"]
  by (simp add: chan_cap_def)

end
