(* ===== verification/Supervisor.thy ===== *)
theory Supervisor
  imports Oci_Runtime Reaper Pod_Spec "HOL-Library.AList"
begin

text \<open>
  The supervisor (src/pkg/supervisor/supervisor.go), one goroutine at a time: its state, starting a
  container, the restart policy, what the consumer makes of one reaped child, and the test \<open>Stop\<close>
  waits for.  \<^theory_text>\<open>Supervisor_Run\<close> interleaves the goroutines.

  The maps are association lists with distinct keys, in the order a \<open>range\<close> visits them.  A
  \<open>*containerState\<close> is always the one its id has in \<open>states\<close>, so the pointer is the id.  A closed
  \<open>done\<close> channel is a flag; closing it again, or going through a nil pointer, is a panic, which
  ends process 1: the flag \<open>s_panic\<close>.  \<open>lastStart\<close> is written and never read; it is left out.
\<close>

subsection \<open>State\<close>

record containerState =
  st_restart :: RestartPolicy
  st_starts :: nat
  st_lastExit :: "Reaped option"
  st_pid :: int
  st_stopped :: bool
  st_done :: bool

record Supervisor =
  s_states :: "(string \<times> containerState) list"
  s_pidIndex :: "(int \<times> string) list"
  s_panic :: bool

definition New :: Supervisor where
  "New = \<lparr>s_states = [], s_pidIndex = [], s_panic = False\<rparr>"

definition new_state :: "Container \<Rightarrow> containerState" where
  "new_state c = \<lparr>st_restart = c_Restart c, st_starts = 0, st_lastExit = None, st_pid = 0,
     st_stopped = False, st_done = False\<rparr>"

definition add_state :: "Container \<Rightarrow> Supervisor \<Rightarrow> Supervisor" where
  "add_state c s = s\<lparr>s_states := AList.update (c_ID c) (new_state c) (s_states s)\<rparr>"

text \<open>A write through the pointer to the state of \<open>i\<close>.\<close>

definition with_state :: "string \<Rightarrow> (containerState \<Rightarrow> containerState) \<Rightarrow> Supervisor \<Rightarrow> Supervisor" where
  "with_state i f s =
     (case map_of (s_states s) i of
        None \<Rightarrow> s\<lparr>s_panic := True\<rparr>
      | Some st \<Rightarrow> s\<lparr>s_states := AList.update i (f st) (s_states s)\<rparr>)"

definition close_done :: "string \<Rightarrow> Supervisor \<Rightarrow> Supervisor" where
  "close_done i s =
     (case map_of (s_states s) i of
        None \<Rightarrow> s\<lparr>s_panic := True\<rparr>
      | Some st \<Rightarrow>
          if st_done st then s\<lparr>s_panic := True\<rparr>
          else with_state i (\<lambda>st. st\<lparr>st_done := True\<rparr>) s)"

subsection \<open>Starting a container\<close>

text \<open>
  The two locked sections: after a start, and on the exit of a known child.
\<close>

definition register_start :: "string \<Rightarrow> int \<Rightarrow> Supervisor \<Rightarrow> Supervisor" where
  "register_start i pid s =
     (let s' = with_state i (\<lambda>st. st\<lparr>st_pid := pid, st_starts := Suc (st_starts st)\<rparr>) s
      in if 0 < pid then s'\<lparr>s_pidIndex := AList.update pid i (s_pidIndex s')\<rparr> else s')"

definition register_exit :: "string \<Rightarrow> Reaped \<Rightarrow> Supervisor \<Rightarrow> Supervisor" where
  "register_exit i ev s =
     with_state i (\<lambda>st. st\<lparr>st_lastExit := Some ev\<rparr>)
       (s\<lparr>s_pidIndex := AList.delete (rp_PID ev) (s_pidIndex s)\<rparr>)"

definition console_stdio :: "goerr option \<Rightarrow> Stdio" where
  "console_stdio err =
     (if err = None
      then \<lparr>io_Stdin = None, io_Stdout = Some ''/dev/console'', io_Stderr = Some ''/dev/console''\<rparr>
      else no_stdio)"

definition startOne ::
    "kernel \<Rightarrow> runtime \<Rightarrow> (string \<times> string) list \<Rightarrow> Container \<Rightarrow> Supervisor \<Rightarrow>
     (goerr option \<times> Supervisor) io" where
  "startOne K rt bundles c s =
     (case map_of bundles (c_ID c) of
        None \<Rightarrow> ret (Some (Errorf ''no bundle prepared for container %q'' [AStr (c_ID c)]), s)
      | Some bundle \<Rightarrow> do {
          con \<leftarrow> os_open K ''/dev/console'';
          e \<leftarrow> rt_Create rt (c_ID c) bundle (console_stdio con);
          (if e \<noteq> None then ret (e, s)
           else do {
             e \<leftarrow> rt_Start rt (c_ID c);
             (if e \<noteq> None then do {
                _ \<leftarrow> rt_Delete rt (c_ID c);
                ret (e, s)
              }
              else do {
                (_, pid, _) \<leftarrow> rt_State rt (c_ID c);
                ret (None, register_start (c_ID c) pid s)
              })
           })
        })"

subsection \<open>The restart policy\<close>

definition shouldRestart :: "containerState \<Rightarrow> Reaped \<Rightarrow> bool" where
  "shouldRestart st ev =
     (if st_stopped st then False
      else if st_restart st = RestartAlways then True
      else if st_restart st = RestartOnFailure
      then ws_ExitStatus (rp_Status ev) \<noteq> 0 \<or> ws_Signaled (rp_Status ev)
      else False)"

fun findSpec :: "Container list \<Rightarrow> string \<Rightarrow> Container option" where
  "findSpec [] i = None"
| "findSpec (c # cs) i = (if c_ID c = i then Some c else findSpec cs i)"

text \<open>The consumer's work on one reaped child.\<close>

definition consume ::
    "kernel \<Rightarrow> runtime \<Rightarrow> (string \<times> string) list \<Rightarrow> Container list \<Rightarrow> Reaped \<Rightarrow> Supervisor \<Rightarrow>
     Supervisor io" where
  "consume K rt bundles cs ev s =
     (case map_of (s_pidIndex s) (rp_PID ev) of
        None \<Rightarrow> ret s
      | Some i \<Rightarrow>
          (case map_of (s_states s) i of
             None \<Rightarrow> ret (s\<lparr>s_panic := True\<rparr>)
           | Some st \<Rightarrow> do {
               let s = register_exit i ev s;
               _ \<leftarrow> rt_Delete rt i;
               (if shouldRestart st ev
                then (case findSpec cs i of
                        None \<Rightarrow> ret (close_done i s)
                      | Some c \<Rightarrow> do {
                          (e, s') \<leftarrow> startOne K rt bundles c s;
                          ret (if e \<noteq> None then close_done i s' else s')
                        })
                else ret (close_done i s))
             }))"

definition allExited :: "Supervisor \<Rightarrow> bool" where
  "allExited s = list_all (\<lambda>(i, st). st_lastExit st \<noteq> None) (s_states s)"

text \<open>The first locked section of \<open>Stop\<close>: every restart is disabled, and the ids are collected.\<close>

definition mark_stopped :: "Supervisor \<Rightarrow> Supervisor" where
  "mark_stopped s = s\<lparr>s_states := map (\<lambda>(i, st). (i, st\<lparr>st_stopped := True\<rparr>)) (s_states s)\<rparr>"

definition stop_ids :: "Supervisor \<Rightarrow> string list" where
  "stop_ids s = map fst (s_states s)"

subsection \<open>Views of the state\<close>

definition state_of :: "Supervisor \<Rightarrow> string \<Rightarrow> containerState option" where
  "state_of s i = map_of (s_states s) i"

definition tracked :: "Supervisor \<Rightarrow> int \<Rightarrow> string option" where
  "tracked s p = map_of (s_pidIndex s) p"

lemma state_of_with [simp]: "state_of s i = Some st \<Longrightarrow>
  state_of (with_state i f s) j = (if j = i then Some (f st) else state_of s j)"
  by (simp add: state_of_def with_state_def update_conv')

lemma tracked_with [simp]: "tracked (with_state i f s) = tracked s"
  by (simp add: tracked_def with_state_def fun_eq_iff split: option.split)

lemma panic_with [simp]: "state_of s i = Some st \<Longrightarrow> s_panic (with_state i f s) = s_panic s"
  by (simp add: state_of_def with_state_def)

lemma state_of_cong [simp]:
  "state_of (s\<lparr>s_pidIndex := ix\<rparr>) = state_of s" "state_of (s\<lparr>s_panic := b\<rparr>) = state_of s"
  by (simp_all add: state_of_def fun_eq_iff)

lemma tracked_panic [simp]: "tracked (s\<lparr>s_panic := b\<rparr>) = tracked s"
  by (simp add: tracked_def fun_eq_iff)

lemma state_of_add [simp]: "state_of (add_state c s) = (state_of s)(c_ID c \<mapsto> new_state c)"
  by (simp add: state_of_def add_state_def update_conv' fun_eq_iff)

lemma tracked_add [simp]: "tracked (add_state c s) = tracked s" "s_panic (add_state c s) = s_panic s"
  by (simp_all add: tracked_def add_state_def fun_eq_iff)

lemma close_done_simps [simp]:
  assumes "state_of s i = Some st" "\<not> st_done st"
  shows "state_of (close_done i s) = (state_of s)(i \<mapsto> st\<lparr>st_done := True\<rparr>)"
    "tracked (close_done i s) = tracked s" "s_panic (close_done i s) = s_panic s"
proof -
  have e: "close_done i s = with_state i (\<lambda>st. st\<lparr>st_done := True\<rparr>) s"
    using assms by (simp add: close_done_def state_of_def)
  show "state_of (close_done i s) = (state_of s)(i \<mapsto> st\<lparr>st_done := True\<rparr>)"
    "tracked (close_done i s) = tracked s" "s_panic (close_done i s) = s_panic s"
    unfolding e using assms(1) by (simp_all add: fun_eq_iff)
qed

lemma register_start_simps [simp]:
  assumes "state_of s i = Some st"
  shows "state_of (register_start i pid s) =
      (state_of s)(i \<mapsto> st\<lparr>st_pid := pid, st_starts := Suc (st_starts st)\<rparr>)"
    "tracked (register_start i pid s) = (if 0 < pid then (tracked s)(pid \<mapsto> i) else tracked s)"
    "s_panic (register_start i pid s) = s_panic s"
  using assms
  by (auto simp: register_start_def Let_def fun_eq_iff tracked_def with_state_def state_of_def update_conv')

lemma register_exit_simps [simp]:
  assumes "state_of s i = Some st"
  shows "state_of (register_exit i ev s) = (state_of s)(i \<mapsto> st\<lparr>st_lastExit := Some ev\<rparr>)"
    "tracked (register_exit i ev s) = (tracked s)(rp_PID ev := None)"
    "s_panic (register_exit i ev s) = s_panic s"
  using assms
  by (auto simp: register_exit_def fun_eq_iff tracked_def with_state_def state_of_def update_conv'
      delete_conv')

lemma state_of_mark [simp]: "state_of (mark_stopped s) i =
  map_option (\<lambda>st. st\<lparr>st_stopped := True\<rparr>) (state_of s i)"
  by (simp add: state_of_def mark_stopped_def map_of_map)

lemma tracked_mark [simp]: "tracked (mark_stopped s) = tracked s" "s_panic (mark_stopped s) = s_panic s"
  by (simp_all add: tracked_def mark_stopped_def fun_eq_iff)

lemma findSpec_Some: "findSpec cs i = Some c \<Longrightarrow> c \<in> set cs \<and> c_ID c = i"
  by (induction cs) (auto split: if_splits)

lemma findSpec_in: "distinct (map c_ID cs) \<Longrightarrow> c \<in> set cs \<Longrightarrow> findSpec cs (c_ID c) = Some c"
  by (induction cs) auto

lemma findSpec_None_iff: "findSpec cs i = None \<longleftrightarrow> i \<notin> c_ID ` set cs"
  by (induction cs) auto

subsection \<open>What a start does to the system\<close>

text \<open>
  The runs of the runtime a start consists of, in order: \<open>create\<close>, then \<open>start\<close>, then \<open>state\<close>; the
  first failure ends it, and a container that was created but did not start is deleted again.
\<close>

definition start_events :: "(rt_call \<Rightarrow> string list) \<Rightarrow> string \<Rightarrow> string \<Rightarrow> goerr option \<Rightarrow> event list \<Rightarrow> bool" where
  "start_events argv i b e es \<longleftrightarrow>
     (\<exists>con x. es = [con, EExec (argv (CallCreate i b)) (Some x)] \<and> e \<noteq> None) \<or>
     (\<exists>con x y. es = [con, EExec (argv (CallCreate i b)) None, EExec (argv (CallStart i)) (Some x),
        EExec (argv (CallDelete i)) y] \<and> e \<noteq> None) \<or>
     (\<exists>con y. es = [con, EExec (argv (CallCreate i b)) None, EExec (argv (CallStart i)) None,
        EExec (argv (CallState i)) y] \<and> e = None)"

context oci_runtime begin

lemma startOne_run:
  assumes "run_state (startOne K rt bundles c s) tr = ((e, s'), tr')"
  shows "case map_of bundles (c_ID c) of
      None \<Rightarrow> e \<noteq> None \<and> s' = s \<and> tr' = tr
    | Some b \<Rightarrow> (\<exists>es. tr' = tr @ es \<and> start_events argv (c_ID c) b e es) \<and>
        (e \<noteq> None \<longrightarrow> s' = s) \<and>
        (e = None \<longrightarrow> (\<exists>status pid err. 0 \<le> pid \<and> s' = register_start (c_ID c) pid s \<and>
           fst (run_state (rt_State rt (c_ID c)) (butlast tr')) = (status, pid, err)))"
proof (cases "map_of bundles (c_ID c)")
  case None
  with assms show ?thesis by (auto simp: startOne_def)
next
  case (Some b)
  let ?i = "c_ID c" let ?con = "k_open K tr ''/dev/console''"
  let ?ev = "EOpen ''/dev/console'' ?con" let ?t0 = "tr @ [?ev]"
  obtain r1 t1 where 1: "run_state (rt_Create rt ?i b (console_stdio ?con)) ?t0 = (r1, t1)" by fastforce
  from Create_run [OF 1] obtain x1 where x1: "t1 = ?t0 @ [EExec (argv (CallCreate ?i b)) x1]"
    "r1 = None \<longleftrightarrow> x1 = None" by blast
  obtain r2 t2 where 2: "run_state (rt_Start rt ?i) t1 = (r2, t2)" by fastforce
  from Start_run [OF 2] obtain x2 where x2: "t2 = t1 @ [EExec (argv (CallStart ?i)) x2]"
    "r2 = None \<longleftrightarrow> x2 = None" by blast
  obtain r3 t3 where 3: "run_state (rt_Delete rt ?i) t2 = (r3, t3)" by fastforce
  from Delete_run [OF 3] obtain x3 where x3: "t3 = t2 @ [EExec (argv (CallDelete ?i)) x3]" by blast
  obtain status pid e4 t4 where 4: "run_state (rt_State rt ?i) t2 = ((status, pid, e4), t4)"
    by (metis prod.exhaust_sel)
  from State_run [OF 4] obtain x4 where x4: "t4 = t2 @ [EExec (argv (CallState ?i)) x4]" "0 \<le> pid" by blast
  have run: "((e, s'), tr') = (if r1 \<noteq> None then ((r1, s), t1) else if r2 \<noteq> None then ((r2, s), t3)
      else ((None, register_start ?i pid s), t4))"
    using assms Some 1 2 3 4 by (cases r1; cases r2) (auto simp: startOne_def os_open_def)
  have "fst (run_state (rt_State rt ?i) (butlast t4)) = (status, pid, e4)" using 4 x4(1) by simp
  then show ?thesis using run x1 x2 x3 x4 Some by (auto simp: start_events_def split: if_splits)
qed

lemma startOne_cases:
  assumes "run_state (startOne K rt bundles c s) tr = ((e, s'), tr')"
  obtains "e \<noteq> None" "s' = s" | pid where "e = None" "0 \<le> pid" "s' = register_start (c_ID c) pid s"
  using startOne_run [OF assms] by (cases e) (auto split: option.splits)

end

lemma rt_State_crun: "rt_State (crun_runtime K r) = crun_State K r"
  by (simp add: crun_runtime_def)

text \<open>
  Starting a container with crun: without a bundle nothing is run; otherwise crun is run to create
  the container on its bundle, then to start it, then to ask for its state, the start succeeds exactly
  when the first two do, a failed start deletes what was created, and only a start that succeeds
  counts and registers the pid crun reports.
\<close>

theorem crun_startOne_sequence:
  assumes "run_state (startOne K (crun_runtime K r) bundles c s) tr = ((e, s'), tr')"
  shows "case map_of bundles (c_ID c) of
      None \<Rightarrow> e \<noteq> None \<and> s' = s \<and> tr' = tr
    | Some b \<Rightarrow> (\<exists>es. tr' = tr @ es \<and> start_events (crun_argv r) (c_ID c) b e es) \<and>
        (e \<noteq> None \<longrightarrow> s' = s) \<and>
        (e = None \<longrightarrow> (\<exists>status pid err. 0 \<le> pid \<and> s' = register_start (c_ID c) pid s \<and>
           fst (run_state (crun_State K r (c_ID c)) (butlast tr')) = (status, pid, err)))"
  using crun.startOne_run [OF assms] unfolding rt_State_crun .

theorem crun_startOne_sequence_witness:
  "\<exists>e s' tr'. run_state (startOne (kernel_with (\<lambda>_. None)) (crun_runtime (kernel_with (\<lambda>_. None)) crun_New)
      [(''web'', ''/b/web'')] (new_container ''web'' ''r'') New) [] = ((e, s'), tr') \<and> length tr' = 4"
proof -
  let ?K = "kernel_with (\<lambda>_. None)"
  obtain e s' tr' where run: "run_state (startOne ?K (crun_runtime ?K crun_New) [(''web'', ''/b/web'')]
      (new_container ''web'' ''r'') New) [] = ((e, s'), tr')" by (metis prod.exhaust_sel)
  then have "e = None"
    by (auto simp: startOne_def crun_runtime_def crun_Create_def crun_Start_def crun_State_def
        combinedRun_def os_open_def exec_run_def kernel_with_def split: prod.splits)
  with crun_startOne_sequence [OF run] run show ?thesis by (auto simp: start_events_def)
qed

subsection \<open>The restart policy\<close>

lemma on_failure_iff:
  "ws_ExitStatus w \<noteq> 0 \<or> ws_Signaled w \<longleftrightarrow> \<not> (ws_Exited w \<and> ws_ExitStatus w = 0)"
  by (auto simp: ws_ExitStatus_def ws_Exited_def ws_Signaled_def)

lemma policies_distinct [simp]: "RestartAlways \<noteq> RestartOnFailure" "RestartOnFailure \<noteq> RestartAlways"
  "RestartNever \<noteq> RestartAlways" "RestartNever \<noteq> RestartOnFailure"
  by (simp_all add: RestartAlways_def RestartOnFailure_def RestartNever_def)

text \<open>
  The restart policy on every branch: a container is started again exactly when \<open>Stop\<close> has not
  been called and its policy is \<open>always\<close>, or its policy is \<open>on-failure\<close> and it did not exit with
  status 0; for an exit with a code that is a code other than 0, for a death by signal always.
\<close>

theorem shouldRestart_policy:
  "(shouldRestart st ev \<longleftrightarrow> \<not> st_stopped st \<and> (st_restart st = RestartAlways \<or>
      st_restart st = RestartOnFailure \<and>
        \<not> (ws_Exited (rp_Status ev) \<and> ws_ExitStatus (rp_Status ev) = 0))) \<and>
   (\<forall>code. code < 256 \<longrightarrow> \<not> st_stopped st \<longrightarrow> st_restart st = RestartOnFailure \<longrightarrow>
      (shouldRestart st \<lparr>rp_PID = p, rp_Status = exit_status code\<rparr> \<longleftrightarrow> code \<noteq> 0)) \<and>
   (\<forall>sig. 0 < sig \<longrightarrow> sig < 127 \<longrightarrow> \<not> st_stopped st \<longrightarrow> st_restart st = RestartOnFailure \<longrightarrow>
      shouldRestart st \<lparr>rp_PID = p, rp_Status = signal_status sig\<rparr>)"
  using on_failure_iff [of "rp_Status ev"] by (auto simp: shouldRestart_def)

theorem shouldRestart_policy_witness:
  "let st = \<lparr>st_restart = RestartOnFailure, st_starts = 1, st_lastExit = None, st_pid = 7,
      st_stopped = False, st_done = False\<rparr>
   in \<not> shouldRestart st \<lparr>rp_PID = 7, rp_Status = exit_status 0\<rparr> \<and>
      shouldRestart st \<lparr>rp_PID = 7, rp_Status = exit_status 3\<rparr> \<and>
      shouldRestart st \<lparr>rp_PID = 7, rp_Status = signal_status 9\<rparr>"
  using shouldRestart_policy [of "\<lparr>st_restart = RestartOnFailure, st_starts = 1, st_lastExit = None,
    st_pid = 7, st_stopped = False, st_done = False\<rparr>" "\<lparr>rp_PID = 7, rp_Status = 0\<rparr>" 7]
  by (simp add: Let_def)

subsection \<open>The consumer\<close>

text \<open>
  What the consumer relies on and keeps between two events: no panic, every tracked pid belongs to a
  container that is known and not done, and no container has two tracked pids.
\<close>

definition sup_ok :: "Supervisor \<Rightarrow> bool" where
  "sup_ok s \<longleftrightarrow> \<not> s_panic s \<and>
     (\<forall>p i. tracked s p = Some i \<longrightarrow> (\<exists>st. state_of s i = Some st \<and> \<not> st_done st)) \<and>
     (\<forall>p q i. tracked s p = Some i \<longrightarrow> tracked s q = Some i \<longrightarrow> p = q)"

lemma sup_ok_exit:
  assumes "sup_ok s" "tracked s (rp_PID ev) = Some i"
  obtains st where "state_of s i = Some st" "\<not> st_done st"
    "state_of (register_exit i ev s) i = Some (st\<lparr>st_lastExit := Some ev\<rparr>)"
    "\<And>p. tracked (register_exit i ev s) p \<noteq> Some i" "sup_ok (register_exit i ev s)"
proof -
  from assms obtain st where st: "state_of s i = Some st" "\<not> st_done st"
    unfolding sup_ok_def by blast
  moreover have "tracked (register_exit i ev s) p \<noteq> Some i" for p
    using assms st unfolding sup_ok_def by auto
  moreover have "sup_ok (register_exit i ev s)"
    using assms st unfolding sup_ok_def by (auto simp: if_splits)
  ultimately show thesis using that by simp
qed

lemma sup_ok_close:
  assumes "sup_ok s" "state_of s i = Some st" "\<not> st_done st" "\<And>p. tracked s p \<noteq> Some i"
  shows "sup_ok (close_done i s)"
  using assms unfolding sup_ok_def by auto

lemma sup_ok_start:
  assumes "sup_ok s" "state_of s i = Some st" "\<not> st_done st" "\<And>p. tracked s p \<noteq> Some i"
  shows "sup_ok (register_start i pid s)"
  using assms unfolding sup_ok_def by (auto split: if_splits)

context oci_runtime begin

lemma consume_cases:
  assumes ok: "sup_ok s" and run: "run_state (consume K rt bundles cs ev s) tr = (s', tr')"
  obtains (unknown) "tracked s (rp_PID ev) = None" "s' = s" "tr' = tr"
  | (finished) i st x es where "tracked s (rp_PID ev) = Some i" "state_of s i = Some st"
      "s' = close_done i (register_exit i ev s)" "tr' = tr @ EExec (argv (CallDelete i)) x # es"
      "if shouldRestart st ev \<and> findSpec cs i \<noteq> None
       then (case map_of bundles i of None \<Rightarrow> es = [] | Some b \<Rightarrow> \<exists>e. e \<noteq> None \<and> start_events argv i b e es)
       else es = []"
  | (restarted) i st b x es status pid err where "tracked s (rp_PID ev) = Some i" "state_of s i = Some st"
      "s' = register_start i pid (register_exit i ev s)" "0 \<le> pid"
      "tr' = tr @ EExec (argv (CallDelete i)) x # es" "shouldRestart st ev" "findSpec cs i \<noteq> None"
      "map_of bundles i = Some b" "start_events argv i b None es"
      "fst (run_state (rt_State rt i) (butlast tr')) = (status, pid, err)"
proof (cases "tracked s (rp_PID ev)")
  case None
  with run show thesis by (intro unknown) (simp_all add: consume_def tracked_def)
next
  case i: (Some i)
  with ok obtain st where st: "state_of s i = Some st" using sup_ok_exit by blast
  let ?s = "register_exit i ev s"
  obtain r t where t: "run_state (rt_Delete rt i) tr = (r, t)" by fastforce
  from Delete_run [OF t] obtain x where x: "t = tr @ [EExec (argv (CallDelete i)) x]" by blast
  show thesis
  proof (cases "shouldRestart st ev \<and> findSpec cs i \<noteq> None")
    case False
    with run i st t x show thesis
      by (intro finished [of i st x "[]"]) (auto simp: consume_def tracked_def state_of_def Let_def split: if_splits option.splits)
  next
    case True
    then obtain c where c: "findSpec cs i = Some c" "c_ID c = i" using findSpec_Some by fastforce
    obtain e s1 t1 where s1: "run_state (startOne K rt bundles c ?s) t = ((e, s1), t1)"
      by (metis prod.exhaust_sel)
    have s': "s' = (if e \<noteq> None then close_done i s1 else s1)" "tr' = t1"
      using run True c i st t s1 by (auto simp: consume_def tracked_def state_of_def)
    note start = startOne_run [OF s1, unfolded c(2)]
    show thesis
    proof (cases "e = None")
      case False
      from start False obtain es where "t1 = t @ es" "s1 = ?s"
        "case map_of bundles i of None \<Rightarrow> es = [] | Some b \<Rightarrow> start_events argv i b e es"
        by (cases "map_of bundles i") auto
      with False True i st x s' show thesis
        by (intro finished [of i st x es]) (auto split: option.splits)
    next
      case none: True
      from start none obtain b es status pid err where "map_of bundles i = Some b" "t1 = t @ es"
        "start_events argv i b None es" "0 \<le> pid" "s1 = register_start i pid ?s"
        "fst (run_state (rt_State rt i) (butlast t1)) = (status, pid, err)"
        by (cases "map_of bundles i") auto
      with none True i st x s' show thesis
        by (intro restarted [of i st pid x es b status err]) auto
    qed
  qed
qed

lemma consume_ok:
  assumes ok: "sup_ok s" and run: "run_state (consume K rt bundles cs ev s) tr = (s', tr')"
  shows "sup_ok s'"
proof -
  have upd: "st_done (st\<lparr>st_lastExit := x\<rparr>) = st_done st" for st x by simp
  show ?thesis
  proof (rule consume_cases [OF ok run])
    fix i st assume "tracked s (rp_PID ev) = Some i" "s' = close_done i (register_exit i ev s)"
    with sup_ok_exit [OF ok this(1)] upd show ?thesis by (metis sup_ok_close)
  next
    fix i st c pid assume "tracked s (rp_PID ev) = Some i" "s' = register_start i pid (register_exit i ev s)"
    with sup_ok_exit [OF ok this(1)] upd show ?thesis by (metis sup_ok_start)
  qed (use ok in simp)
qed

end

text \<open>The container \<open>i\<close> has exited for good: the exit is recorded, \<open>done\<close> closed, the pid forgotten.\<close>

definition exit_final :: "string \<Rightarrow> Reaped \<Rightarrow> containerState \<Rightarrow> Supervisor \<Rightarrow> Supervisor \<Rightarrow> bool" where
  "exit_final i ev st s s' \<longleftrightarrow>
     state_of s' = (state_of s)(i \<mapsto> st\<lparr>st_lastExit := Some ev, st_done := True\<rparr>) \<and>
     tracked s' = (tracked s)(rp_PID ev := None)"

text \<open>The container \<open>i\<close> runs again as \<open>pid\<close>: one more start, and the pid tracked when there is one.\<close>

definition exit_restarted ::
    "string \<Rightarrow> Reaped \<Rightarrow> containerState \<Rightarrow> int \<Rightarrow> Supervisor \<Rightarrow> Supervisor \<Rightarrow> bool" where
  "exit_restarted i ev st pid s s' \<longleftrightarrow>
     state_of s' = (state_of s)(i \<mapsto>
       st\<lparr>st_lastExit := Some ev, st_pid := pid, st_starts := Suc (st_starts st)\<rparr>) \<and>
     tracked s' = (if 0 < pid then (tracked s)(rp_PID ev := None, pid \<mapsto> i)
                   else (tracked s)(rp_PID ev := None))"

text \<open>
  C9. What the consumer makes of one reaped child, on every branch.  A pid it does not track changes
  nothing and runs nothing.  For a tracked one crun is first run to delete the container.  Unless
  \<open>Stop\<close> was called, a container of the pod whose policy is \<open>always\<close>, or \<open>on-failure\<close> when it exited
  with a code other than 0 or died by a signal, is then started again from its bundle; when that
  succeeds the pid crun reports is tracked and counts as one more start.  In every other case, a
  restart without a bundle or one that fails included, the exit is recorded and the container is done
  for good, and without a restart crun is run for nothing else.  No other container or pid changes,
  and the invariant of the tracked pids is kept.
\<close>

theorem consume_correct:
  assumes "sup_ok s" "run_state (consume K (crun_runtime K r) bundles cs ev s) tr = (s', tr')"
  shows "sup_ok s' \<and> (case tracked s (rp_PID ev) of
      None \<Rightarrow> s' = s \<and> tr' = tr
    | Some i \<Rightarrow> \<exists>st x es. state_of s i = Some st \<and> \<not> st_done st \<and>
        tr' = tr @ EExec (crun_argv r (CallDelete i)) x # es \<and>
        (if \<not> st_stopped st \<and> i \<in> c_ID ` set cs \<and>
            (st_restart st = RestartAlways \<or> st_restart st = RestartOnFailure \<and>
               (ws_ExitStatus (rp_Status ev) \<noteq> 0 \<or> ws_Signaled (rp_Status ev)))
         then (case map_of bundles i of
             None \<Rightarrow> es = [] \<and> exit_final i ev st s s'
           | Some b \<Rightarrow> \<exists>e. start_events (crun_argv r) i b e es \<and>
               (if e \<noteq> None then exit_final i ev st s s'
                else \<exists>status pid err. 0 \<le> pid \<and> exit_restarted i ev st pid s s' \<and>
                  fst (run_state (crun_State K r i) (butlast tr')) = (status, pid, err)))
         else es = [] \<and> exit_final i ev st s s'))"
proof -
  have final: "\<not> st_done st \<and> exit_final i ev st s (close_done i (register_exit i ev s))"
    and again: "exit_restarted i ev st pid s (register_start i pid (register_exit i ev s))"
    if "tracked s (rp_PID ev) = Some i" "state_of s i = Some st" for i st pid
  proof -
    from sup_ok_exit [OF assms(1) that(1)] that(2) have e: "\<not> st_done st"
      "state_of (register_exit i ev s) i = Some (st\<lparr>st_lastExit := Some ev\<rparr>)" by auto
    then have "\<not> st_done (st\<lparr>st_lastExit := Some ev\<rparr>)" by simp
    from close_done_simps [OF e(2) this] e(1) that(2)
    show "\<not> st_done st \<and> exit_final i ev st s (close_done i (register_exit i ev s))"
      by (simp add: exit_final_def)
    from register_start_simps [OF e(2), of pid] that(2)
    show "exit_restarted i ev st pid s (register_start i pid (register_exit i ev s))"
      by (simp add: exit_restarted_def)
  qed
  have restart: "shouldRestart st ev \<and> findSpec cs i \<noteq> None \<longleftrightarrow> \<not> st_stopped st \<and> i \<in> c_ID ` set cs \<and>
      (st_restart st = RestartAlways \<or> st_restart st = RestartOnFailure \<and>
        (ws_ExitStatus (rp_Status ev) \<noteq> 0 \<or> ws_Signaled (rp_Status ev)))" for st i
    using findSpec_None_iff [of cs i] by (auto simp: shouldRestart_def)
  have "case tracked s (rp_PID ev) of
      None \<Rightarrow> s' = s \<and> tr' = tr
    | Some i \<Rightarrow> \<exists>st x es. state_of s i = Some st \<and> \<not> st_done st \<and>
        tr' = tr @ EExec (crun_argv r (CallDelete i)) x # es \<and>
        (if shouldRestart st ev \<and> findSpec cs i \<noteq> None
         then (case map_of bundles i of
             None \<Rightarrow> es = [] \<and> exit_final i ev st s s'
           | Some b \<Rightarrow> \<exists>e. start_events (crun_argv r) i b e es \<and>
               (if e \<noteq> None then exit_final i ev st s s'
                else \<exists>status pid err. 0 \<le> pid \<and> exit_restarted i ev st pid s s' \<and>
                  fst (run_state (crun_State K r i) (butlast tr')) = (status, pid, err)))
         else es = [] \<and> exit_final i ev st s s')"
    using assms
  proof (cases rule: crun.consume_cases)
    case (finished i st x es)
    with final [OF finished(1,2)] show ?thesis
      unfolding finished(1) option.case
      by (intro exI [of _ st] exI [of _ x] exI [of _ es]) (auto split: option.splits)
  next
    case (restarted i st b x es status pid err)
    with final [OF restarted(1,2)] again [OF restarted(1,2), of pid] show ?thesis
      unfolding restarted(1) option.case
      by (intro exI [of _ st] exI [of _ x] exI [of _ es]) (auto simp: rt_State_crun)
  qed simp
  with crun.consume_ok [OF assms] show ?thesis unfolding restart by simp
qed

text \<open>A supervisor with one container that runs as pid 7, for the witnesses.\<close>

definition one_running :: "RestartPolicy \<Rightarrow> Supervisor" where
  "one_running pol = \<lparr>s_states = [(''web'', \<lparr>st_restart = pol, st_starts = 1, st_lastExit = None,
     st_pid = 7, st_stopped = False, st_done = False\<rparr>)], s_pidIndex = [(7, ''web'')], s_panic = False\<rparr>"

lemma sup_ok_one_running: "sup_ok (one_running pol)"
  by (auto simp: sup_ok_def one_running_def tracked_def state_of_def split: if_splits)

theorem consume_correct_witness:
  "\<exists>s' x tr'. run_state (consume (kernel_with (\<lambda>_. None))
      (crun_runtime (kernel_with (\<lambda>_. None)) crun_New) [(''web'', ''/b/web'')] [new_container ''web'' ''r'']
      \<lparr>rp_PID = 7, rp_Status = exit_status 0\<rparr> (one_running RestartOnFailure)) [] = (s', tr') \<and>
    tr' = [EExec (crun_argv crun_New (CallDelete ''web'')) x] \<and> tracked s' 7 = None \<and>
    (\<exists>st'. state_of s' ''web'' = Some st' \<and> st_done st' \<and> st_starts st' = 1)"
proof -
  let ?K = "kernel_with (\<lambda>_. None)" let ?ev = "\<lparr>rp_PID = 7, rp_Status = exit_status 0\<rparr>"
  let ?s = "one_running RestartOnFailure"
  let ?st = "\<lparr>st_restart = RestartOnFailure, st_starts = 1, st_lastExit = None,
     st_pid = 7, st_stopped = False, st_done = False\<rparr>"
  obtain s' tr' where run: "run_state (consume ?K (crun_runtime ?K crun_New) [(''web'', ''/b/web'')]
      [new_container ''web'' ''r''] ?ev ?s) [] = (s', tr')" by fastforce
  have t: "tracked ?s (rp_PID ?ev) = Some ''web''" by (simp add: one_running_def tracked_def)
  have st: "state_of ?s ''web'' = Some ?st" by (simp add: one_running_def state_of_def)
  have n: "ws_ExitStatus (rp_Status ?ev) = 0" "\<not> ws_Signaled (rp_Status ?ev)"
    using on_failure_iff [of "exit_status 0"] by simp_all
  from consume_correct [OF sup_ok_one_running run] t st n
  have "\<exists>x. tr' = [EExec (crun_argv crun_New (CallDelete ''web'')) x] \<and> exit_final ''web'' ?ev ?st ?s s'"
    by auto
  with run show ?thesis by (auto simp: exit_final_def)
qed

text \<open>The consumer over a sequence of reaped children.\<close>

fun consume_all ::
    "kernel \<Rightarrow> runtime \<Rightarrow> (string \<times> string) list \<Rightarrow> Container list \<Rightarrow> Reaped list \<Rightarrow> Supervisor \<Rightarrow>
     Supervisor io" where
  "consume_all K rt bundles cs [] s = ret s"
| "consume_all K rt bundles cs (ev # evs) s = do {
     s \<leftarrow> consume K rt bundles cs ev s;
     consume_all K rt bundles cs evs s
   }"

context oci_runtime begin

lemma consume_untracked:
  assumes ok: "sup_ok s" and run: "run_state (consume K rt bundles cs ev s) tr = (s', tr')"
    and un: "\<forall>p. tracked s p \<noteq> Some i"
  shows "state_of s' i = state_of s i \<and> (\<forall>p. tracked s' p \<noteq> Some i)"
proof (rule consume_cases [OF ok run])
  fix j st assume j: "tracked s (rp_PID ev) = Some j" "s' = close_done j (register_exit j ev s)"
  with un have "i \<noteq> j" by blast
  from sup_ok_exit [OF ok j(1)] obtain st1 where e: "state_of s j = Some st1" "\<not> st_done st1"
    "state_of (register_exit j ev s) j = Some (st1\<lparr>st_lastExit := Some ev\<rparr>)" by blast
  then have "\<not> st_done (st1\<lparr>st_lastExit := Some ev\<rparr>)" by simp
  note c = close_done_simps [OF e(3) this]
  show ?thesis using c(1,2) e(1) un \<open>i \<noteq> j\<close> unfolding j(2) by simp
next
  fix j st c pid
  assume j: "tracked s (rp_PID ev) = Some j" "s' = register_start j pid (register_exit j ev s)"
  with un have "i \<noteq> j" by blast
  from sup_ok_exit [OF ok j(1)] obtain st1 where e: "state_of s j = Some st1"
    "state_of (register_exit j ev s) j = Some (st1\<lparr>st_lastExit := Some ev\<rparr>)" by blast
  note c = register_start_simps(1,2) [OF e(2), of pid]
  show ?thesis using c e(1) un \<open>i \<noteq> j\<close> unfolding j(2) by simp
qed (use un in simp)

lemma consume_all_untracked:
  assumes "sup_ok s" "run_state (consume_all K rt bundles cs evs s) tr = (s', tr')"
    "\<forall>p. tracked s p \<noteq> Some i"
  shows "state_of s' i = state_of s i"
  using assms
proof (induction evs arbitrary: s tr)
  case (Cons ev evs)
  obtain s1 t1 where 1: "run_state (consume K rt bundles cs ev s) tr = (s1, t1)" by fastforce
  with Cons.prems(2) have "run_state (consume_all K rt bundles cs evs s1) t1 = (s', tr')" by simp
  with Cons.IH [OF consume_ok [OF Cons.prems(1) 1]] consume_untracked [OF Cons.prems(1) 1 Cons.prems(3)]
  show ?case by simp
qed simp

end

text \<open>
  A start for which the runtime reports no pid is lost to the supervisor: the container counts as
  started, yet whatever children are reaped afterwards, its exit is never recorded, its \<open>done\<close> channel
  is never closed and it is never restarted.
\<close>

theorem pid_zero_never_correlated:
  assumes "sup_ok s" "state_of s i = Some st" "\<not> st_done st" "\<forall>p. tracked s p \<noteq> Some i"
    and "run_state (consume_all K (crun_runtime K r) bundles cs evs (register_start i 0 s)) tr = (s', tr')"
  shows "\<exists>st'. state_of s' i = Some st' \<and> \<not> st_done st' \<and> st_starts st' = Suc (st_starts st) \<and>
    st_lastExit st' = st_lastExit st"
proof -
  have "sup_ok (register_start i 0 s)" using assms(1-4) sup_ok_start by blast
  from crun.consume_all_untracked [OF this assms(5), of i] assms(2-4) show ?thesis by auto
qed

theorem pid_zero_never_correlated_witness:
  "\<exists>st'. state_of (fst (run_state (consume_all (kernel_with (\<lambda>_. None))
      (crun_runtime (kernel_with (\<lambda>_. None)) crun_New) [] [] [\<lparr>rp_PID = 7, rp_Status = 0\<rparr>]
      (register_start ''web'' 0 (add_state (new_container ''web'' ''r'') New))) [])) ''web'' = Some st' \<and>
    \<not> st_done st' \<and> st_starts st' = 1"
proof -
  let ?K = "kernel_with (\<lambda>_. None)" let ?s = "add_state (new_container ''web'' ''r'') New"
  have s: "sup_ok ?s" "state_of ?s ''web'' = Some (new_state (new_container ''web'' ''r''))"
    "\<not> st_done (new_state (new_container ''web'' ''r''))" "\<forall>p. tracked ?s p \<noteq> Some ''web''"
    by (simp_all add: sup_ok_def New_def tracked_def new_state_def)
  obtain s' tr' where run: "run_state (consume_all ?K (crun_runtime ?K crun_New) [] []
      [\<lparr>rp_PID = 7, rp_Status = 0\<rparr>] (register_start ''web'' 0 ?s)) [] = (s', tr')"
    by (metis prod.exhaust_sel)
  from pid_zero_never_correlated [OF s run] show ?thesis
    unfolding run fst_conv by (simp add: new_state_def) blast
qed

end
