(* ===== verification/Supervisor_Run.thy ===== *)
theory Supervisor_Run
  imports Supervisor
begin

text \<open>
  The goroutines of the supervisor (src/pkg/supervisor/supervisor.go, reaper.go) side by side: \<open>Run\<close>
  on the main one, \<open>consumeReaper\<close>, the reaper, and \<open>Stop\<close> with the cancellation that follows it
  in src/cmd/weft-init/main.go.  A step of the system is one section under the mutex, one run of the
  runtime, or one operation on a channel, of one goroutine; every other behaviour of the machine
  (a child that exits, a signal, the deadline) is an action of its own, possible at any moment.
\<close>

subsection \<open>Program counters\<close>

text \<open>Inside \<open>startOne\<close>: what comes next, or how it returned.\<close>

datatype start_pc =
    SPCreate
  | SPStart
  | SPCleanup goerr
  | SPState
  | SPRegister int
  | SPEnd "goerr option"

text \<open>\<open>Run\<close>: storing the state of the k-th container, starting it, waiting for the k-th \<open>done\<close>.\<close>

datatype main_pc =
    MInsert nat
  | MStart nat start_pc
  | MWait nat
  | MReturned "goerr option"

text \<open>\<open>consumeReaper\<close>, \<open>CNone\<close> before it is spawned.\<close>

datatype cons_pc =
    CNone
  | CRecv
  | CDelete string Reaped
  | CDecide string Reaped
  | CStart Container start_pc
  | CExit

text \<open>\<open>Stop\<close>, and the \<open>cancel\<close> after it.\<close>

datatype stop_pc =
    PIdle
  | PTerm "string list" "string list"
  | PPoll "string list"
  | PSleep "string list"
  | PKill "string list"
  | PCancel
  | PDone

record sys =
  y_sup :: Supervisor
  y_chan :: "Reaped list"
  y_closed :: bool
  y_cancelled :: bool
  y_trace :: trace
  y_main :: main_pc
  y_cons :: cons_pc
  y_stop :: stop_pc

definition initial :: "trace \<Rightarrow> sys" where
  "initial tr = \<lparr>y_sup = New, y_chan = [], y_closed = False, y_cancelled = False, y_trace = tr,
     y_main = MInsert 0, y_cons = CNone, y_stop = PIdle\<rparr>"

subsection \<open>The steps of each goroutine\<close>

fun start_step ::
    "kernel \<Rightarrow> runtime \<Rightarrow> (string \<times> string) list \<Rightarrow> Container \<Rightarrow> start_pc \<Rightarrow> Supervisor \<Rightarrow>
     (start_pc \<times> Supervisor) io" where
  "start_step K rt bundles c SPCreate s =
     (case map_of bundles (c_ID c) of
        None \<Rightarrow> ret (SPEnd (Some (Errorf ''no bundle prepared for container %q'' [AStr (c_ID c)])), s)
      | Some bundle \<Rightarrow> do {
          con \<leftarrow> os_open K ''/dev/console'';
          e \<leftarrow> rt_Create rt (c_ID c) bundle (console_stdio con);
          ret (if e \<noteq> None then SPEnd e else SPStart, s)
        })"
| "start_step K rt bundles c SPStart s = do {
     e \<leftarrow> rt_Start rt (c_ID c);
     ret (case e of Some x \<Rightarrow> SPCleanup x | None \<Rightarrow> SPState, s)
   }"
| "start_step K rt bundles c (SPCleanup x) s = do {
     _ \<leftarrow> rt_Delete rt (c_ID c);
     ret (SPEnd (Some x), s)
   }"
| "start_step K rt bundles c SPState s = do {
     (_, pid, _) \<leftarrow> rt_State rt (c_ID c);
     ret (SPRegister pid, s)
   }"
| "start_step K rt bundles c (SPRegister pid) s = ret (SPEnd None, register_start (c_ID c) pid s)"
| "start_step K rt bundles c (SPEnd e) s = ret (SPEnd e, s)"

definition main_start ::
    "kernel \<Rightarrow> runtime \<Rightarrow> (string \<times> string) list \<Rightarrow> Container list \<Rightarrow> nat \<Rightarrow> start_pc \<Rightarrow> sys \<Rightarrow> sys" where
  "main_start K rt bundles cs k pc y =
     (case run_state (start_step K rt bundles (cs ! k) pc (y_sup y)) (y_trace y) of
        ((pc', s'), tr') \<Rightarrow> y\<lparr>y_sup := s', y_trace := tr', y_main := MStart k pc'\<rparr>)"

fun main_step ::
    "kernel \<Rightarrow> runtime \<Rightarrow> (string \<times> string) list \<Rightarrow> Container list \<Rightarrow> main_pc \<Rightarrow> sys \<Rightarrow> sys option" where
  "main_step K rt bundles cs (MInsert k) y =
     (if k < length cs
      then Some (y\<lparr>y_sup := add_state (cs ! k) (y_sup y), y_main := MStart k SPCreate\<rparr>)
      else Some (y\<lparr>y_cons := CRecv, y_main := MWait 0\<rparr>))"
| "main_step K rt bundles cs (MStart k (SPEnd e)) y =
     (case e of
        None \<Rightarrow> Some (y\<lparr>y_main := MInsert (Suc k)\<rparr>)
      | Some x \<Rightarrow> Some (y\<lparr>y_main := MReturned (Some (Wrapf ''start %s: %w'' [AStr (c_ID (cs ! k))] x))\<rparr>))"
| "main_step K rt bundles cs (MStart k pc) y = Some (main_start K rt bundles cs k pc y)"
| "main_step K rt bundles cs (MWait k) y =
     (if k < length cs
      then (case state_of (y_sup y) (c_ID (cs ! k)) of
              None \<Rightarrow> Some (y\<lparr>y_sup := (y_sup y)\<lparr>s_panic := True\<rparr>\<rparr>)
            | Some st \<Rightarrow> if st_done st then Some (y\<lparr>y_main := MWait (Suc k)\<rparr>) else None)
      else Some (y\<lparr>y_main := MReturned None\<rparr>))"
| "main_step K rt bundles cs (MReturned r) y = None"

text \<open>The other branch of the \<open>select\<close> in \<open>Run\<close>.\<close>

fun main_cancelled :: "Container list \<Rightarrow> main_pc \<Rightarrow> sys \<Rightarrow> sys option" where
  "main_cancelled cs (MWait k) y =
     (if k < length cs \<and> y_cancelled y
      then Some (y\<lparr>y_main := MReturned (Some (Errorf ''context canceled'' []))\<rparr>) else None)"
| "main_cancelled cs _ y = None"

definition cons_start ::
    "kernel \<Rightarrow> runtime \<Rightarrow> (string \<times> string) list \<Rightarrow> Container \<Rightarrow> start_pc \<Rightarrow> sys \<Rightarrow> sys" where
  "cons_start K rt bundles c pc y =
     (case run_state (start_step K rt bundles c pc (y_sup y)) (y_trace y) of
        ((pc', s'), tr') \<Rightarrow> y\<lparr>y_sup := s', y_trace := tr', y_cons := CStart c pc'\<rparr>)"

definition finish :: "string \<Rightarrow> sys \<Rightarrow> sys" where
  "finish i y = y\<lparr>y_sup := close_done i (y_sup y), y_cons := CRecv\<rparr>"

fun cons_step ::
    "kernel \<Rightarrow> runtime \<Rightarrow> (string \<times> string) list \<Rightarrow> Container list \<Rightarrow> cons_pc \<Rightarrow> sys \<Rightarrow> sys option" where
  "cons_step K rt bundles cs CNone y = None"
| "cons_step K rt bundles cs CRecv y =
     (case y_chan y of
        [] \<Rightarrow> if y_closed y then Some (y\<lparr>y_cons := CExit\<rparr>) else None
      | ev # evs \<Rightarrow>
          (case tracked (y_sup y) (rp_PID ev) of
             None \<Rightarrow> Some (y\<lparr>y_chan := evs\<rparr>)
           | Some i \<Rightarrow> Some (y\<lparr>y_chan := evs, y_sup := register_exit i ev (y_sup y), y_cons := CDelete i ev\<rparr>)))"
| "cons_step K rt bundles cs (CDelete i ev) y =
     Some (y\<lparr>y_trace := snd (run_state (rt_Delete rt i) (y_trace y)), y_cons := CDecide i ev\<rparr>)"
| "cons_step K rt bundles cs (CDecide i ev) y =
     (case state_of (y_sup y) i of
        None \<Rightarrow> Some (y\<lparr>y_sup := (y_sup y)\<lparr>s_panic := True\<rparr>\<rparr>)
      | Some st \<Rightarrow>
          if shouldRestart st ev
          then (case findSpec cs i of
                  None \<Rightarrow> Some (finish i y)
                | Some c \<Rightarrow> Some (y\<lparr>y_cons := CStart c SPCreate\<rparr>))
          else Some (finish i y))"
| "cons_step K rt bundles cs (CStart c (SPEnd e)) y =
     (if e \<noteq> None then Some (finish (c_ID c) y) else Some (y\<lparr>y_cons := CRecv\<rparr>))"
| "cons_step K rt bundles cs (CStart c pc) y = Some (cons_start K rt bundles c pc y)"
| "cons_step K rt bundles cs CExit y = None"

fun stop_step :: "runtime \<Rightarrow> stop_pc \<Rightarrow> sys \<Rightarrow> sys option" where
  "stop_step rt PIdle y = None"
| "stop_step rt (PTerm (i # is) ids) y =
     Some (y\<lparr>y_trace := snd (run_state (rt_Kill rt i ''TERM'') (y_trace y)), y_stop := PTerm is ids\<rparr>)"
| "stop_step rt (PTerm [] ids) y = Some (y\<lparr>y_stop := PPoll ids\<rparr>)"
| "stop_step rt (PPoll ids) y =
     Some (y\<lparr>y_stop := (if allExited (y_sup y) then PCancel else PSleep ids)\<rparr>)"
| "stop_step rt (PSleep ids) y = Some (y\<lparr>y_stop := PPoll ids\<rparr>)"
| "stop_step rt (PKill (i # is)) y =
     Some (y\<lparr>y_trace := snd (run_state (rt_Kill rt i ''KILL'') (y_trace y)), y_stop := PKill is\<rparr>)"
| "stop_step rt (PKill []) y = Some (y\<lparr>y_stop := PCancel\<rparr>)"
| "stop_step rt PCancel y = Some (y\<lparr>y_cancelled := True, y_stop := PDone\<rparr>)"
| "stop_step rt PDone y = None"

fun stop_deadline :: "stop_pc \<Rightarrow> sys \<Rightarrow> sys option" where
  "stop_deadline (PSleep ids) y = Some (y\<lparr>y_stop := PKill ids\<rparr>)"
| "stop_deadline _ y = None"

fun stop_signal :: "stop_pc \<Rightarrow> sys \<Rightarrow> sys option" where
  "stop_signal PIdle y =
     Some (y\<lparr>y_sup := mark_stopped (y_sup y), y_stop := PTerm (stop_ids (y_sup y)) (stop_ids (y_sup y))\<rparr>)"
| "stop_signal _ y = None"

subsection \<open>The system\<close>

text \<open>
  The actions.  \<open>AReap\<close> is one round of the drain: a child that exited is collected and published.
\<close>

datatype act = AMain | AMainCtx | ACons | AReap Reaped | AReapEnd | ASignal | AStop | ADeadline

fun step ::
    "kernel \<Rightarrow> runtime \<Rightarrow> (string \<times> string) list \<Rightarrow> Container list \<Rightarrow> act \<Rightarrow> sys \<Rightarrow> sys option" where
  "step K rt bundles cs AMain y = main_step K rt bundles cs (y_main y) y"
| "step K rt bundles cs AMainCtx y = main_cancelled cs (y_main y) y"
| "step K rt bundles cs ACons y = cons_step K rt bundles cs (y_cons y) y"
| "step K rt bundles cs (AReap ev) y =
     (if 0 < rp_PID ev \<and> \<not> y_closed y then Some (y\<lparr>y_chan := publish (y_chan y) ev\<rparr>) else None)"
| "step K rt bundles cs AReapEnd y =
     (if y_cancelled y \<and> \<not> y_closed y then Some (y\<lparr>y_closed := True\<rparr>) else None)"
| "step K rt bundles cs ASignal y = stop_signal (y_stop y) y"
| "step K rt bundles cs AStop y = stop_step rt (y_stop y) y"
| "step K rt bundles cs ADeadline y = stop_deadline (y_stop y) y"

text \<open>A panic ends the process: no goroutine takes another step.\<close>

inductive sys_step ::
    "kernel \<Rightarrow> runtime \<Rightarrow> (string \<times> string) list \<Rightarrow> Container list \<Rightarrow> sys \<Rightarrow> sys \<Rightarrow> bool"
    for K rt bundles cs where
  act: "\<not> s_panic (y_sup y) \<Longrightarrow> step K rt bundles cs a y = Some y' \<Longrightarrow> sys_step K rt bundles cs y y'"

definition steps ::
    "kernel \<Rightarrow> runtime \<Rightarrow> (string \<times> string) list \<Rightarrow> Container list \<Rightarrow> sys \<Rightarrow> sys \<Rightarrow> bool" where
  "steps K rt bundles cs = (sys_step K rt bundles cs)\<^sup>*\<^sup>*"

definition reachable ::
    "kernel \<Rightarrow> runtime \<Rightarrow> (string \<times> string) list \<Rightarrow> Container list \<Rightarrow> sys \<Rightarrow> bool" where
  "reachable K rt bundles cs y \<longleftrightarrow> (\<exists>tr. steps K rt bundles cs (initial tr) y)"

inductive_cases sys_stepE: "sys_step K rt bundles cs y y'"

text \<open>A run of a list of actions.\<close>

fun run_acts ::
    "kernel \<Rightarrow> runtime \<Rightarrow> (string \<times> string) list \<Rightarrow> Container list \<Rightarrow> act list \<Rightarrow> sys \<Rightarrow> sys option" where
  "run_acts K rt bundles cs [] y = Some y"
| "run_acts K rt bundles cs (a # as) y =
     (if s_panic (y_sup y) then None
      else case step K rt bundles cs a y of
             None \<Rightarrow> None | Some y' \<Rightarrow> run_acts K rt bundles cs as y')"

lemma run_acts_steps: "run_acts K rt bundles cs as y = Some y' \<Longrightarrow> steps K rt bundles cs y y'"
  unfolding steps_def
proof (induction as arbitrary: y)
  case (Cons a as)
  then obtain y1 where "\<not> s_panic (y_sup y)" "step K rt bundles cs a y = Some y1"
    "run_acts K rt bundles cs as y1 = Some y'" by (auto split: if_splits option.splits)
  with Cons.IH [of y1] show ?case by (meson converse_rtranclp_into_rtranclp sys_step.intros)
qed simp

subsection \<open>The invariant of the system\<close>

definition is_done :: "Supervisor \<Rightarrow> string \<Rightarrow> bool" where
  "is_done s i = (case state_of s i of None \<Rightarrow> False | Some st \<Rightarrow> st_done st)"

definition untracked :: "Supervisor \<Rightarrow> string \<Rightarrow> bool" where
  "untracked s i \<longleftrightarrow> (\<forall>p. tracked s p \<noteq> Some i)"

text \<open>The container the consumer is at work on, until a restart has registered it again.\<close>

fun active :: "cons_pc \<Rightarrow> string option" where
  "active (CDelete i ev) = Some i"
| "active (CDecide i ev) = Some i"
| "active (CStart c pc) = (if pc = SPEnd None then None else Some (c_ID c))"
| "active _ = None"

definition exited_pending :: "Supervisor \<Rightarrow> string \<Rightarrow> bool" where
  "exited_pending s i \<longleftrightarrow> untracked s i \<and>
     (\<exists>st. state_of s i = Some st \<and> \<not> st_done st \<and> st_lastExit st \<noteq> None)"

definition main_inv :: "Container list \<Rightarrow> sys \<Rightarrow> bool" where
  "main_inv cs y = (case y_main y of
     MInsert k \<Rightarrow> k \<le> length cs \<and> y_cons y = CNone \<and> dom (state_of (y_sup y)) = c_ID ` set (take k cs)
   | MStart k pc \<Rightarrow> k < length cs \<and> y_cons y = CNone \<and>
       dom (state_of (y_sup y)) = c_ID ` set (take (Suc k) cs) \<and>
       (pc \<noteq> SPEnd None \<longrightarrow> untracked (y_sup y) (c_ID (cs ! k)))
   | MWait k \<Rightarrow> k \<le> length cs \<and> y_cons y \<noteq> CNone \<and> (\<forall>j < k. is_done (y_sup y) (c_ID (cs ! j)))
   | MReturned None \<Rightarrow> y_cons y \<noteq> CNone \<and> (\<forall>j < length cs. is_done (y_sup y) (c_ID (cs ! j)))
   | MReturned (Some e) \<Rightarrow> True)"

definition cons_inv :: "Container list \<Rightarrow> sys \<Rightarrow> bool" where
  "cons_inv cs y \<longleftrightarrow>
     (y_cons y = CNone \<longrightarrow> (\<forall>i. \<not> is_done (y_sup y) i)) \<and>
     (y_cons y \<noteq> CNone \<longrightarrow> dom (state_of (y_sup y)) = c_ID ` set cs) \<and>
     (\<forall>i. active (y_cons y) = Some i \<longrightarrow> exited_pending (y_sup y) i)"

definition done_inv :: "Supervisor \<Rightarrow> bool" where
  "done_inv s \<longleftrightarrow> (\<forall>i st. state_of s i = Some st \<longrightarrow> st_done st \<longrightarrow> st_lastExit st \<noteq> None)"

definition sys_inv :: "Container list \<Rightarrow> sys \<Rightarrow> bool" where
  "sys_inv cs y \<longleftrightarrow> sup_ok (y_sup y) \<and> done_inv (y_sup y) \<and> main_inv cs y \<and> cons_inv cs y"

lemma start_step_cases:
  assumes "run_state (start_step K rt bundles c pc s) tr = ((pc', s'), tr')" "\<forall>e. pc \<noteq> SPEnd e"
  obtains "s' = s" "pc' \<noteq> SPEnd None" | pid where "pc = SPRegister pid" "s' = register_start (c_ID c) pid s"
    "pc' = SPEnd None"
  using assms by (cases pc) (auto split: option.splits prod.splits if_splits)

lemma register_views:
  assumes "state_of s i = Some st"
  shows "dom (state_of (register_start i pid s)) = dom (state_of s)"
    "is_done (register_start i pid s) j = is_done s j"
    "untracked s j \<Longrightarrow> j \<noteq> i \<Longrightarrow> untracked (register_start i pid s) j"
    "done_inv s \<Longrightarrow> done_inv (register_start i pid s)"
  using assms by (auto simp: is_done_def untracked_def done_inv_def dom_def)

lemma exit_views:
  assumes "state_of s i = Some st"
  shows "dom (state_of (register_exit i ev s)) = dom (state_of s)"
    "is_done (register_exit i ev s) j = is_done s j"
    "done_inv s \<Longrightarrow> done_inv (register_exit i ev s)"
  using assms by (auto simp: is_done_def done_inv_def dom_def)

lemma close_views:
  assumes "exited_pending s i" "sup_ok s"
  shows "sup_ok (close_done i s)" "dom (state_of (close_done i s)) = dom (state_of s)"
    "is_done (close_done i s) j \<longleftrightarrow> j = i \<or> is_done s j"
    "done_inv s \<Longrightarrow> done_inv (close_done i s)"
proof -
  from assms(1) obtain st where st: "state_of s i = Some st" "\<not> st_done st" "st_lastExit st \<noteq> None"
    and un: "\<And>p. tracked s p \<noteq> Some i" by (auto simp: exited_pending_def untracked_def)
  note c = close_done_simps [OF st(1,2)]
  show "sup_ok (close_done i s)" by (rule sup_ok_close [OF assms(2) st(1,2) un])
  show "dom (state_of (close_done i s)) = dom (state_of s)"
    "is_done (close_done i s) j \<longleftrightarrow> j = i \<or> is_done s j"
    "done_inv s \<Longrightarrow> done_inv (close_done i s)"
    using c st by (auto simp: is_done_def done_inv_def dom_def)
qed

lemma mark_views:
  "dom (state_of (mark_stopped s)) = dom (state_of s)" "is_done (mark_stopped s) i = is_done s i"
  "untracked (mark_stopped s) i = untracked s i" "exited_pending (mark_stopped s) i = exited_pending s i"
  "done_inv (mark_stopped s) = done_inv s" "sup_ok (mark_stopped s) = sup_ok s"
proof -
  show u: "untracked (mark_stopped s) i = untracked s i" by (simp add: untracked_def)
  show "dom (state_of (mark_stopped s)) = dom (state_of s)" by (auto simp: dom_def)
  show "is_done (mark_stopped s) i = is_done s i"
    by (cases "state_of s i") (simp_all add: is_done_def)
  show "exited_pending (mark_stopped s) i = exited_pending s i"
    using u by (cases "state_of s i") (simp_all add: exited_pending_def)
  show "done_inv (mark_stopped s) = done_inv s" by (fastforce simp: done_inv_def)
  show "sup_ok (mark_stopped s) = sup_ok s" by (fastforce simp: sup_ok_def)
qed

lemma inv_initial: "sys_inv cs (initial tr)"
  by (simp add: sys_inv_def initial_def New_def sup_ok_def done_inv_def main_inv_def cons_inv_def
      is_done_def state_of_def tracked_def dom_def)

lemma sys_inv_cong:
  assumes "y_sup y' = y_sup y" "y_main y' = y_main y" "y_cons y' = y_cons y"
  shows "sys_inv cs y' = sys_inv cs y"
  unfolding sys_inv_def main_inv_def cons_inv_def assms by (rule refl)

lemma inv_signal:
  assumes "sys_inv cs y" "stop_signal p y = Some y'"
  shows "sys_inv cs y'"
proof -
  have y': "y_sup y' = mark_stopped (y_sup y)" "y_main y' = y_main y" "y_cons y' = y_cons y"
    using assms(2) by (cases p; auto)+
  have "main_inv cs y' = main_inv cs y" "cons_inv cs y' = cons_inv cs y"
    unfolding main_inv_def cons_inv_def y' mark_views by (rule refl)+
  with assms(1) y' show ?thesis by (simp add: sys_inv_def mark_views)
qed

lemma cons_inv_CNone:
  "cons_inv cs y \<Longrightarrow> y_cons y = CNone \<Longrightarrow> y_cons y' = CNone \<Longrightarrow>
   (\<And>i. is_done (y_sup y') i = is_done (y_sup y) i) \<Longrightarrow> cons_inv cs y'"
  by (simp add: cons_inv_def)

lemma fresh_id: "distinct (map c_ID cs) \<Longrightarrow> k < length cs \<Longrightarrow> c_ID (cs ! k) \<notin> c_ID ` set (take k cs)"
  by (force simp: in_set_conv_nth distinct_conv_nth)

lemma inv_insert:
  assumes d: "distinct (map c_ID cs)" and inv: "sys_inv cs y" and k: "y_main y = MInsert k" "k < length cs"
  shows "sys_inv cs (y\<lparr>y_sup := add_state (cs ! k) (y_sup y), y_main := MStart k SPCreate\<rparr>)"
proof -
  let ?i = "c_ID (cs ! k)" let ?s = "y_sup y"
  from inv k have dom: "dom (state_of ?s) = c_ID ` set (take k cs)" and c: "y_cons y = CNone"
    by (auto simp: sys_inv_def main_inv_def)
  have new: "state_of ?s ?i = None"
    using dom fresh_id [OF d k(2)] by (metis domI not_Some_eq)
  have un: "untracked ?s ?i"
    using inv new unfolding sys_inv_def sup_ok_def untracked_def by (metis option.distinct(1))
  have dn: "is_done (add_state (cs ! k) ?s) j = is_done ?s j" for j
    using new by (simp add: is_done_def new_state_def)
  have "sup_ok (add_state (cs ! k) ?s)"
    using inv un unfolding sys_inv_def sup_ok_def untracked_def by (auto simp: new_state_def)
  moreover have "done_inv (add_state (cs ! k) ?s)"
    using inv by (auto simp: sys_inv_def done_inv_def new_state_def)
  moreover have "dom (state_of (add_state (cs ! k) ?s)) = c_ID ` set (take (Suc k) cs)"
    using dom k(2) by (simp add: take_Suc_conv_app_nth)
  moreover have "untracked (add_state (cs ! k) ?s) ?i" using un by (simp add: untracked_def)
  ultimately show ?thesis
    using inv c k(2) dn by (simp add: sys_inv_def main_inv_def cons_inv_def)
qed

lemma inv_main_start:
  assumes inv: "sys_inv cs y" and MStart: "y_main y = MStart k pc"
    and st: "main_step K rt bundles cs (y_main y) y = Some y'"
  shows "sys_inv cs y'"
proof -
  let ?i = "c_ID (cs ! k)" let ?s = "y_sup y"
  from inv MStart have k: "k < length cs" "y_cons y = CNone" "dom (state_of ?s) = c_ID ` set (take (Suc k) cs)"
    "pc \<noteq> SPEnd None \<longrightarrow> untracked ?s ?i" by (simp_all add: sys_inv_def main_inv_def)
  show ?thesis
  proof (cases "\<exists>e. pc = SPEnd e")
    case True
    with st MStart inv k show ?thesis
      by (auto simp: sys_inv_def main_inv_def cons_inv_def split: option.splits)
  next
    case False
    then have y': "y' = main_start K rt bundles cs k pc y" using st MStart by (cases pc) auto
    obtain pc' s' tr' where r: "run_state (start_step K rt bundles (cs ! k) pc ?s) (y_trace y) = ((pc', s'), tr')"
      by (metis prod.exhaust_sel)
    have y'': "y' = y\<lparr>y_sup := s', y_trace := tr', y_main := MStart k pc'\<rparr>"
      using y' r by (simp add: main_start_def)
    from False have "\<forall>e. pc \<noteq> SPEnd e" by blast
    with r show ?thesis
    proof (cases rule: start_step_cases)
      case 1
      with y'' inv k False show ?thesis by (auto simp: sys_inv_def main_inv_def cons_inv_def)
    next
      case (2 pid)
      have "?i \<in> dom (state_of ?s)" using k(1,3) by (simp add: take_Suc_conv_app_nth)
      then obtain t where t: "state_of ?s ?i = Some t" by blast
      have nd: "\<not> st_done t" using inv k(2) t by (auto simp: sys_inv_def cons_inv_def is_done_def split: option.splits)
      have un: "\<And>p. tracked ?s p \<noteq> Some ?i" using k(4) False by (auto simp: untracked_def)
      note v = register_views [OF t, where pid = pid]
      have "sup_ok (register_start ?i pid ?s)"
        using inv sup_ok_start [OF _ t nd un] by (simp add: sys_inv_def)
      with y'' 2 inv k v show ?thesis by (simp add: sys_inv_def main_inv_def cons_inv_def)
    qed
  qed
qed

lemma inv_main_wait:
  assumes inv: "sys_inv cs y" and MWait: "y_main y = MWait k"
    and st: "main_step K rt bundles cs (y_main y) y = Some y'"
  shows "sys_inv cs y'"
proof -
  show ?thesis
  proof (cases "k < length cs")
    case False
    with inv MWait have "k = length cs" by (simp add: sys_inv_def main_inv_def)
    moreover have "y' = y\<lparr>y_main := MReturned None\<rparr>" using st MWait False by simp
    ultimately show ?thesis using inv MWait by (simp add: sys_inv_def main_inv_def cons_inv_def)
  next
    case True
    from inv MWait have "c_ID (cs ! k) \<in> dom (state_of (y_sup y))"
      using True by (simp add: sys_inv_def main_inv_def cons_inv_def)
    then obtain t where t: "state_of (y_sup y) (c_ID (cs ! k)) = Some t" by blast
    with st MWait True have y': "st_done t" "y' = y\<lparr>y_main := MWait (Suc k)\<rparr>"
      by (auto split: if_splits)
    have "is_done (y_sup y) (c_ID (cs ! k))" using t y'(1) by (simp add: is_done_def)
    with y'(2) inv MWait True show ?thesis
      by (auto simp: sys_inv_def main_inv_def cons_inv_def less_Suc_eq)
  qed
qed

lemma inv_main:
  assumes d: "distinct (map c_ID cs)" and inv: "sys_inv cs y"
    and st: "main_step K rt bundles cs (y_main y) y = Some y'"
  shows "sys_inv cs y'"
proof (cases "y_main y")
  case (MInsert k)
  show ?thesis
  proof (cases "k < length cs")
    case True
    with inv_insert [OF d inv MInsert] st MInsert show ?thesis by simp
  next
    case False
    from inv MInsert have "k \<le> length cs" "y_cons y = CNone" "dom (state_of (y_sup y)) = c_ID ` set (take k cs)"
      by (simp_all add: sys_inv_def main_inv_def)
    with False have "dom (state_of (y_sup y)) = c_ID ` set cs" by simp
    moreover have "y' = y\<lparr>y_cons := CRecv, y_main := MWait 0\<rparr>" using st MInsert False by simp
    ultimately show ?thesis using inv by (simp add: sys_inv_def main_inv_def cons_inv_def)
  qed
next
  case (MStart k pc)
  from inv_main_start [OF inv MStart st] show ?thesis .
next
  case (MWait k)
  from inv_main_wait [OF inv MWait st] show ?thesis .
qed (use st in simp)

lemma main_inv_done_mono:
  assumes "main_inv cs y" "y_main y' = y_main y" "y_cons y \<noteq> CNone" "y_cons y' \<noteq> CNone"
    and "\<And>i. is_done (y_sup y) i \<Longrightarrow> is_done (y_sup y') i"
  shows "main_inv cs y'"
  using assms by (auto simp: main_inv_def split: main_pc.splits option.splits)

lemma inv_finish:
  assumes "sys_inv cs y" "active (y_cons y) = Some i"
  shows "sys_inv cs (finish i y)"
proof -
  from assms have e: "exited_pending (y_sup y) i" "sup_ok (y_sup y)" by (auto simp: sys_inv_def cons_inv_def)
  note v = close_views [OF e]
  have c: "y_cons y \<noteq> CNone" using assms(2) by auto
  have "main_inv cs (finish i y)"
    by (rule main_inv_done_mono [of cs y]) (use assms(1) c v(3) in \<open>simp_all add: finish_def sys_inv_def\<close>)
  with assms(1) c v show ?thesis by (simp add: sys_inv_def cons_inv_def finish_def)
qed

lemma inv_recv:
  assumes inv: "sys_inv cs y" and c: "y_cons y = CRecv" and t: "tracked (y_sup y) (rp_PID ev) = Some i"
  shows "sys_inv cs (y\<lparr>y_chan := evs, y_sup := register_exit i ev (y_sup y), y_cons := CDelete i ev\<rparr>)"
proof -
  let ?s = "y_sup y" let ?s' = "register_exit i ev ?s"
  from inv have ok: "sup_ok ?s" by (simp add: sys_inv_def)
  from sup_ok_exit [OF ok t] obtain st where st: "state_of ?s i = Some st" "\<not> st_done st"
    "state_of ?s' i = Some (st\<lparr>st_lastExit := Some ev\<rparr>)" "\<And>p. tracked ?s' p \<noteq> Some i" "sup_ok ?s'"
    by blast
  note v = exit_views [OF st(1), of ev]
  have "exited_pending ?s' i" using st(2-4) by (simp add: exited_pending_def untracked_def)
  moreover have "main_inv cs (y\<lparr>y_chan := evs, y_sup := ?s', y_cons := CDelete i ev\<rparr>)"
    by (rule main_inv_done_mono [of cs y]) (use inv c v(2) in \<open>simp_all add: sys_inv_def\<close>)
  ultimately show ?thesis using inv c st(5) v by (simp add: sys_inv_def cons_inv_def)
qed

lemma inv_cons_pc:
  assumes "sys_inv cs y" "y_sup y' = y_sup y" "y_main y' = y_main y" "y_cons y \<noteq> CNone" "y_cons y' \<noteq> CNone"
    and "\<And>i. active (y_cons y') = Some i \<Longrightarrow> active (y_cons y) = Some i"
  shows "sys_inv cs y'"
proof -
  have "main_inv cs y'" by (rule main_inv_done_mono [of cs y]) (use assms in \<open>simp_all add: sys_inv_def\<close>)
  with assms show ?thesis by (simp add: sys_inv_def cons_inv_def)
qed

lemma inv_cons_register:
  assumes inv: "sys_inv cs y" and c: "active (y_cons y) = Some (c_ID c)"
  shows "sys_inv cs (y\<lparr>y_sup := register_start (c_ID c) pid (y_sup y), y_trace := tr',
    y_cons := CStart c (SPEnd None)\<rparr>)"
proof -
  let ?s = "y_sup y" let ?i = "c_ID c"
  from inv c have e: "exited_pending ?s ?i" "sup_ok ?s" by (auto simp: sys_inv_def cons_inv_def)
  from e(1) obtain st where st: "state_of ?s ?i = Some st" "\<not> st_done st" "\<And>p. tracked ?s p \<noteq> Some ?i"
    by (auto simp: exited_pending_def untracked_def)
  note v = register_views [OF st(1), where pid = pid]
  have cn: "y_cons y \<noteq> CNone" using c by auto
  have ok: "sup_ok (register_start ?i pid ?s)" by (rule sup_ok_start [OF e(2) st(1,2,3)])
  let ?y = "y\<lparr>y_sup := register_start ?i pid ?s, y_trace := tr', y_cons := CStart c (SPEnd None)\<rparr>"
  have "main_inv cs ?y"
    by (rule main_inv_done_mono [of cs y]) (use inv cn v(2) in \<open>simp_all add: sys_inv_def\<close>)
  then show ?thesis using inv cn ok v by (simp add: sys_inv_def cons_inv_def)
qed

lemma inv_cons_recv:
  assumes inv: "sys_inv cs y" and CRecv: "y_cons y = CRecv"
    and st: "cons_step K rt bundles cs (y_cons y) y = Some y'"
  shows "sys_inv cs y'"
proof -
  show ?thesis
  proof (cases "y_chan y")
    case Nil
    with st CRecv have "y' = y\<lparr>y_cons := CExit\<rparr>" by (simp split: if_splits)
    with inv CRecv show ?thesis using inv_cons_pc [of cs y y'] by simp
  next
    case (Cons ev evs)
    show ?thesis
    proof (cases "tracked (y_sup y) (rp_PID ev)")
      case None
      with st CRecv Cons have "y' = y\<lparr>y_chan := evs\<rparr>" by simp
      with inv show ?thesis using sys_inv_cong [of y' y] by simp
    next
      case (Some i)
      with st CRecv Cons inv_recv [OF inv CRecv Some] show ?thesis by auto
    qed
  qed
qed

lemma inv_cons_start:
  assumes inv: "sys_inv cs y" and CStart: "y_cons y = CStart c pc"
    and st: "cons_step K rt bundles cs (y_cons y) y = Some y'"
  shows "sys_inv cs y'"
proof -
  let ?i = "c_ID c"
  show ?thesis
  proof (cases "\<exists>e. pc = SPEnd e")
    case True
    then obtain e where e: "pc = SPEnd e" by blast
    show ?thesis
    proof (cases e)
      case None
      with st CStart e have "y' = y\<lparr>y_cons := CRecv\<rparr>" by simp
      with inv CStart show ?thesis using inv_cons_pc [of cs y y'] by simp
    next
      case (Some x)
      with CStart e have "active (y_cons y) = Some ?i" by simp
      from inv_finish [OF inv this] st CStart e Some show ?thesis by simp
    qed
  next
    case False
    then have a: "active (y_cons y) = Some ?i" using CStart by auto
    have y': "y' = cons_start K rt bundles c pc y" using st CStart False by (cases pc) auto
    obtain pc' s' tr' where r: "run_state (start_step K rt bundles c pc (y_sup y)) (y_trace y) = ((pc', s'), tr')"
      by (metis prod.exhaust_sel)
    have y'': "y' = y\<lparr>y_sup := s', y_trace := tr', y_cons := CStart c pc'\<rparr>"
      using y' r by (simp add: cons_start_def)
    from False have "\<forall>e. pc \<noteq> SPEnd e" by blast
    with r show ?thesis
    proof (cases rule: start_step_cases)
      case 1
      with y'' inv a CStart show ?thesis using inv_cons_pc [of cs y y'] by simp
    next
      case (2 pid)
      with y'' inv_cons_register [OF inv a] show ?thesis by simp
    qed
  qed
qed

lemma inv_cons:
  assumes inv: "sys_inv cs y" and st: "cons_step K rt bundles cs (y_cons y) y = Some y'"
  shows "sys_inv cs y'"
proof (cases "y_cons y")
  case CRecv
  from inv_cons_recv [OF inv CRecv st] show ?thesis .
next
  case (CDelete i ev)
  with st inv show ?thesis using inv_cons_pc [of cs y y'] by auto
next
  case (CDecide i ev)
  then have a: "active (y_cons y) = Some i" by simp
  then obtain t where t: "state_of (y_sup y) i = Some t"
    using inv by (auto simp: sys_inv_def cons_inv_def exited_pending_def)
  show ?thesis
  proof (cases "shouldRestart t ev \<and> findSpec cs i \<noteq> None")
    case True
    then obtain c where c: "findSpec cs i = Some c" "c_ID c = i" using findSpec_Some by fastforce
    with True st CDecide t have "y' = y\<lparr>y_cons := CStart c SPCreate\<rparr>" by simp
    with inv c CDecide show ?thesis using inv_cons_pc [of cs y y'] by simp
  next
    case False
    with st CDecide t have "y' = finish i y" by (auto split: if_splits option.splits)
    with inv_finish [OF inv a] show ?thesis by simp
  qed
next
  case (CStart c pc)
  from inv_cons_start [OF inv CStart st] show ?thesis .
qed (use st in simp_all)

lemma inv_step:
  assumes "distinct (map c_ID cs)" "sys_inv cs y" "step K rt bundles cs a y = Some y'"
  shows "sys_inv cs y'"
proof (cases a)
  case AMain
  with inv_main [OF assms(1,2)] assms(3) show ?thesis by simp
next
  case AMainCtx
  then obtain k where "y' = y\<lparr>y_main := MReturned (Some (Errorf ''context canceled'' []))\<rparr>"
    using assms(3) by (cases "y_main y") (auto split: if_splits)
  with assms(2) show ?thesis by (simp add: sys_inv_def main_inv_def cons_inv_def)
next
  case ACons
  with inv_cons [OF assms(2)] assms(3) show ?thesis by simp
next
  case ASignal
  with inv_signal [OF assms(2)] assms(3) show ?thesis by simp
next
  case (AReap ev)
  with assms(2,3) sys_inv_cong [of y' y cs] show ?thesis by (auto split: if_splits)
next
  case AReapEnd
  with assms(2,3) sys_inv_cong [of y' y cs] show ?thesis by (auto split: if_splits)
next
  case AStop
  have "y_sup y' = y_sup y" "y_main y' = y_main y" "y_cons y' = y_cons y"
    using AStop assms(3) by (cases "(rt, y_stop y, y)" rule: stop_step.cases; auto)+
  with assms(2) sys_inv_cong [of y' y cs] show ?thesis by simp
next
  case ADeadline
  have "y_sup y' = y_sup y" "y_main y' = y_main y" "y_cons y' = y_cons y"
    using ADeadline assms(3) by (cases "y_stop y"; auto)+
  with assms(2) sys_inv_cong [of y' y cs] show ?thesis by simp
qed

lemma inv_steps:
  assumes "distinct (map c_ID cs)" "steps K rt bundles cs y y'" "sys_inv cs y"
  shows "sys_inv cs y'"
  using assms(2,3) unfolding steps_def
  by (induction rule: rtranclp_induct) (auto elim!: sys_stepE intro: inv_step [OF assms(1)])

lemma inv_reachable:
  "distinct (map c_ID cs) \<Longrightarrow> reachable K rt bundles cs y \<Longrightarrow> sys_inv cs y"
  using inv_steps inv_initial unfolding reachable_def by blast

subsection \<open>Safety\<close>

text \<open>
  C3. In every interleaving of the goroutines, whatever the runtime answers, whatever children exit and
  whenever \<open>Stop\<close> is called: no goroutine panics (no \<open>done\<close> channel is closed twice, no state is
  missing), every tracked pid belongs to a container that is not done, and no container is tracked
  under two pids, as long as the container ids are distinct.
\<close>

theorem supervisor_safe:
  assumes "distinct (map c_ID cs)" "reachable K rt bundles cs y"
  shows "\<not> s_panic (y_sup y) \<and>
    (\<forall>p i. tracked (y_sup y) p = Some i \<longrightarrow> (\<exists>st. state_of (y_sup y) i = Some st \<and> \<not> st_done st)) \<and>
    (\<forall>p q i. tracked (y_sup y) p = Some i \<longrightarrow> tracked (y_sup y) q = Some i \<longrightarrow> p = q)"
  using inv_reachable [OF assms] unfolding sys_inv_def sup_ok_def by blast

text \<open>A runtime for the witnesses: every call succeeds, and every container has the same pid.\<close>

definition rt_fixed :: "int \<Rightarrow> runtime" where
  "rt_fixed pid = \<lparr>rt_Name = ''crun'', rt_Create = (\<lambda>_ _ _. ret None), rt_Start = (\<lambda>_. ret None),
     rt_State = (\<lambda>_. ret (''running'', pid, None)), rt_Kill = (\<lambda>_ _. ret None),
     rt_Delete = (\<lambda>_. ret None)\<rparr>"

definition web :: "RestartPolicy \<Rightarrow> Container" where
  "web pol = (new_container ''web'' ''r'')\<lparr>c_Restart := pol\<rparr>"

abbreviation run_web :: "RestartPolicy \<Rightarrow> act list \<Rightarrow> sys option" where
  "run_web pol as \<equiv> run_acts (kernel_with (\<lambda>_. None)) (rt_fixed 7) [(''web'', ''/b/web'')] [web pol] as (initial [])"

definition exit_of :: "int \<Rightarrow> Reaped" where
  "exit_of pid = \<lparr>rp_PID = pid, rp_Status = 0\<rparr>"

text \<open>The actions of starting one container, up to waiting for it.\<close>

definition start_acts :: "act list" where
  "start_acts = replicate 7 AMain"

lemma web_started: "run_web pol start_acts =
  Some \<lparr>y_sup = one_running pol, y_chan = [], y_closed = False, y_cancelled = False,
    y_trace = [EOpen ''/dev/console'' None], y_main = MWait 0, y_cons = CRecv, y_stop = PIdle\<rparr>"
  by (simp add: start_acts_def numeral_eq_Suc initial_def New_def web_def rt_fixed_def add_state_def
      main_start_def os_open_def kernel_with_def register_start_def with_state_def new_state_def
      one_running_def)

lemma web_reachable: "run_web pol (start_acts @ as) = Some y \<Longrightarrow>
    reachable (kernel_with (\<lambda>_. None)) (rt_fixed 7) [(''web'', ''/b/web'')] [web pol] y"
  using run_acts_steps unfolding reachable_def by blast

lemma run_acts_append: "run_acts K rt bundles cs (as @ bs) y =
  Option.bind (run_acts K rt bundles cs as y) (run_acts K rt bundles cs bs)"
  by (induction as arbitrary: y) (auto split: option.splits)

theorem supervisor_safe_witness:
  "\<exists>y. run_web RestartAlways start_acts = Some y \<and> tracked (y_sup y) 7 = Some ''web'' \<and> \<not> s_panic (y_sup y)"
proof -
  have "reachable (kernel_with (\<lambda>_. None)) (rt_fixed 7) [(''web'', ''/b/web'')] [web RestartAlways]
    \<lparr>y_sup = one_running RestartAlways, y_chan = [], y_closed = False, y_cancelled = False,
      y_trace = [EOpen ''/dev/console'' None], y_main = MWait 0, y_cons = CRecv, y_stop = PIdle\<rparr>"
    using web_started web_reachable [of RestartAlways "[]"] by simp
  from supervisor_safe [OF _ this] show ?thesis
    by (simp add: web_started) (simp add: one_running_def tracked_def)
qed

text \<open>
  C11. \<open>Run\<close> returns nil only when its work is done: every container of the pod is then done, and was
  seen to exit.
\<close>

theorem Run_nil_all_done:
  assumes "distinct (map c_ID cs)" "reachable K rt bundles cs y" "y_main y = MReturned None"
  shows "\<forall>c \<in> set cs. \<exists>st. state_of (y_sup y) (c_ID c) = Some st \<and> st_done st \<and> st_lastExit st \<noteq> None"
proof
  fix c assume "c \<in> set cs"
  then obtain j where j: "j < length cs" "cs ! j = c" by (auto simp: in_set_conv_nth)
  have inv: "sys_inv cs y" by (rule inv_reachable [OF assms(1,2)])
  with assms(3) j have "is_done (y_sup y) (c_ID c)" by (auto simp: sys_inv_def main_inv_def)
  then obtain st where "state_of (y_sup y) (c_ID c) = Some st" "st_done st"
    by (auto simp: is_done_def split: option.splits)
  with inv show "\<exists>st. state_of (y_sup y) (c_ID c) = Some st \<and> st_done st \<and> st_lastExit st \<noteq> None"
    by (auto simp: sys_inv_def done_inv_def)
qed

theorem Run_nil_all_done_witness:
  "\<exists>y. run_web RestartNever (start_acts @ [AReap (exit_of 7), ACons, ACons, ACons, AMain, AMain]) = Some y \<and>
    y_main y = MReturned None \<and> (\<exists>st. state_of (y_sup y) ''web'' = Some st \<and> st_done st)"
proof -
  obtain y where y: "run_web RestartNever
      (start_acts @ [AReap (exit_of 7), ACons, ACons, ACons, AMain, AMain]) = Some y" "y_main y = MReturned None"
    by (simp add: run_acts_append web_started)
      (simp add: one_running_def exit_of_def tracked_def rt_fixed_def register_exit_def with_state_def
        state_of_def shouldRestart_def finish_def close_done_def web_def new_container_def publish_def chan_cap_def)
  from Run_nil_all_done [OF _ web_reachable [OF y(1)] y(2)] y show ?thesis
    by (simp add: web_def) blast
qed

subsection \<open>The consumer drains its queue\<close>

lemma run_acts_Cons_step:
  "\<not> s_panic (y_sup y) \<Longrightarrow> step K rt bundles cs a y = Some y' \<Longrightarrow>
   run_acts K rt bundles cs as y' = Some z \<Longrightarrow> run_acts K rt bundles cs (a # as) y = Some z"
  by simp

text \<open>Restarting a container, step by step, does what \<open>startOne\<close> does.\<close>

lemma start_refines:
  assumes np: "\<not> s_panic (y_sup y)" and c: "y_cons y = CStart c SPCreate"
    and run: "run_state (startOne K rt bundles c (y_sup y)) (y_trace y) = ((e, s'), tr')"
  obtains n where "n \<le> 4" "run_acts K rt bundles cs (replicate n ACons) y =
    Some (y\<lparr>y_sup := s', y_trace := tr', y_cons := CStart c (SPEnd e)\<rparr>)"
proof (cases "map_of bundles (c_ID c)")
  case None
  with np c run show thesis by (intro that [of 1]) (auto simp: startOne_def cons_start_def)
next
  case (Some b)
  let ?i = "c_ID c" let ?s = "y_sup y" let ?con = "k_open K (y_trace y) ''/dev/console''"
  let ?t0 = "y_trace y @ [EOpen ''/dev/console'' ?con]"
  obtain r1 t1 where 1: "run_state (rt_Create rt ?i b (console_stdio ?con)) ?t0 = (r1, t1)" by fastforce
  obtain r2 t2 where 2: "run_state (rt_Start rt ?i) t1 = (r2, t2)" by fastforce
  obtain r3 t3 where 3: "run_state (rt_Delete rt ?i) t2 = (r3, t3)" by fastforce
  obtain status pid e4 t4 where 4: "run_state (rt_State rt ?i) t2 = ((status, pid, e4), t4)"
    by (metis prod.exhaust_sel)
  have res: "((e, s'), tr') = (if r1 \<noteq> None then ((r1, ?s), t1) else if r2 \<noteq> None then ((r2, ?s), t3)
      else ((None, register_start ?i pid ?s), t4))"
    using run Some 1 2 3 4 by (cases r1; cases r2) (auto simp: startOne_def os_open_def)
  show thesis
  proof (cases r1)
    case r1: (Some x)
    with res np c Some 1 show thesis by (intro that [of 1]) (auto simp: cons_start_def os_open_def)
  next
    case r1: None
    show thesis
    proof (cases r2)
      case (Some x)
      with r1 res np c \<open>map_of bundles ?i = Some b\<close> 1 2 3 show thesis
        by (intro that [of 3]) (auto simp: cons_start_def os_open_def numeral_eq_Suc)
    next
      case None
      with r1 res np c Some 1 2 4 show thesis
        by (intro that [of 4]) (auto simp: cons_start_def os_open_def numeral_eq_Suc)
    qed
  qed
qed

text \<open>A restart, from the decision to the next event.\<close>

lemma restart_refines:
  assumes d: "distinct (map c_ID cs)" and inv: "sys_inv cs y" and y: "y_cons y = CDecide i ev"
    and st: "state_of (y_sup y) i = Some st" "shouldRestart st ev" and c: "findSpec cs i = Some c"
    and so: "run_state (startOne K rt bundles c (y_sup y)) (y_trace y) = ((e, s2), t2)"
  shows "\<exists>n \<le> 6. run_acts K rt bundles cs (replicate n ACons) y =
    Some (y\<lparr>y_sup := if e \<noteq> None then close_done (c_ID c) s2 else s2, y_trace := t2, y_cons := CRecv\<rparr>)"
proof -
  have np: "\<not> s_panic (y_sup y)" using inv by (simp add: sys_inv_def sup_ok_def)
  let ?y3 = "y\<lparr>y_cons := CStart c SPCreate\<rparr>"
  let ?y4 = "?y3\<lparr>y_sup := s2, y_trace := t2, y_cons := CStart c (SPEnd e)\<rparr>"
  obtain n where n: "n \<le> 4" "run_acts K rt bundles cs (replicate n ACons) ?y3 = Some ?y4"
    using start_refines [of ?y3 c K rt bundles e s2 t2 cs] np so by auto
  have "step K rt bundles cs ACons y = Some ?y3" using y st c by simp
  with np n(2) have 1: "run_acts K rt bundles cs (replicate (Suc n) ACons) y = Some ?y4" by simp
  then have "\<not> s_panic s2" using inv_steps [OF d run_acts_steps [OF 1] inv] by (simp add: sys_inv_def sup_ok_def)
  then have "run_acts K rt bundles cs (replicate 1 ACons) ?y4 =
    Some (y\<lparr>y_sup := if e \<noteq> None then close_done (c_ID c) s2 else s2, y_trace := t2, y_cons := CRecv\<rparr>)"
    by (cases e) (simp_all add: finish_def)
  with 1 have "run_acts K rt bundles cs (replicate (Suc n) ACons @ replicate 1 ACons) y =
    Some (y\<lparr>y_sup := if e \<noteq> None then close_done (c_ID c) s2 else s2, y_trace := t2, y_cons := CRecv\<rparr>)"
    unfolding run_acts_append 1 by simp
  with n(1) show ?thesis by (intro exI [of _ "Suc n + 1"]) (simp only: replicate_add, simp)
qed

lemma consume_refines:
  assumes d: "distinct (map c_ID cs)" and inv: "sys_inv cs y" and y: "y_cons y = CRecv" "y_chan y = ev # evs"
    and run: "run_state (consume K rt bundles cs ev (y_sup y)) (y_trace y) = (s', tr')"
  obtains n where "n \<le> 8" "run_acts K rt bundles cs (replicate n ACons) y =
    Some (y\<lparr>y_sup := s', y_trace := tr', y_chan := evs, y_cons := CRecv\<rparr>)"
proof (cases "tracked (y_sup y) (rp_PID ev)")
  case None
  have "\<not> s_panic (y_sup y)" using inv by (simp add: sys_inv_def sup_ok_def)
  with None y run show thesis by (intro that [of 1]) (auto simp: consume_def tracked_def)
next
  case (Some i)
  let ?s = "y_sup y" let ?s1 = "register_exit i ev ?s"
  from inv have ok: "sup_ok ?s" by (simp add: sys_inv_def)
  from sup_ok_exit [OF ok Some] obtain st where st: "state_of ?s i = Some st" "\<not> st_done st"
    "state_of ?s1 i = Some (st\<lparr>st_lastExit := Some ev\<rparr>)" "sup_ok ?s1" by blast
  have np: "\<not> s_panic ?s" "\<not> s_panic ?s1" using ok st(4) by (simp_all add: sup_ok_def)
  obtain r t1 where del: "run_state (rt_Delete rt i) (y_trace y) = (r, t1)" by fastforce
  let ?y2 = "y\<lparr>y_chan := evs, y_sup := ?s1, y_trace := t1, y_cons := CDecide i ev\<rparr>"
  have two: "run_acts K rt bundles cs (replicate (2 + n) ACons) y = run_acts K rt bundles cs (replicate n ACons) ?y2" for n
    using np Some y del by (simp add: numeral_eq_Suc)
  have sh: "shouldRestart (st\<lparr>st_lastExit := x\<rparr>) ev = shouldRestart st ev" for x
    by (simp add: shouldRestart_def)
  show thesis
  proof (cases "shouldRestart st ev \<and> findSpec cs i \<noteq> None")
    case False
    have "(s', tr') = (close_done i ?s1, t1)"
      using run Some st(1) del False
      by (cases "findSpec cs i") (auto simp: consume_def tracked_def state_of_def Let_def split: if_splits)
    moreover have "run_acts K rt bundles cs (replicate 1 ACons) ?y2 = Some (finish i ?y2)"
      using np st(3) sh False by (auto simp: split: option.split)
    ultimately show thesis using two [of 1] by (intro that [of 3]) (simp_all add: finish_def numeral_eq_Suc)
  next
    case True
    then obtain c where c: "findSpec cs i = Some c" "c_ID c = i" using findSpec_Some by fastforce
    obtain e s2 t2 where so: "run_state (startOne K rt bundles c ?s1) t1 = ((e, s2), t2)"
      by (metis prod.exhaust_sel)
    have res: "s' = (if e \<noteq> None then close_done i s2 else s2)" "tr' = t2"
      using run Some st(1) del True c(1) so by (auto simp: consume_def tracked_def state_of_def)
    have inv2: "sys_inv cs ?y2" by (rule inv_steps [OF d run_acts_steps inv]) (use two [of 0] in simp)
    have "\<exists>n \<le> 6. run_acts K rt bundles cs (replicate n ACons) ?y2 =
      Some (?y2\<lparr>y_sup := if e \<noteq> None then close_done (c_ID c) s2 else s2, y_trace := t2, y_cons := CRecv\<rparr>)"
      by (rule restart_refines [OF d inv2 _ _ _ c(1)]) (use st(3) True sh so in simp_all)
    then obtain n where n: "n \<le> 6" "run_acts K rt bundles cs (replicate n ACons) ?y2 =
      Some (?y2\<lparr>y_sup := if e \<noteq> None then close_done i s2 else s2, y_trace := t2, y_cons := CRecv\<rparr>)"
      using c(2) by auto
    then show thesis using two [of n] res by (intro that [of "2 + n"]) simp_all
  qed
qed

lemma drain_queue:
  assumes "distinct (map c_ID cs)"
  shows "sys_inv cs y \<Longrightarrow> y_cons y = CRecv \<Longrightarrow> y_chan y = evs \<Longrightarrow>
    run_state (consume_all K rt bundles cs evs (y_sup y)) (y_trace y) = (s', tr') \<Longrightarrow>
    \<exists>n \<le> 8 * length evs. run_acts K rt bundles cs (replicate n ACons) y =
      Some (y\<lparr>y_sup := s', y_trace := tr', y_chan := []\<rparr>)"
proof (induction evs arbitrary: y)
  case Nil
  then show ?case by (intro exI [of _ 0]) simp
next
  case (Cons ev evs)
  obtain s1 t1 where 1: "run_state (consume K rt bundles cs ev (y_sup y)) (y_trace y) = (s1, t1)" by fastforce
  let ?y1 = "y\<lparr>y_sup := s1, y_trace := t1, y_chan := evs, y_cons := CRecv\<rparr>"
  obtain n where n: "n \<le> 8" "run_acts K rt bundles cs (replicate n ACons) y = Some ?y1"
    using consume_refines [OF assms(1) Cons.prems(1-3) 1] by blast
  have "sys_inv cs ?y1" by (rule inv_steps [OF assms(1) run_acts_steps [OF n(2)] Cons.prems(1)])
  with Cons.IH [of ?y1] Cons.prems(4) 1 obtain m where m: "m \<le> 8 * length evs"
    "run_acts K rt bundles cs (replicate m ACons) ?y1 = Some (?y1\<lparr>y_sup := s', y_trace := tr', y_chan := []\<rparr>)"
    by auto
  have "run_acts K rt bundles cs (replicate (n + m) ACons) y = Some (y\<lparr>y_sup := s', y_trace := tr', y_chan := []\<rparr>)"
    unfolding replicate_add run_acts_append n(2) using m(2) Cons.prems(2) by simp
  with n(1) m(1) show ?case by (intro exI [of _ "n + m"]) simp
qed

subsection \<open>Stopping\<close>

text \<open>No start is under way, and none can begin on its own: every container is marked as stopped.\<close>

definition quiet :: "sys \<Rightarrow> bool" where
  "quiet y \<longleftrightarrow> (\<forall>i st. state_of (y_sup y) i = Some st \<longrightarrow> st_stopped st) \<and>
     (case y_main y of MInsert k \<Rightarrow> False | MStart k pc \<Rightarrow> False | _ \<Rightarrow> True) \<and>
     (case y_cons y of CStart c pc \<Rightarrow> False | _ \<Rightarrow> True)"

definition starts :: "Supervisor \<Rightarrow> string \<Rightarrow> nat option" where
  "starts s i = map_option st_starts (state_of s i)"

lemma not_restarted: "st_stopped st \<Longrightarrow> \<not> shouldRestart st ev"
  by (simp add: shouldRestart_def)

lemma quiet_finish:
  assumes "quiet y" "exited_pending (y_sup y) i"
  shows "quiet (finish i y) \<and> starts (y_sup (finish i y)) = starts (y_sup y)"
proof -
  from assms(2) obtain st where st: "state_of (y_sup y) i = Some st" "\<not> st_done st"
    by (auto simp: exited_pending_def)
  note c = close_done_simps [OF st]
  show ?thesis using assms(1) st c(1)
    by (auto simp: quiet_def finish_def starts_def fun_eq_iff)
qed

lemma quiet_cons:
  assumes q: "quiet y" and inv: "sys_inv cs y" and st: "cons_step K rt bundles cs (y_cons y) y = Some y'"
  shows "quiet y' \<and> starts (y_sup y') = starts (y_sup y)"
proof (cases "y_cons y")
  case CRecv
  show ?thesis
  proof (cases "y_chan y")
    case Nil
    with st CRecv have "y' = y\<lparr>y_cons := CExit\<rparr>" by (simp split: if_splits)
    with q show ?thesis by (simp add: quiet_def)
  next
    case (Cons ev evs)
    show ?thesis
    proof (cases "tracked (y_sup y) (rp_PID ev)")
      case None
      with st CRecv Cons q show ?thesis by (auto simp: quiet_def)
    next
      case (Some i)
      from inv have "sup_ok (y_sup y)" by (simp add: sys_inv_def)
      from sup_ok_exit [OF this Some] obtain t where t: "state_of (y_sup y) i = Some t" by blast
      note e = register_exit_simps(1) [OF t, of ev]
      have "y' = y\<lparr>y_chan := evs, y_sup := register_exit i ev (y_sup y), y_cons := CDelete i ev\<rparr>"
        using st CRecv Cons Some by simp
      with q t e show ?thesis by (simp add: quiet_def starts_def fun_eq_iff)
    qed
  qed
next
  case (CDecide i ev)
  then have e: "exited_pending (y_sup y) i" using inv by (simp add: sys_inv_def cons_inv_def)
  then obtain t where t: "state_of (y_sup y) i = Some t" by (auto simp: exited_pending_def)
  with q have "\<not> shouldRestart t ev" by (intro not_restarted) (auto simp: quiet_def)
  with st CDecide t have "y' = finish i y" by simp
  with quiet_finish [OF q e] show ?thesis by simp
next
  case (CStart c pc)
  with q show ?thesis by (simp add: quiet_def)
qed (use st q in \<open>auto simp: quiet_def\<close>)

lemma quiet_step:
  assumes q: "quiet y" and inv: "sys_inv cs y" and st: "step K rt bundles cs a y = Some y'"
  shows "quiet y' \<and> starts (y_sup y') = starts (y_sup y)"
proof (cases a)
  case AMain
  with st q show ?thesis
    by (cases "y_main y") (auto simp: quiet_def starts_def fun_eq_iff split: if_splits option.splits)
next
  case AMainCtx
  then have "y' = y\<lparr>y_main := MReturned (Some (Errorf ''context canceled'' []))\<rparr>"
    using st by (cases "y_main y") (auto split: if_splits)
  with q show ?thesis by (simp add: quiet_def)
next
  case ACons
  with quiet_cons [OF q inv] st show ?thesis by simp
next
  case ASignal
  with st have "y_sup y' = mark_stopped (y_sup y)" "y_main y' = y_main y" "y_cons y' = y_cons y"
    by (cases "y_stop y"; auto)+
  with q show ?thesis by (auto simp: quiet_def starts_def fun_eq_iff option.map_comp comp_def)
next
  case AStop
  have "y_sup y' = y_sup y" "y_main y' = y_main y" "y_cons y' = y_cons y"
    using AStop st by (cases "(rt, y_stop y, y)" rule: stop_step.cases; auto)+
  with q show ?thesis by (simp add: quiet_def)
next
  case ADeadline
  have "y_sup y' = y_sup y" "y_main y' = y_main y" "y_cons y' = y_cons y"
    using ADeadline st by (cases "y_stop y"; auto)+
  with q show ?thesis by (simp add: quiet_def)
qed (use st q in \<open>auto simp: quiet_def split: if_splits\<close>)

text \<open>
  C10. \<open>Stop\<close> disables restarts for good: from a moment on at which every container is marked as stopped
  and no start is under way, no container is ever started again, whatever exits and whatever the
  goroutines do.
\<close>

theorem no_start_after_stop:
  assumes "distinct (map c_ID cs)" "reachable K rt bundles cs y" "quiet y" "steps K rt bundles cs y y'"
  shows "quiet y' \<and> starts (y_sup y') = starts (y_sup y)"
  using assms(4) unfolding steps_def
proof (induction rule: rtranclp_induct)
  case base
  show ?case using assms(3) by simp
next
  case (step y1 y2)
  then have "sys_inv cs y1"
    using inv_steps [OF assms(1) _ inv_reachable [OF assms(1,2)]] by (simp add: steps_def)
  with step quiet_step [of y1 cs K rt bundles _ y2] show ?case by (auto elim: sys_stepE)
qed

theorem no_start_after_stop_witness:
  "\<exists>y y'. run_web RestartAlways (start_acts @ [ASignal]) = Some y \<and>
    run_acts (kernel_with (\<lambda>_. None)) (rt_fixed 7) [(''web'', ''/b/web'')] [web RestartAlways]
      [AReap (exit_of 7), ACons, ACons, ACons] y = Some y' \<and>
    starts (y_sup y') = starts (y_sup y) \<and> is_done (y_sup y') ''web''"
proof -
  obtain y y' where y: "run_web RestartAlways (start_acts @ [ASignal]) = Some y" "quiet y"
    "run_acts (kernel_with (\<lambda>_. None)) (rt_fixed 7) [(''web'', ''/b/web'')] [web RestartAlways]
      [AReap (exit_of 7), ACons, ACons, ACons] y = Some y'" "is_done (y_sup y') ''web''"
    by (simp add: run_acts_append web_started)
      (simp add: one_running_def exit_of_def tracked_def rt_fixed_def register_exit_def with_state_def
        state_of_def shouldRestart_def finish_def close_done_def web_def new_container_def publish_def
        chan_cap_def quiet_def mark_stopped_def is_done_def split: if_splits)
  from no_start_after_stop [OF _ web_reachable [OF y(1)] y(2) run_acts_steps [OF y(3)]] y show ?thesis
    by auto
qed

fun exec_argv :: "event \<Rightarrow> string list" where
  "exec_argv (EExec argv x) = argv"
| "exec_argv _ = []"

context oci_runtime begin

lemma stop_terms:
  assumes "\<not> s_panic (y_sup y)" "y_stop y = PTerm is ids"
  shows "\<exists>es. run_acts K rt bundles cs (replicate (length is) AStop) y =
      Some (y\<lparr>y_trace := y_trace y @ es, y_stop := PTerm [] ids\<rparr>) \<and>
    map exec_argv es = map (\<lambda>i. argv (CallKill i ''TERM'')) is"
  using assms
proof (induction "is" arbitrary: y)
  case Nil
  then have "y\<lparr>y_trace := y_trace y @ [], y_stop := PTerm [] ids\<rparr> = y" by simp
  then show ?case by (intro exI [of _ "[]"]) simp
next
  case (Cons i "is")
  obtain r t where k: "run_state (rt_Kill rt i ''TERM'') (y_trace y) = (r, t)" by fastforce
  from Kill_run [OF k] obtain x where x: "t = y_trace y @ [EExec (argv (CallKill i ''TERM'')) x]" by blast
  let ?y = "y\<lparr>y_trace := t, y_stop := PTerm is ids\<rparr>"
  from Cons.IH [of ?y] Cons.prems obtain es where
    "run_acts K rt bundles cs (replicate (length is) AStop) ?y =
       Some (?y\<lparr>y_trace := t @ es, y_stop := PTerm [] ids\<rparr>)"
    "map exec_argv es = map (\<lambda>i. argv (CallKill i ''TERM'')) is" by auto
  with Cons.prems k x show ?case
    by (intro exI [of _ "EExec (argv (CallKill i ''TERM'')) x # es"]) simp
qed

lemma stop_kills:
  assumes "\<not> s_panic (y_sup y)" "y_stop y = PKill is"
  shows "\<exists>es. run_acts K rt bundles cs (replicate (length is) AStop) y =
      Some (y\<lparr>y_trace := y_trace y @ es, y_stop := PKill []\<rparr>) \<and>
    map exec_argv es = map (\<lambda>i. argv (CallKill i ''KILL'')) is"
  using assms
proof (induction "is" arbitrary: y)
  case Nil
  then have "y\<lparr>y_trace := y_trace y @ [], y_stop := PKill []\<rparr> = y" by simp
  then show ?case by (intro exI [of _ "[]"]) simp
next
  case (Cons i "is")
  obtain r t where k: "run_state (rt_Kill rt i ''KILL'') (y_trace y) = (r, t)" by fastforce
  from Kill_run [OF k] obtain x where x: "t = y_trace y @ [EExec (argv (CallKill i ''KILL'')) x]" by blast
  let ?y = "y\<lparr>y_trace := t, y_stop := PKill is\<rparr>"
  from Cons.IH [of ?y] Cons.prems obtain es where
    "run_acts K rt bundles cs (replicate (length is) AStop) ?y =
       Some (?y\<lparr>y_trace := t @ es, y_stop := PKill []\<rparr>)"
    "map exec_argv es = map (\<lambda>i. argv (CallKill i ''KILL'')) is" by auto
  with Cons.prems k x show ?case
    by (intro exI [of _ "EExec (argv (CallKill i ''KILL'')) x # es"]) simp
qed

lemma stop_run:
  assumes np: "\<not> s_panic (y_sup y)" and y: "y_stop y = PTerm ids ids"
  shows "\<exists>as y' es. set as \<subseteq> {AStop, ADeadline} \<and> run_acts K rt bundles cs as y = Some y' \<and>
    y_stop y' = PDone \<and> y_cancelled y' \<and> y_sup y' = y_sup y \<and> y_trace y' = y_trace y @ es \<and>
    map exec_argv es = map (\<lambda>i. argv (CallKill i ''TERM'')) ids @
      (if allExited (y_sup y) then [] else map (\<lambda>i. argv (CallKill i ''KILL'')) ids)"
proof -
  obtain es where es: "run_acts K rt bundles cs (replicate (length ids) AStop) y =
      Some (y\<lparr>y_trace := y_trace y @ es, y_stop := PTerm [] ids\<rparr>)"
    "map exec_argv es = map (\<lambda>i. argv (CallKill i ''TERM'')) ids"
    using stop_terms [OF np y] by blast
  show ?thesis
  proof (cases "allExited (y_sup y)")
    case True
    with es np show ?thesis
      by (intro exI [of _ "replicate (length ids) AStop @ [AStop, AStop, AStop]"])
        (auto simp: run_acts_append)
  next
    case False
    let ?y1 = "y\<lparr>y_trace := y_trace y @ es, y_stop := PKill ids\<rparr>"
    have a: "run_acts K rt bundles cs (replicate (length ids) AStop @ [AStop, AStop, ADeadline]) y = Some ?y1"
      using es(1) np False by (simp add: run_acts_append)
    obtain fs where fs: "run_acts K rt bundles cs (replicate (length ids) AStop) ?y1 =
        Some (?y1\<lparr>y_trace := y_trace ?y1 @ fs, y_stop := PKill []\<rparr>)"
      "map exec_argv fs = map (\<lambda>i. argv (CallKill i ''KILL'')) ids"
      using stop_kills [of ?y1 ids K bundles cs] np by auto
    let ?y' = "?y1\<lparr>y_trace := y_trace ?y1 @ fs, y_cancelled := True, y_stop := PDone\<rparr>"
    have b: "run_acts K rt bundles cs (replicate (length ids) AStop @ [AStop, AStop]) ?y1 = Some ?y'"
      using fs(1) np by (simp add: run_acts_append)
    have "run_acts K rt bundles cs ((replicate (length ids) AStop @ [AStop, AStop, ADeadline]) @
        (replicate (length ids) AStop @ [AStop, AStop])) y = Some ?y'"
      by (subst run_acts_append) (simp only: a b Option.bind.simps)
    moreover have "set ((replicate (length ids) AStop @ [AStop, AStop, ADeadline]) @
        (replicate (length ids) AStop @ [AStop, AStop])) \<subseteq> {AStop, ADeadline}"
      by (auto simp: set_replicate_conv_if split: if_splits)
    ultimately show ?thesis using es(2) fs(2) False
      by (intro exI [of _ "(replicate (length ids) AStop @ [AStop, AStop, ADeadline]) @
          (replicate (length ids) AStop @ [AStop, AStop])"] exI [of _ ?y'] exI [of _ "es @ fs"]) simp
  qed
qed

end

text \<open>
  \<open>Stop\<close> comes to an end: from the moment it has marked the containers, its own steps and the
  deadline lead to its return and to the cancellation, with one SIGTERM for each container and, unless
  all of them have exited by then, one SIGKILL for each, in that order and nothing else.
\<close>

theorem Stop_returns:
  assumes "\<not> s_panic (y_sup y)" "y_stop y = PTerm ids ids"
  shows "\<exists>as y' es. set as \<subseteq> {AStop, ADeadline} \<and>
    run_acts K (crun_runtime K r) bundles cs as y = Some y' \<and>
    y_stop y' = PDone \<and> y_cancelled y' \<and> y_sup y' = y_sup y \<and> y_trace y' = y_trace y @ es \<and>
    map exec_argv es = map (\<lambda>i. crun_argv r (CallKill i ''TERM'')) ids @
      (if allExited (y_sup y) then [] else map (\<lambda>i. crun_argv r (CallKill i ''KILL'')) ids)"
  by (rule crun.stop_run [OF assms])

theorem Stop_returns_witness:
  "\<exists>as y' es. run_acts (kernel_with (\<lambda>_. None)) (crun_runtime (kernel_with (\<lambda>_. None)) crun_New) [] [] as
      ((initial [])\<lparr>y_sup := one_running RestartAlways, y_stop := PTerm [''web''] [''web'']\<rparr>) = Some y' \<and>
    y_stop y' = PDone \<and> y_trace y' = es \<and>
    map exec_argv es = [[''crun'', ''--root'', ''/run/weft/crun'', ''kill'', ''web'', ''TERM''],
      [''crun'', ''--root'', ''/run/weft/crun'', ''kill'', ''web'', ''KILL'']]"
proof -
  let ?y = "(initial [])\<lparr>y_sup := one_running RestartAlways, y_stop := PTerm [''web''] [''web'']\<rparr>"
  have h: "\<not> s_panic (y_sup ?y)" "y_stop ?y = PTerm [''web''] [''web'']"
    by (simp_all add: one_running_def)
  have ne: "\<not> allExited (y_sup ?y)" by (simp add: allExited_def one_running_def)
  obtain as y' es where r: "run_acts (kernel_with (\<lambda>_. None))
      (crun_runtime (kernel_with (\<lambda>_. None)) crun_New) [] [] as ?y = Some y'" "y_stop y' = PDone"
    "y_trace y' = y_trace ?y @ es" "map exec_argv es = map (\<lambda>i. crun_argv crun_New (CallKill i ''TERM'')) [''web''] @
      (if allExited (y_sup ?y) then [] else map (\<lambda>i. crun_argv crun_New (CallKill i ''KILL'')) [''web''])"
    using Stop_returns [OF h, of "kernel_with (\<lambda>_. None)" crun_New "[]" "[]"] by blast
  from r(4) ne have "map exec_argv es = [[''crun'', ''--root'', ''/run/weft/crun'', ''kill'', ''web'', ''TERM''],
      [''crun'', ''--root'', ''/run/weft/crun'', ''kill'', ''web'', ''KILL'']]"
    by (simp add: crun_argv_def crun_cmd_def crun_binary_def crun_New_def)
  with r(1-3) show ?thesis by (intro exI conjI) (assumption | simp add: initial_def)+
qed

end
