(* ===== verification/Boot.thy ===== *)
theory Boot
  imports Cmdline Bundler Overlay Config_Load Cubefs Supervisor_Run
begin

text \<open>
  The boot sequence of cmd/weft-init/main.go, which composes the other components: \<open>run\<close> up to the
  supervisor, with \<open>mountPseudoFS\<close>, \<open>mountConfigShare\<close>, \<open>mountShares\<close>, \<open>mountCubeFSShares\<close>,
  \<open>enrichContainers\<close>, \<open>resolveRootfs\<close> and \<open>prepareBundles\<close>, and the end of \<open>main\<close>, \<open>poweroff\<close>.  The
  JSON codecs and the WireGuard library are parameters.  Logging is left out.
\<close>

subsection \<open>Constants and codecs\<close>

definition guestPath :: string where "guestPath = ''/bin:/usr/bin:/sbin''"
definition defaultPodSpecPath :: string where "defaultPodSpecPath = ''/run/weft/cfg/pod.json''"
definition defaultWireGuardPath :: string where "defaultWireGuardPath = ''/run/weft/cfg/wireguard.json''"

text \<open>The arrow of the error texts, in UTF-8.\<close>

definition arrow :: string where "arrow = [CHR 0xE2, CHR 0x86, CHR 0x92]"

text \<open>Package encoding/json at the types the boot uses it at.\<close>

record codec =
  jd_spec :: "string \<Rightarrow> Spec result"
  jd_wireguard :: "string \<Rightarrow> WireGuard result"
  jd_image :: "string \<Rightarrow> ImageConfigFile result"
  je_oci :: "oci_spec \<Rightarrow> string result"
  je_client :: "clientCfg \<Rightarrow> string result"

subsection \<open>Mounts\<close>

definition pseudo_mounts :: "(string \<times> string \<times> string \<times> nat \<times> string) list" where
  "pseudo_mounts =
     [(''proc'', ''/proc'', ''proc'', 0, ''''),
      (''sysfs'', ''/sys'', ''sysfs'', 0, ''''),
      (''devtmpfs'', ''/dev'', ''devtmpfs'', 0, ''mode=0755''),
      (''devpts'', ''/dev/pts'', ''devpts'', 0, ''newinstance,ptmxmode=0666''),
      (''tmpfs'', ''/dev/shm'', ''tmpfs'', 0, ''mode=1777''),
      (''tmpfs'', ''/run'', ''tmpfs'', 0, ''mode=0755''),
      (''cgroup2'', ''/sys/fs/cgroup'', ''cgroup2'', 0, ''nsdelegate'')]"

text \<open>Errors of either call are logged and passed over.\<close>

fun mount_each :: "kernel \<Rightarrow> (string \<times> string \<times> string \<times> nat \<times> string) list \<Rightarrow> unit io" where
  "mount_each K [] = ret ()"
| "mount_each K ((source, target, fstype, flags, dat) # ms) = do {
     _ \<leftarrow> os_mkdir_all K target;
     _ \<leftarrow> sys_mount K source target fstype flags dat;
     mount_each K ms
   }"

definition mountPseudoFS :: "kernel \<Rightarrow> goerr option io" where
  "mountPseudoFS K = do { _ \<leftarrow> mount_each K pseudo_mounts; ret None }"

definition mountConfigShare :: "kernel \<Rightarrow> string \<Rightarrow> goerr option io" where
  "mountConfigShare K specPath =
     (if specPath \<noteq> defaultPodSpecPath then ret None
      else do {
        v \<leftarrow> cmdlineValue K ''weft.config'';
        let tag = stripTransportPrefix v;
        (if tag = [] then ret None
         else do {
           let dir = path_dir specPath;
           e \<leftarrow> os_mkdir_all K dir;
           (case e of
              Some e \<Rightarrow> ret (Some (Wrapf ''mkdir %s: %w'' [AStr dir] e))
            | None \<Rightarrow> do {
                (fstype, dat) \<leftarrow> shareMountTransport K;
                e \<leftarrow> sys_mount K tag dir fstype MS_RDONLY dat;
                ret (map_option (Wrapf (''%s config %s '' @ arrow @ '' %s: %w'') [AStr fstype, AStr tag, AStr dir]) e)
              })
         })
      })"

definition share_flags :: "Share \<Rightarrow> nat" where
  "share_flags sh = (if sh_Readonly sh then MS_RDONLY else 0)"

fun mount_shares :: "kernel \<Rightarrow> string \<Rightarrow> string \<Rightarrow> Share list \<Rightarrow> goerr option io" where
  "mount_shares K fstype dat [] = ret None"
| "mount_shares K fstype dat (sh # shs) = do {
     e \<leftarrow> os_mkdir_all K (sh_MountPoint sh);
     (case e of
        Some e \<Rightarrow> ret (Some (Wrapf ''mkdir %s: %w'' [AStr (sh_MountPoint sh)] e))
      | None \<Rightarrow> do {
          e \<leftarrow> sys_mount K (sh_Tag sh) (sh_MountPoint sh) fstype (share_flags sh) dat;
          (case e of
             Some e \<Rightarrow> ret (Some (Wrapf (''%s %s '' @ arrow @ '' %s: %w'') [AStr fstype, AStr (sh_Tag sh), AStr (sh_MountPoint sh)] e))
           | None \<Rightarrow> mount_shares K fstype dat shs)
        })
   }"

definition mountShares :: "kernel \<Rightarrow> Spec \<Rightarrow> goerr option io" where
  "mountShares K spec = do {
     (fstype, dat) \<leftarrow> shareMountTransport K;
     mount_shares K fstype dat (sp_Shares spec)
   }"

text \<open>The action of a share mount is not looked at here.\<close>

fun mount_cubefs :: "kernel \<Rightarrow> (clientCfg \<Rightarrow> string result) \<Rightarrow> ShareMount list \<Rightarrow> goerr option outcome io" where
  "mount_cubefs K encode [] = ret (Returned None)"
| "mount_cubefs K encode (sm # sms) =
     (if effective_backend sm \<noteq> BackendCubeFS then mount_cubefs K encode sms
      else (case ShareMount_Validate sm of
          Some e \<Rightarrow> ret (Returned (Some (Wrapf ''cubefs %q: %w'' [AStr (sm_ID sm)] e)))
        | None \<Rightarrow> proceed (cfs_Mount K encode sm) (\<lambda>r. case r of
              Inl e \<Rightarrow> ret (Returned (Some (Wrapf ''cubefs mount %s at %s: %w'' [AStr (sm_ID sm), AStr (sm_MountPoint sm)] e)))
            | Inr _ \<Rightarrow> mount_cubefs K encode sms)))"

definition mountCubeFSShares :: "kernel \<Rightarrow> codec \<Rightarrow> Spec \<Rightarrow> goerr option outcome io" where
  "mountCubeFSShares K J spec = mount_cubefs K (je_client J) (sp_ShareMounts spec)"

subsection \<open>Containers\<close>

definition resolveRootfs :: "kernel \<Rightarrow> Share list \<Rightarrow> Container \<Rightarrow> string io" where
  "resolveRootfs K shares c =
     (case List.find (\<lambda>sh. sh_Tag sh = c_RootfsTag c) shares of
        Some sh \<Rightarrow> ret (sh_MountPoint sh)
      | None \<Rightarrow> do {
          let fallback = path_join [''/run/weft/rootfs'', c_ID c];
          e \<leftarrow> os_stat K fallback;
          ret (if e = None then fallback else [])
        })"

text \<open>The loop works on the containers in place: the result is the error and the containers afterwards.\<close>

fun enrich_each :: "kernel \<Rightarrow> codec \<Rightarrow> Share list \<Rightarrow> Container list \<Rightarrow> (goerr option \<times> Container list) io" where
  "enrich_each K J shares [] = ret (None, [])"
| "enrich_each K J shares (c # cs) =
     (if c_Command c \<noteq> [] then do {
        (e, cs') \<leftarrow> enrich_each K J shares cs;
        ret (e, c # cs')
      } else do {
        rootfs \<leftarrow> resolveRootfs K shares c;
        (if rootfs = []
         then ret (Some (Errorf ''container %q: no rootfs for tag %q'' [AStr (c_ID c), AStr (c_RootfsTag c)]), c # cs)
         else do {
           (e, c') \<leftarrow> EnrichFromImage K (jd_image J) c rootfs;
           (case e of
              Some e \<Rightarrow> ret (Some
                (if is_not_exist e
                 then Errorf ''container %q: no command in spec and no <rootfs>/.weft-microvm/config.json (host puller too old?)'' [AStr (c_ID c)]
                 else Wrapf ''container %q: %w'' [AStr (c_ID c)] e), c' # cs)
            | None \<Rightarrow> do {
                (e, cs') \<leftarrow> enrich_each K J shares cs;
                ret (e, c' # cs')
              })
         })
      })"

definition enrichContainers :: "kernel \<Rightarrow> codec \<Rightarrow> Spec \<Rightarrow> (goerr option \<times> Spec) io" where
  "enrichContainers K J spec = do {
     (e, cs) \<leftarrow> enrich_each K J (sp_Shares spec) (sp_Containers spec);
     ret (e, spec\<lparr>sp_Containers := cs\<rparr>)
   }"

type_synonym bundles = "(string \<times> string) list"

fun build_each :: "kernel \<Rightarrow> codec \<Rightarrow> Spec \<Rightarrow> bundles \<Rightarrow> Container list \<Rightarrow> bundles result io" where
  "build_each K J spec out [] = ret (Inr out)"
| "build_each K J spec out (c # cs) = do {
     rootfs \<leftarrow> resolveRootfs K (sp_Shares spec) c;
     (if rootfs = []
      then ret (Inl (Errorf ''container %q: no rootfs (no share with tag %q)'' [AStr (c_ID c), AStr (c_RootfsTag c)]))
      else do {
        r \<leftarrow> Build K (je_oci J) (sp_PodID spec) c rootfs;
        (case r of
           Inl e \<Rightarrow> ret (Inl (Wrapf ''container %q: %w'' [AStr (c_ID c)] e))
         | Inr d \<Rightarrow> build_each K J spec (AList.update (c_ID c) d out) cs)
      })
   }"

definition prepareBundles :: "kernel \<Rightarrow> codec \<Rightarrow> Spec \<Rightarrow> bundles result io" where
  "prepareBundles K J spec = build_each K J spec [] (sp_Containers spec)"

subsection \<open>The sequence\<close>

text \<open>A stage that fails ends \<open>run\<close> with its error, wrapped.\<close>

definition stage :: "string \<Rightarrow> goerr option outcome io \<Rightarrow> 'b result outcome io \<Rightarrow> 'b result outcome io" where
  "stage name m k = proceed m (\<lambda>e. case e of
     Some e \<Rightarrow> ret (Returned (Inl (Wrapf name [] e))) | None \<Rightarrow> k)"

definition returning :: "'a io \<Rightarrow> 'a outcome io" where
  "returning m = do { x \<leftarrow> m; ret (Returned x) }"

definition answering :: "goerr option option io \<Rightarrow> goerr option outcome io" where
  "answering m = do { x \<leftarrow> m; ret (case x of None \<Rightarrow> Waiting | Some e \<Rightarrow> Returned e) }"

text \<open>The pod of the config share, or the one of the command line when there is no pod file.\<close>

definition loadSpec :: "kernel \<Rightarrow> codec \<Rightarrow> string \<Rightarrow> Spec result io" where
  "loadSpec K J specPath = do {
     r \<leftarrow> Spec_Load K (jd_spec J) specPath;
     (case r of
        Inr spec \<Rightarrow> ret (Inr spec)
      | Inl e \<Rightarrow>
          if is_not_exist e then do {
            s \<leftarrow> synthSingleContainerPod K;
            ret (case s of
                   Some spec \<Rightarrow> Inr spec
                 | None \<Rightarrow> Inl (Wrapf ''load pod spec: %w (and no weft.rootfs= cmdline fallback)'' [] e))
          } else ret (Inl (Wrapf ''load pod spec: %w'' [] e)))
   }"

definition bringOverlay :: "kernel \<Rightarrow> bring_up \<Rightarrow> codec \<Rightarrow> Spec \<Rightarrow> goerr option outcome io" where
  "bringOverlay K BU J spec = do {
     w \<leftarrow> (case sp_WireGuard spec of
            Some wg \<Rightarrow> ret (Inr (Some wg))
          | None \<Rightarrow> LoadWireGuard K (jd_wireguard J) defaultWireGuardPath);
     (case w of
        Inl e \<Rightarrow> ret (Returned (Some (Wrapf ''wireguard config: %w'' [] e)))
      | Inr wg \<Rightarrow> do {
          r \<leftarrow> ApplyWireGuard K BU wg;
          ret (case r of None \<Rightarrow> Waiting | Some e \<Rightarrow> Returned (map_option (Wrapf ''wireguard: %w'' []) e))
        })
   }"

text \<open>
  \<open>run\<close> up to the supervisor: the pod and the bundles it is handed.  The probe of crun is logged only.
\<close>

definition set_namespaces :: "kernel \<Rightarrow> unit io" where
  "set_namespaces K = do {
     v \<leftarrow> cmdlineEnv K bundleNamespacesEnv;
     (case v of Some v \<Rightarrow> os_setenv bundleNamespacesEnv v | None \<Rightarrow> ret ())
   }"

definition prepare_pod :: "kernel \<Rightarrow> bring_up \<Rightarrow> codec \<Rightarrow> Spec \<Rightarrow> (Spec \<times> bundles) result outcome io" where
  "prepare_pod K BU J spec =
     stage ''shares: %w'' (returning (mountShares K spec))
     (stage ''cubefs shares: %w'' (mountCubeFSShares K J spec)
     (proceed (returning (enrichContainers K J spec)) (\<lambda>(e, spec).
        case e of
          Some e \<Rightarrow> ret (Returned (Inl (Wrapf ''resolve image entrypoints: %w'' [] e)))
        | None \<Rightarrow>
            stage ''network: %w'' (answering (Apply K (sp_Network spec)))
            (proceed (bringOverlay K BU J spec) (\<lambda>e. case e of
                Some e \<Rightarrow> ret (Returned (Inl e))
              | None \<Rightarrow> do {
                  b \<leftarrow> prepareBundles K J spec;
                  (case b of
                     Inl e \<Rightarrow> ret (Returned (Inl (Wrapf ''bundles: %w'' [] e)))
                   | Inr bundles \<Rightarrow> do {
                       _ \<leftarrow> exec_run K [''crun'', ''--version''];
                       ret (Returned (Inr (spec, bundles)))
                     })
                })))))"

definition prepare :: "kernel \<Rightarrow> bring_up \<Rightarrow> codec \<Rightarrow> string \<Rightarrow> (Spec \<times> bundles) result outcome io" where
  "prepare K BU J specPath = do {
     _ \<leftarrow> os_setenv ''PATH'' guestPath;
     _ \<leftarrow> set_namespaces K;
     stage ''pseudo-fs: %w'' (returning (mountPseudoFS K))
     (stage ''config share: %w'' (returning (mountConfigShare K specPath))
     (proceed (returning (loadSpec K J specPath)) (\<lambda>s. case s of
        Inl e \<Rightarrow> ret (Returned (Inl e))
      | Inr spec \<Rightarrow> prepare_pod K BU J spec)))
   }"

subsection \<open>The end\<close>

text \<open>\<open>poweroff\<close>: false when the reboot call failed and the process spins for ever.\<close>

definition poweroff :: "kernel \<Rightarrow> nat \<Rightarrow> bool io" where
  "poweroff K delay = do {
     _ \<leftarrow> (if 0 < delay then time_sleep delay else ret ());
     _ \<leftarrow> call (\<lambda>_. ()) (\<lambda>_. ESync);
     e \<leftarrow> call (k_reboot K) EReboot;
     ret (e = None)
   }"

text \<open>
  What \<open>main\<close> does with the result of \<open>run\<close>.  It is not an action of the supervisor's system: the
  program comes here as soon as \<open>run\<close> returns, even with \<open>Stop\<close> unfinished, and the reboot ends every
  goroutine at whatever point it has reached.  (The system lets \<open>Stop\<close> go on after the return of \<open>Run\<close>.)
\<close>

definition main_end :: "kernel \<Rightarrow> goerr option \<Rightarrow> bool io" where
  "main_end K err = do {
     ok \<leftarrow> (if err \<noteq> None then poweroff K 3000 else ret True);
     (if ok then poweroff K 0 else ret False)
   }"

text \<open>
  The whole of \<open>main\<close> up to the goroutines: \<open>prepare\<close>, then either the power-off or the supervisor of
  Supervisor-Run, started on the prepared pod with the trace so far.
\<close>

definition boot :: "kernel \<Rightarrow> bring_up \<Rightarrow> codec \<Rightarrow> string \<Rightarrow> trace \<Rightarrow> (bool + Container list \<times> bundles \<times> sys) outcome" where
  "boot K BU J specPath tr =
     (case run_state (prepare K BU J specPath) tr of
        (Returned (Inl e), t) \<Rightarrow> Returned (Inl (fst (run_state (main_end K (Some e)) t)))
      | (Returned (Inr (spec, bundles)), t) \<Rightarrow> Returned (Inr (sp_Containers spec, bundles, initial t))
      | (Panicked, _) \<Rightarrow> Panicked
      | (Waiting, _) \<Rightarrow> Waiting)"

subsection \<open>Stages that return\<close>

lemma proceed_ok: "run_state (proceed m f) tr = (Returned z, tr') \<longleftrightarrow>
  (\<exists>x t. run_state m tr = (Returned x, t) \<and> run_state (f x) t = (Returned z, tr'))"
  by (auto simp: proceed_def split: prod.splits outcome.splits)

lemma stage_ok: "run_state (stage name m k) tr = (Returned (Inr z), tr') \<longleftrightarrow>
  (\<exists>t. run_state m tr = (Returned None, t) \<and> run_state k t = (Returned (Inr z), tr'))"
  by (auto simp: stage_def proceed_ok split: option.splits)

lemma returning_ok: "run_state (returning m) tr = (Returned x, t) \<longleftrightarrow> run_state m tr = (x, t)"
  by (auto simp: returning_def split: prod.splits)

lemma answering_ok: "run_state (answering m) tr = (Returned x, t) \<longleftrightarrow> run_state m tr = (Some x, t)"
  by (auto simp: answering_def split: prod.splits option.splits)

lemma bind_ok: "run_state (State_Monad.bind m f) tr = (z, tr') \<longleftrightarrow>
  (\<exists>x t. run_state m tr = (x, t) \<and> run_state (f x) t = (z, tr'))"
  by (auto split: prod.splits)

lemma case_sum_ok: "run_state (case s of Inl e \<Rightarrow> ret (Returned (Inl (h e))) | Inr x \<Rightarrow> g x) t = (Returned (Inr z), t') \<longleftrightarrow>
  (\<exists>x. s = Inr x \<and> run_state (g x) t = (Returned (Inr z), t'))"
  by (auto split: sum.splits)

lemma case_err_ok: "run_state (case e of Some e \<Rightarrow> ret (Returned (Inl (h e))) | None \<Rightarrow> k) t = (Returned (Inr z), t') \<longleftrightarrow>
  e = None \<and> run_state k t = (Returned (Inr z), t')"
  by (auto split: option.splits)

lemmas stages_ok = proceed_ok stage_ok returning_ok answering_ok bind_ok case_sum_ok case_err_ok

text \<open>The states a successful preparation goes through.\<close>

lemma prepare_pod_stages:
  assumes "run_state (prepare_pod K BU J spec0) tr = (Returned (Inr (spec, bundles)), tr')"
  obtains t1 t2 t3 t4 t5 t6 where
    "run_state (mountShares K spec0) tr = (None, t1)"
    "run_state (mountCubeFSShares K J spec0) t1 = (Returned None, t2)"
    "run_state (enrichContainers K J spec0) t2 = ((None, spec), t3)"
    "run_state (Apply K (sp_Network spec)) t3 = (Some None, t4)"
    "run_state (bringOverlay K BU J spec) t4 = (Returned None, t5)"
    "run_state (prepareBundles K J spec) t5 = (Inr bundles, t6)"
    "tr' = t6 @ [EExec [''crun'', ''--version''] (fst (k_exec K t6 [''crun'', ''--version'']))]"
proof -
  have run: "run_state (exec_run K c) t = (x, t') \<longleftrightarrow> x = k_exec K t c \<and> t' = t @ [EExec c (fst (k_exec K t c))]" for t c x t'
    by (auto simp: exec_run_def)
  from assms show thesis
    by (simp add: prepare_pod_def stages_ok run del: run_state_bind) (elim exE conjE, rule that, auto)
qed

lemma prepare_stages:
  assumes "run_state (prepare K BU J specPath) tr = (Returned (Inr (spec, bundles)), tr')"
  obtains t1 t2 t3 t4 spec0 where
    "run_state (set_namespaces K) (tr @ [ESetenv ''PATH'' guestPath]) = ((), t1)"
    "run_state (mountPseudoFS K) t1 = (None, t2)"
    "run_state (mountConfigShare K specPath) t2 = (None, t3)"
    "run_state (loadSpec K J specPath) t3 = (Inr spec0, t4)"
    "run_state (prepare_pod K BU J spec0) t4 = (Returned (Inr (spec, bundles)), tr')"
  using assms
  by (simp add: prepare_def os_setenv_def stages_ok del: run_state_bind) (elim exE conjE, rule that, auto)

subsection \<open>What is handed to the supervisor\<close>

lemma EnrichFromImage_keeps:
  assumes "run_state (EnrichFromImage K d c rootfs) tr = ((e, c'), tr')"
  shows "c_ID c' = c_ID c" "c_RootfsTag c' = c_RootfsTag c" "e = None \<Longrightarrow> c_Command c' \<noteq> []"
  using assms
  by (auto simp: EnrichFromImage_def LoadImageConfig_def io_defs Let_def fill_container_def
      split: sum.splits if_splits)

lemma enrich_each_keeps:
  "run_state (enrich_each K J shares cs) tr = ((e, cs'), tr') \<Longrightarrow>
   map c_ID cs' = map c_ID cs \<and> map c_RootfsTag cs' = map c_RootfsTag cs \<and>
   (e = None \<longrightarrow> list_all (\<lambda>c. c_Command c \<noteq> []) cs')"
proof (induction cs arbitrary: tr e cs')
  case (Cons c cs)
  show ?case
  proof (cases "c_Command c = []")
    case False
    with Cons.prems obtain ds where "run_state (enrich_each K J shares cs) tr = ((e, ds), tr')" "cs' = c # ds"
      by (auto split: prod.splits)
    with Cons.IH False show ?thesis by fastforce
  next
    case True
    obtain rootfs t where r: "run_state (resolveRootfs K shares c) tr = (rootfs, t)" by fastforce
    show ?thesis
    proof (cases "rootfs = []")
      case R: True
      with Cons.prems True r show ?thesis by auto
    next
      case False
      obtain x c' u where x: "run_state (EnrichFromImage K (jd_image J) c rootfs) t = ((x, c'), u)" by (rule pair3)
      note k = EnrichFromImage_keeps [OF x]
      show ?thesis
      proof (cases x)
        case (Some y)
        with Cons.prems True r False x k show ?thesis by auto
      next
        case None
        with Cons.prems True r False x obtain ds where
          "run_state (enrich_each K J shares cs) u = ((e, ds), tr')" "cs' = c' # ds"
          by (auto split: prod.splits)
        with Cons.IH k None show ?thesis by fastforce
      qed
    qed
  qed
qed auto

lemma enrichContainers_keeps:
  assumes "run_state (enrichContainers K J spec) tr = ((None, spec'), tr')"
  shows "map c_ID (sp_Containers spec') = map c_ID (sp_Containers spec)"
    "list_all (\<lambda>c. c_Command c \<noteq> []) (sp_Containers spec')"
    "\<exists>cs. spec' = spec\<lparr>sp_Containers := cs\<rparr>"
proof -
  from assms obtain cs where r: "run_state (enrich_each K J (sp_Shares spec) (sp_Containers spec)) tr = ((None, cs), tr')"
    "spec' = spec\<lparr>sp_Containers := cs\<rparr>"
    by (auto simp: enrichContainers_def split: prod.splits)
  from enrich_each_keeps [OF r(1)] r(2)
  show "map c_ID (sp_Containers spec') = map c_ID (sp_Containers spec)"
    "list_all (\<lambda>c. c_Command c \<noteq> []) (sp_Containers spec')" "\<exists>cs. spec' = spec\<lparr>sp_Containers := cs\<rparr>"
    by auto
qed

lemma Build_dir: "fst (run_state (Build K marshal podID c rootfs) tr) = Inr d \<Longrightarrow> d = path_join [BundlesRoot, c_ID c]"
  by (auto simp: Build_def io_defs Let_def split: if_splits option.splits sum.splits prod.splits)

lemma build_each_bundles:
  "run_state (build_each K J spec out cs) tr = (Inr out', tr') \<Longrightarrow>
   map_of out' = map_of out ++ (\<lambda>i. if i \<in> c_ID ` set cs then Some (path_join [BundlesRoot, i]) else None)"
proof (induction cs arbitrary: out tr)
  case Nil
  then show ?case by (auto simp: fun_eq_iff map_add_def)
next
  case (Cons c cs)
  obtain rootfs t where r: "run_state (resolveRootfs K (sp_Shares spec) c) tr = (rootfs, t)" by fastforce
  obtain b u where b: "run_state (Build K (je_oci J) (sp_PodID spec) c rootfs) t = (b, u)" by fastforce
  from Cons.prems r b have "rootfs \<noteq> []" "\<exists>d. b = Inr d" by (auto split: if_splits sum.splits)
  then obtain d where d: "b = Inr d" by blast
  with b Build_dir have "d = path_join [BundlesRoot, c_ID c]" by (metis fst_conv)
  with Cons.prems r b d \<open>rootfs \<noteq> []\<close>
  have "run_state (build_each K J spec (AList.update (c_ID c) (path_join [BundlesRoot, c_ID c]) out) cs) u = (Inr out', tr')"
    by auto
  from Cons.IH [OF this] show ?case
    by (auto simp: fun_eq_iff map_add_def AList.update_conv' split: option.splits)
qed

lemma synth_container_ids: "map c_ID (sp_Containers (synth_spec tag ms cs)) = [''main'']"
  by (cases "synth_cubefs 0 cs") (simp add: synth_spec_def Let_def)

lemma loadSpec_distinct:
  assumes "run_state (loadSpec K J specPath) tr = (Inr spec, tr')"
  shows "distinct (map c_ID (sp_Containers spec))" "sp_Containers spec \<noteq> []"
proof -
  obtain r t where r: "run_state (Spec_Load K (jd_spec J) specPath) tr = (r, t)" by fastforce
  have both: "distinct (map c_ID (sp_Containers spec)) \<and> sp_Containers spec \<noteq> []"
  proof (cases r)
    case (Inr s)
    with r assms have "s = spec" "Spec_Validate spec = None"
      by (auto simp: loadSpec_def Spec_Load_def io_defs split: sum.splits option.splits)
    then show ?thesis by (simp add: Spec_Validate_None_iff spec_ok_def)
  next
    case (Inl e)
    with r assms have "\<exists>tag ms cs. spec = synth_spec tag ms cs"
      by (auto simp: loadSpec_def synthSingleContainerPod_def Let_def split: if_splits option.splits prod.splits)
    then have "map c_ID (sp_Containers spec) = [''main'']" by (auto simp: synth_container_ids)
    then show ?thesis by auto
  qed
  then show "distinct (map c_ID (sp_Containers spec))" "sp_Containers spec \<noteq> []" by blast+
qed

lemma prepare_ready:
  assumes "run_state (prepare K BU J specPath) tr = (Returned (Inr (spec, bundles)), tr')"
  shows "distinct (map c_ID (sp_Containers spec))" "sp_Containers spec \<noteq> []"
    "list_all (\<lambda>c. c_Command c \<noteq> []) (sp_Containers spec)"
    "map_of bundles = (\<lambda>i. if i \<in> c_ID ` set (sp_Containers spec) then Some (path_join [BundlesRoot, i]) else None)"
proof -
  from assms obtain t3 t4 spec0 where l: "run_state (loadSpec K J specPath) t3 = (Inr spec0, t4)"
    "run_state (prepare_pod K BU J spec0) t4 = (Returned (Inr (spec, bundles)), tr')"
    by (rule prepare_stages)
  from l(2) obtain t2 t5 t6 t7 where e: "run_state (enrichContainers K J spec0) t2 = ((None, spec), t5)"
    "run_state (prepareBundles K J spec) t6 = (Inr bundles, t7)"
    by (rule prepare_pod_stages)
  note k = enrichContainers_keeps [OF e(1)]
  from loadSpec_distinct [OF l(1)] k(1) show "distinct (map c_ID (sp_Containers spec))" "sp_Containers spec \<noteq> []"
    by auto
  show "list_all (\<lambda>c. c_Command c \<noteq> []) (sp_Containers spec)" by (rule k(2))
  from build_each_bundles [of K J spec "[]" "sp_Containers spec" t6 bundles t7] e(2)
  show "map_of bundles = (\<lambda>i. if i \<in> c_ID ` set (sp_Containers spec) then Some (path_join [BundlesRoot, i]) else None)"
    by (simp add: prepareBundles_def)
qed

text \<open>
  C4. The boot hands the supervisor what it relies on: when the preparation succeeds, the pod has at least
  one container, their ids are distinct, each has a command and its bundle directory, so \<open>startOne\<close>
  never misses a bundle; and in every interleaving of the supervisor that follows, whatever the
  runtime and the children do, no goroutine panics.
\<close>

theorem boot_supervisor_ready:
  assumes "boot K BU J specPath tr = Returned (Inr (cs, bundles, y))"
  shows "cs \<noteq> [] \<and> distinct (map c_ID cs) \<and>
    (\<forall>c \<in> set cs. c_Command c \<noteq> [] \<and> map_of bundles (c_ID c) = Some (path_join [BundlesRoot, c_ID c])) \<and>
    (\<forall>rt y'. steps K rt bundles cs y y' \<longrightarrow> \<not> s_panic (y_sup y'))"
proof -
  from assms obtain spec t where p: "run_state (prepare K BU J specPath) tr = (Returned (Inr (spec, bundles)), t)"
    "cs = sp_Containers spec" "y = initial t"
    by (auto simp: boot_def split: prod.splits outcome.splits sum.splits)
  note r = prepare_ready [OF p(1)]
  have "\<not> s_panic (y_sup y')" if "steps K rt bundles cs y y'" for rt y'
  proof -
    have "reachable K rt bundles cs y'" using that p(3) unfolding reachable_def by blast
    from inv_reachable [OF _ this] r(1) p(2) show ?thesis by (simp add: sys_inv_def sup_ok_def)
  qed
  with r p(2) show ?thesis by (auto simp: list_all_iff)
qed

end
