(* ===== verification/Boot_Order.thy ===== *)
theory Boot_Order
  imports Boot
begin

text \<open>
  Properties of the whole boot: which file systems it mounts and in which order, what it hands to the
  supervisor, and the ways in which it cannot succeed.  They rest on one bundle of lemmas: every stage but
  the mounts and \<open>os.Setenv\<close> is inert.
\<close>

subsection \<open>Inert stages\<close>

fun inert :: "event \<Rightarrow> bool" where
  "inert (EMount _ _ _ _ _ _) = False"
| "inert (ESetenv _ _) = False"
| "inert _ = True"

named_theorems inert_intros \<open>stages that neither mount nor set an environment variable\<close>

lemma appends_proceed [appends_intros]:
  "appends P m \<Longrightarrow> (\<And>x. appends P (f x)) \<Longrightarrow> appends P (proceed m f)"
  unfolding proceed_def by (intro appends_bind) (auto intro: appends_return split: outcome.split)

lemma appends_case_outcome [appends_intros]:
  "(\<And>x. appends P (f x)) \<Longrightarrow> appends P m \<Longrightarrow> appends P n \<Longrightarrow>
   appends P (case v of Returned x \<Rightarrow> f x | Panicked \<Rightarrow> m | Waiting \<Rightarrow> n)"
  by (simp split: outcome.split)

lemma inert_cmdline [inert_intros]:
  "appends inert (cmdlineValue K key)" "appends inert (cmdlineValues K key)" "appends inert (cmdlineEnv K key)"
  "appends inert (shareMountTransport K)" "appends inert (synthSingleContainerPod K)"
  unfolding cmdlineValue_def cmdlineValues_def cmdlineEnv_def shareMountTransport_def
    synthSingleContainerPod_def Let_def io_defs
  by (intro appends_intros; simp)+

lemma inert_load [inert_intros]:
  "appends inert (Spec_Load K ds p)" "appends inert (LoadWireGuard K dw p)" "appends inert (loadSpec K J p)"
  unfolding Spec_Load_def LoadWireGuard_def loadSpec_def io_defs
  by (intro appends_intros inert_intros; simp add: Spec_Load_def io_defs appends_intros)+

lemma inert_enrich [inert_intros]:
  "appends inert (resolveRootfs K shares c)" "appends inert (EnrichFromImage K d c rootfs)"
  unfolding resolveRootfs_def EnrichFromImage_def LoadImageConfig_def Let_def io_defs
  by (intro appends_intros; simp)+

lemma inert_enrich_each [inert_intros]: "appends inert (enrich_each K J shares cs)"
proof (induction cs)
  case (Cons c cs)
  show ?case unfolding enrich_each.simps by (intro appends_intros inert_intros Cons.IH)
qed (simp add: appends_return)

lemma inert_enrichContainers [inert_intros]: "appends inert (enrichContainers K J spec)"
  unfolding enrichContainers_def by (intro appends_intros inert_intros)

lemma inert_talk [inert_intros]: "appends inert (talk K req)"
  unfolding talk_def by (intro appends_intros) simp

lemma inert_Apply [inert_intros]: "appends inert (Apply K n)"
  unfolding Apply_def and_then_def apply_link_def apply_address_def apply_gateway_def apply_dns_def
    apply_hostname_def writeResolvConf_def ifaceIndex_def io_defs
  by (intro appends_intros inert_intros; simp)

lemma inert_overlay [inert_intros]: "appends inert (bringOverlay K BU J spec)"
  unfolding bringOverlay_def ApplyWireGuard_def stagePrivateKey_def bring_up_step_def cleanupTmpKey_def
    ifaceIndex_def io_defs
  by (intro appends_intros inert_intros; simp)

lemma inert_Build [inert_intros]: "appends inert (Build K marshal podID c rootfs)"
  unfolding Build_def buildSpec_def resolvConfMount_def namespacesFor_def namespacesFromEnv_def
    lookup_env_def io_defs Let_def
  by (intro appends_intros; simp)

lemma inert_build_each [inert_intros]: "appends inert (build_each K J spec out cs)"
proof (induction cs arbitrary: out)
  case (Cons c cs)
  show ?case unfolding build_each.simps by (intro appends_intros inert_intros Cons.IH)
qed (simp add: appends_return)

lemma inert_prepareBundles [inert_intros]: "appends inert (prepareBundles K J spec)"
  unfolding prepareBundles_def by (intro inert_intros)

lemma inert_wait_loop [inert_intros]: "appends inert (wait_loop n K target timeout deadline)"
proof (induction n)
  case (Suc n)
  show ?case unfolding wait_loop.simps isMounted_def io_defs by (intro appends_intros Suc.IH) simp_all
qed (simp add: appends_return)

lemma inert_cfs_Mount [inert_intros]: "appends inert (cfs_Mount K encode spec)"
  unfolding cfs_Mount_def launch_def waitMounted_def kill_and_wait_def close_log_def io_defs Let_def
  by (intro appends_intros inert_intros; simp)

lemma inert_cubefs [inert_intros]: "appends inert (mount_cubefs K encode sms)"
proof (induction sms)
  case (Cons sm sms)
  show ?case unfolding mount_cubefs.simps by (intro appends_intros inert_intros Cons.IH)
qed (simp add: appends_return)

subsection \<open>What is mounted\<close>

type_synonym mount_args = "string \<times> string \<times> string \<times> nat \<times> string"

fun mount_of :: "event \<Rightarrow> (mount_args \<times> goerr option) list" where
  "mount_of (EMount src tgt fs flags dat r) = [((src, tgt, fs, flags, dat), r)]"
| "mount_of _ = []"

text \<open>The mount calls of a trace, each with its answer.\<close>

definition mounts :: "trace \<Rightarrow> (mount_args \<times> goerr option) list" where
  "mounts tr = concat (map mount_of tr)"

lemma mounts_simps [simp]: "mounts [] = []" "mounts (tr @ tr') = mounts tr @ mounts tr'"
  "mounts (ev # tr) = mount_of ev @ mounts tr"
  by (simp_all add: mounts_def)

lemma inert_mount_of: "inert ev \<Longrightarrow> mount_of ev = []" "inert ev \<Longrightarrow> setenv_key ev = None"
  by (cases ev; simp)+

lemma inert_run:
  assumes "appends inert m" "run_state m tr = (x, t)"
  shows "mounts t = mounts tr" "env_of e t k = env_of e tr k"
proof -
  from assms obtain es where es: "t = tr @ es" "list_all inert es" by (rule appendsE)
  from es(2) have "mounts es = []" by (induction es) (auto simp: inert_mount_of)
  with es show "mounts t = mounts tr" by simp
  from es(2) have "\<forall>ev \<in> set es. setenv_key ev \<noteq> Some k" by (auto simp: list_all_iff inert_mount_of)
  with es show "env_of e t k = env_of e tr k" by (simp add: env_of_append env_of_unset)
qed

lemma mount_each_mounts:
  "run_state (mount_each K ms) tr = (u, t) \<Longrightarrow> \<exists>ps. mounts t = mounts tr @ ps \<and> map fst ps = ms"
proof (induction ms arbitrary: tr)
  case (Cons m ms)
  obtain src tgt fs fl dat where m: "m = (src, tgt, fs, fl, dat)" by (cases m)
  from Cons.prems obtain a b where
    "run_state (mount_each K ms) (tr @ [EMkdir tgt a, EMount src tgt fs fl dat b]) = (u, t)"
    by (auto simp: m io_defs)
  from Cons.IH [OF this] m show ?case by fastforce
qed simp

lemma mount_shares_mounts:
  "run_state (mount_shares K fstype dat shs) tr = (None, t) \<Longrightarrow>
   mounts t = mounts tr @
     map (\<lambda>sh. ((sh_Tag sh, sh_MountPoint sh, fstype, if sh_Readonly sh then 1 else 0, dat), None)) shs"
proof (induction shs arbitrary: tr)
  case (Cons sh shs)
  then obtain u where "run_state (mount_shares K fstype dat shs) (tr @ [u,
      EMount (sh_Tag sh) (sh_MountPoint sh) fstype (share_flags sh) dat None]) = (None, t)" "mount_of u = []"
    by (auto simp: io_defs split: option.splits)
  with Cons.IH [OF this(1)] show ?case by (simp add: share_flags_def MS_RDONLY_def)
qed simp

definition no_setenv :: "event \<Rightarrow> bool" where
  "no_setenv ev \<longleftrightarrow> setenv_key ev = None"

lemma no_setenv_inert: "appends inert m \<Longrightarrow> appends no_setenv m"
  by (erule appends_mono) (simp add: no_setenv_def inert_mount_of)

lemma no_setenv_mount_each: "appends no_setenv (mount_each K ms)"
proof (induction ms)
  case (Cons m ms)
  then show ?case
    by (cases m) (auto simp: io_defs no_setenv_def intro!: appends_intros)
qed (simp add: appends_return)

lemma no_setenv_mount_shares: "appends no_setenv (mount_shares K fstype dat shs)"
proof (induction shs)
  case (Cons sh shs)
  then show ?case
    by (auto simp: io_defs no_setenv_def intro!: appends_intros)
qed (simp add: appends_return)

lemma appends_stage [appends_intros]: "appends P m \<Longrightarrow> appends P k \<Longrightarrow> appends P (stage name m k)"
  unfolding stage_def by (intro appends_intros)

lemma appends_returning [appends_intros]: "appends P m \<Longrightarrow> appends P (returning m)"
  unfolding returning_def by (intro appends_intros)

lemma appends_answering [appends_intros]: "appends P m \<Longrightarrow> appends P (answering m)"
  unfolding answering_def by (intro appends_intros)

lemma no_setenv_prepare_pod: "appends no_setenv (prepare_pod K BU J spec)"
  unfolding prepare_pod_def mountShares_def mountCubeFSShares_def exec_run_def
  by (intro appends_intros no_setenv_inert inert_intros no_setenv_mount_shares; simp add: no_setenv_def)

lemma no_setenv_rest: "appends no_setenv (mountPseudoFS K)" "appends no_setenv (mountConfigShare K specPath)"
  unfolding mountPseudoFS_def mountConfigShare_def Let_def io_defs
  by (intro appends_intros no_setenv_mount_each no_setenv_inert inert_intros; simp add: no_setenv_def)+

text \<open>The value of a directive that the command line shows at a moment, and what the boot makes of two of them.\<close>

definition cmdline_at :: "kernel \<Rightarrow> trace \<Rightarrow> string \<Rightarrow> string" where
  "cmdline_at K tr key =
     (case k_read K tr ''/proc/cmdline'' of Inl e \<Rightarrow> [] | Inr text \<Rightarrow> first_value key (str_fields text))"

definition transport_named :: "string \<Rightarrow> string \<times> string" where
  "transport_named v = (if v = ''9p'' then (''9p'', ''trans=virtio,version=9p2000.L'') else (''virtiofs'', ''''))"

definition config_tag :: "string \<Rightarrow> string" where
  "config_tag v = (case cut (CHR '':'') v of Some (transport, tag) \<Rightarrow> tag | None \<Rightarrow> v)"

definition config_mount :: "string \<Rightarrow> string \<Rightarrow> string \<times> string \<Rightarrow> (mount_args \<times> goerr option) list" where
  "config_mount specPath v tp =
     (if specPath = ''/run/weft/cfg/pod.json'' \<and> config_tag v \<noteq> []
      then [((config_tag v, ''/run/weft/cfg'', fst tp, 1, snd tp), None)] else [])"

definition share_mount :: "string \<times> string \<Rightarrow> Share \<Rightarrow> mount_args \<times> goerr option" where
  "share_mount tp sh = ((sh_Tag sh, sh_MountPoint sh, fst tp, if sh_Readonly sh then 1 else 0, snd tp), None)"

lemma cmdlineValue_run: "run_state (cmdlineValue K key) tr =
  (cmdline_at K tr key, tr @ [ERead ''/proc/cmdline'' (k_read K tr ''/proc/cmdline'')])"
  by (simp add: cmdlineValue_def cmdline_at_def io_defs proc_cmdline_def)

lemma shareMountTransport_run: "run_state (shareMountTransport K) tr =
  (transport_named (cmdline_at K tr ''weft.transport''), tr @ [ERead ''/proc/cmdline'' (k_read K tr ''/proc/cmdline'')])"
  by (simp add: shareMountTransport_def cmdlineValue_run transport_named_def)

lemma config_tag_strip: "stripTransportPrefix v = config_tag v"
  by (cases "index_byte (CHR '':'') v") (simp_all add: stripTransportPrefix_def config_tag_def cut_def)

lemma mountShares_mounts:
  assumes "run_state (mountShares K spec) tr = (None, t)"
  shows "mounts t = mounts tr @ map (share_mount (transport_named (cmdline_at K tr ''weft.transport''))) (sp_Shares spec)"
proof -
  let ?tp = "transport_named (cmdline_at K tr ''weft.transport'')"
  obtain fs dat where tp: "?tp = (fs, dat)" by (cases ?tp)
  with assms have "run_state (mount_shares K fs dat (sp_Shares spec))
      (tr @ [ERead ''/proc/cmdline'' (k_read K tr ''/proc/cmdline'')]) = (None, t)"
    by (simp add: mountShares_def shareMountTransport_run)
  from mount_shares_mounts [OF this] tp show ?thesis by (simp add: share_mount_def)
qed

lemma config_dir: "path_dir defaultPodSpecPath = ''/run/weft/cfg''"
  by code_simp

lemma mountConfigShare_mounts:
  assumes "run_state (mountConfigShare K specPath) tr = (None, t)"
  shows "\<exists>u. prefix u t \<and> mounts u = mounts tr \<and> mounts t = mounts tr @
    config_mount specPath (cmdline_at K tr ''weft.config'') (transport_named (cmdline_at K u ''weft.transport''))"
proof (cases "specPath = defaultPodSpecPath \<and> config_tag (cmdline_at K tr ''weft.config'') \<noteq> []")
  case False
  with assms have "mounts t = mounts tr"
    by (auto simp: mountConfigShare_def cmdlineValue_run config_tag_strip Let_def split: if_splits)
  with False show ?thesis
    by (intro exI [of _ t]) (simp add: config_mount_def defaultPodSpecPath_def)
next
  case True
  let ?r = "ERead ''/proc/cmdline'' (k_read K tr ''/proc/cmdline'')"
  let ?u = "tr @ [?r, EMkdir ''/run/weft/cfg'' None]"
  let ?tp = "transport_named (cmdline_at K ?u ''weft.transport'')"
  obtain fs dat where tp: "?tp = (fs, dat)" by (cases ?tp)
  from assms True tp have "t = ?u @ [ERead ''/proc/cmdline'' (k_read K ?u ''/proc/cmdline''),
      EMount (config_tag (cmdline_at K tr ''weft.config'')) ''/run/weft/cfg'' fs 1 dat None]"
    by (auto simp: mountConfigShare_def config_dir cmdlineValue_run shareMountTransport_run config_tag_strip Let_def
        os_mkdir_all_def sys_mount_def MS_RDONLY_def split: option.splits)
  with True tp show ?thesis
    by (intro exI [of _ ?u]) (simp add: config_mount_def defaultPodSpecPath_def)
qed

lemma set_namespaces_run:
  assumes "run_state (set_namespaces K) tr = ((), t)"
  obtains v u where "run_state (cmdlineEnv K bundleNamespacesEnv) tr = (v, u)"
    "t = u @ (case v of None \<Rightarrow> [] | Some x \<Rightarrow> [ESetenv bundleNamespacesEnv x])"
proof -
  obtain v u where r: "run_state (cmdlineEnv K bundleNamespacesEnv) tr = (v, u)" by fastforce
  with assms have "t = u @ (case v of None \<Rightarrow> [] | Some x \<Rightarrow> [ESetenv bundleNamespacesEnv x])"
    by (auto simp: set_namespaces_def os_setenv_def split: option.splits)
  with r show thesis by (rule that)
qed

lemma appends_prefix: "appends P m \<Longrightarrow> run_state m tr = (x, t) \<Longrightarrow> prefix tr t"
  by (erule appendsE, assumption) simp

lemma boot_mounts_list:
  assumes "run_state (prepare K BU J specPath) tr = (Returned (Inr (spec, bundles)), tr')"
  shows "\<exists>ps cfg t1 t2 t3. prefix t1 tr' \<and> prefix t2 tr' \<and> prefix t3 tr' \<and>
    mounts t1 = mounts tr @ ps \<and> mounts t2 = mounts tr @ ps \<and> mounts t3 = mounts tr @ ps @ cfg \<and>
    map fst ps = pseudo_mounts \<and>
    cfg = config_mount specPath (cmdline_at K t1 ''weft.config'') (transport_named (cmdline_at K t2 ''weft.transport'')) \<and>
    mounts tr' = mounts tr @ ps @ cfg @
      map (share_mount (transport_named (cmdline_at K t3 ''weft.transport''))) (sp_Shares spec)"
proof -
  from assms obtain t1 t2 t3 t4 spec0 where s: "run_state (set_namespaces K) (tr @ [ESetenv ''PATH'' guestPath]) = ((), t1)"
    "run_state (mountPseudoFS K) t1 = (None, t2)" "run_state (mountConfigShare K specPath) t2 = (None, t3)"
    "run_state (loadSpec K J specPath) t3 = (Inr spec0, t4)"
    "run_state (prepare_pod K BU J spec0) t4 = (Returned (Inr (spec, bundles)), tr')"
    by (rule prepare_stages)
  from s(5) obtain u1 u2 u3 u4 u5 u6 where p: "run_state (mountShares K spec0) t4 = (None, u1)"
    "run_state (mountCubeFSShares K J spec0) u1 = (Returned None, u2)"
    "run_state (enrichContainers K J spec0) u2 = ((None, spec), u3)"
    "run_state (Apply K (sp_Network spec)) u3 = (Some None, u4)"
    "run_state (bringOverlay K BU J spec) u4 = (Returned None, u5)"
    "run_state (prepareBundles K J spec) u5 = (Inr bundles, u6)"
    "tr' = u6 @ [EExec [''crun'', ''--version''] (fst (k_exec K u6 [''crun'', ''--version'']))]"
    by (rule prepare_pod_stages)
  have pre: "prefix t2 t3" "prefix t3 t4" "prefix t4 tr'"
    by (rule appends_prefix [OF no_setenv_rest(2) s(3)], rule appends_prefix [OF inert_load(3) s(4)],
        rule appends_prefix [OF no_setenv_prepare_pod s(5)])
  from s(1) obtain v w where n: "run_state (cmdlineEnv K bundleNamespacesEnv) (tr @ [ESetenv ''PATH'' guestPath]) = (v, w)"
    "t1 = w @ (case v of None \<Rightarrow> [] | Some x \<Rightarrow> [ESetenv bundleNamespacesEnv x])"
    by (rule set_namespaces_run)
  with inert_run(1) [OF inert_cmdline(3) n(1)] have m1: "mounts t1 = mounts tr" by (cases v) simp_all
  from s(2) have "run_state (mount_each K pseudo_mounts) t1 = ((), t2)"
    by (auto simp: mountPseudoFS_def split: prod.splits)
  then obtain ps where m2: "mounts t2 = mounts t1 @ ps" "map fst ps = pseudo_mounts"
    using mount_each_mounts by blast
  from mountConfigShare_mounts [OF s(3)] obtain u where u: "prefix u t3" "mounts u = mounts t2"
    "mounts t3 = mounts t2 @ config_mount specPath (cmdline_at K t2 ''weft.config'')
      (transport_named (cmdline_at K u ''weft.transport''))" by blast
  have m3: "mounts t4 = mounts t3" by (rule inert_run(1) [OF inert_load(3) s(4)])
  note m4 = mountShares_mounts [OF p(1)]
  have "sp_Shares spec = sp_Shares spec0" using enrichContainers_keeps(3) [OF p(3)] by auto
  moreover have "mounts tr' = mounts u1"
    using inert_run(1) [OF inert_cubefs p(2) [unfolded mountCubeFSShares_def]]
      inert_run(1) [OF inert_enrichContainers p(3)] inert_run(1) [OF inert_Apply p(4)]
      inert_run(1) [OF inert_overlay p(5)] inert_run(1) [OF inert_prepareBundles p(6)] p(7) by simp
  moreover have "prefix t2 tr'" "prefix u tr'" using pre u(1) by (meson prefix_order.trans)+
  ultimately show ?thesis using m1 m2 m3 m4 u pre(3)
    by (intro exI [of _ ps] exI [of _ "config_mount specPath (cmdline_at K t2 ''weft.config'')
      (transport_named (cmdline_at K u ''weft.transport''))"] exI [of _ t2] exI [of _ u] exI [of _ t4]) simp
qed

text \<open>
  C18. The mounts of the boot, exactly and in order: when the preparation succeeds, it has asked for the
  seven pseudo file systems first, whatever came of each.  Then, exactly when the spec path is the
  default one and the \<open>weft.config\<close> that \<open>/proc/cmdline\<close> showed after the pseudo file systems names a
  tag behind its transport prefix, it has mounted that tag read-only at the directory of the spec.  Then
  it has mounted each share of the pod it hands over, with its tag, mount point and mode.  Both
  mounts are 9p or virtiofs as the \<open>weft.transport\<close> shown at their time says, every one was granted,
  and nothing else was mounted.
\<close>

theorem boot_mounts:
  assumes "run_state (prepare K BU J specPath) tr = (Returned (Inr (spec, bundles)), tr')"
  shows "\<exists>ps cfg t1 t2 t3. prefix t1 tr' \<and> prefix t2 tr' \<and> prefix t3 tr' \<and>
    mounts t1 = mounts tr @ ps \<and> mounts t2 = mounts tr @ ps \<and> mounts t3 = mounts tr @ ps @ cfg \<and>
    map fst ps = pseudo_mounts \<and>
    cfg = config_mount specPath (cmdline_at K t1 ''weft.config'') (transport_named (cmdline_at K t2 ''weft.transport'')) \<and>
    mounts tr' = mounts tr @ ps @ cfg @
      map (share_mount (transport_named (cmdline_at K t3 ''weft.transport''))) (sp_Shares spec)"
  using boot_mounts_list [OF assms] .

subsection \<open>The namespaces override\<close>

lemma cmdlineEnv_unreadable:
  assumes "k_read K tr proc_cmdline = Inl e"
  shows "run_state (cmdlineEnv K key) tr = (None, tr @ [ERead proc_cmdline (Inl e)])"
  using assms by (simp add: cmdlineEnv_def cmdlineValue_def io_defs)

lemma no_setenv_env: "appends no_setenv m \<Longrightarrow> run_state m tr = (x, t) \<Longrightarrow> env_of e t k = env_of e tr k"
  by (erule appendsE, assumption) (auto simp: no_setenv_def env_of_append env_of_unset list_all_iff)

lemma prepare_no_setenv:
  "appends no_setenv
     (stage ''pseudo-fs: %w'' (returning (mountPseudoFS K))
     (stage ''config share: %w'' (returning (mountConfigShare K specPath))
     (proceed (returning (loadSpec K J specPath)) (\<lambda>s. case s of
        Inl e \<Rightarrow> ret (Returned (Inl e))
      | Inr spec \<Rightarrow> prepare_pod K BU J spec))))"
  by (intro appends_intros no_setenv_rest no_setenv_prepare_pod no_setenv_inert inert_load)

text \<open>
  C28. The namespaces override of the command line is never seen.  \<open>/proc\<close> is mounted by the boot itself:
  on a kernel where \<open>/proc/cmdline\<close> cannot be read before the first mount, the variable that
  \<open>namespacesFor\<close> looks up has at the end of the preparation, however it ends, the value the kernel
  started the init with, whatever the command line says.
\<close>

theorem namespaces_override_unseen:
  assumes "\<forall>tr. mounts tr = [] \<longrightarrow> (\<exists>e. k_read K tr proc_cmdline = Inl e)"
    and "run_state (prepare K BU J specPath) [] = (r, tr)"
  shows "env_of (k_environ K) tr bundleNamespacesEnv = k_environ K bundleNamespacesEnv \<and>
    fst (run_state (namespacesFromEnv K) tr) = namespaces_of (k_environ K bundleNamespacesEnv)"
proof -
  let ?t = "[ESetenv ''PATH'' guestPath]"
  from assms(1) obtain e where "k_read K ?t proc_cmdline = Inl e" by fastforce
  from cmdlineEnv_unreadable [OF this] have "run_state (set_namespaces K) ?t = ((), ?t @ [ERead proc_cmdline (Inl e)])"
    by (simp add: set_namespaces_def)
  moreover obtain x t where x: "run_state (stage ''pseudo-fs: %w'' (returning (mountPseudoFS K))
     (stage ''config share: %w'' (returning (mountConfigShare K specPath))
     (proceed (returning (loadSpec K J specPath)) (\<lambda>s. case s of
        Inl e \<Rightarrow> ret (Returned (Inl e))
      | Inr spec \<Rightarrow> prepare_pod K BU J spec)))) (?t @ [ERead proc_cmdline (Inl e)]) = (x, t)" by fastforce
  ultimately have "tr = t" using assms(2) by (simp add: prepare_def os_setenv_def)
  with no_setenv_env [OF prepare_no_setenv x] have "env_of (k_environ K) tr bundleNamespacesEnv = k_environ K bundleNamespacesEnv"
    by (simp add: bundleNamespacesEnv_def)
  then show ?thesis by (simp add: namespacesFromEnv_def lookup_env_def)
qed

subsection \<open>Boots that cannot succeed\<close>

lemma synth_cubefs_refused:
  "list_all (\<lambda>sm. effective_backend sm = BackendCubeFS \<and> ShareMount_Validate sm \<noteq> None) (fst (synth_cubefs i ds))"
proof (induction i ds rule: synth_cubefs.induct)
  case (2 i raw ds)
  show ?case
  proof (cases "parseCubeFSDirective raw i")
    case (Inr sm)
    from Inr have "effective_backend sm = BackendCubeFS"
      by (rule parseCubeFSDirective_Inr) (simp add: effective_backend_def)
    with 2 Inr cubefs_directive_fault [OF Inr] show ?thesis by (auto simp: Let_def split: prod.splits)
  qed (use 2 in \<open>auto simp: Let_def split: prod.splits\<close>)
qed simp

text \<open>
  C29. A pod with an unmount entry brings the init down: \<open>Spec.Validate\<close> accepts an entry of
  \<open>share_mounts\<close> whose action is unmount and that has no CubeFS block, but the boot does not look at
  the action and mounts it, which dereferences the missing block: process 1 panics, on every kernel
  that lets it make the directories.
\<close>

theorem boot_unmount_entry_panics:
  assumes "\<forall>tr p. k_mkdir K tr p = None" "run_state (mountShares K spec) tr = (None, t)"
    and "sp_ShareMounts spec = sm # sms" "sm_Action sm = MountActionUnmount" "sm_Backend sm = []"
      "sm_CubeFS sm = None" "sm_ID sm \<noteq> []" "sm_MountPoint sm \<noteq> []"
  shows "ShareMount_Validate sm = None \<and> fst (run_state (prepare_pod K BU J spec) tr) = Panicked"
proof -
  have v: "ShareMount_Validate sm = None"
    using assms(4,5,7,8) by (simp add: ShareMount_Validate_def effective_backend_def)
  have "fst (run_state (cfs_Mount K encode sm) t) = Panicked" for encode t
    using assms(1,5,6) by (simp add: cfs_Mount_def effective_backend_def clientConfig_def io_defs)
  then have "fst (run_state (mountCubeFSShares K J spec) t) = Panicked"
    using v assms(3,5)
    by (auto simp: mountCubeFSShares_def effective_backend_def proceed_def split: prod.splits outcome.splits)
      (metis fst_conv outcome.distinct)+
  with v assms(2) show ?thesis
    by (auto simp: prepare_pod_def stage_def proceed_def returning_def split: prod.splits outcome.splits)
qed

text \<open>
  A pod made up from a command line with a CubeFS directive never runs: when there is no pod file and
  a directive was accepted, the preparation of the pod ends in an error, on every kernel, because the
  share mount it became has no owner and is refused by its own validation.
\<close>

theorem boot_cubefs_directive_fails:
  assumes "run_state (loadSpec K J specPath) tr = (Inr spec, t)"
    and "k_read K tr specPath = Inl e" "sp_ShareMounts spec \<noteq> []"
  shows "\<exists>e' t'. run_state (prepare_pod K BU J spec) t = (Returned (Inl e'), t')"
proof -
  from assms(1,2) obtain tag ms cs where "spec = synth_spec tag ms cs"
    by (auto simp: loadSpec_def Spec_Load_def synthSingleContainerPod_def io_defs Let_def
        split: if_splits option.splits prod.splits)
  then have sms: "sp_ShareMounts spec = fst (synth_cubefs 0 cs)"
    by (auto simp: synth_spec_def Let_def split: prod.splits)
  have "list_all (\<lambda>sm. effective_backend sm = BackendCubeFS \<and> ShareMount_Validate sm \<noteq> None) (sp_ShareMounts spec)"
    unfolding sms by (rule synth_cubefs_refused)
  with assms(3) obtain sm sms where s: "sp_ShareMounts spec = sm # sms" "effective_backend sm = BackendCubeFS"
    "ShareMount_Validate sm \<noteq> None" by (cases "sp_ShareMounts spec") auto
  then have c: "\<exists>e t'. run_state (mountCubeFSShares K J spec) t = (Returned (Some e), t')" for t
    by (auto simp: mountCubeFSShares_def)
  obtain r u where r: "run_state (mountShares K spec) t = (r, u)" by fastforce
  from c obtain e' w where "run_state (mountCubeFSShares K J spec) u = (Returned (Some e'), w)" by blast
  with r show ?thesis
    by (cases r) (auto simp: prepare_pod_def stage_def proceed_def returning_def)
qed

subsection \<open>A boot that succeeds\<close>

definition demo_container :: Container where
  "demo_container = (new_container ''app'' ''root'')\<lparr>c_Command := [''/bin/app'']\<rparr>"

definition demo_spec :: Spec where
  "demo_spec = \<lparr>sp_PodID = ''pod'', sp_Containers = [demo_container],
     sp_Shares = [\<lparr>sh_Tag = ''root'', sh_MountPoint = ''/rootfs'', sh_Readonly = True\<rparr>],
     sp_Network = None, sp_WireGuard = None, sp_ShareMounts = [], sp_Labels = []\<rparr>"

definition demo_codec :: codec where
  "demo_codec = \<lparr>jd_spec = (\<lambda>_. Inr demo_spec), jd_wireguard = (\<lambda>_. Inl (Errno EINVAL)),
     jd_image = (\<lambda>_. Inl (Errno EINVAL)), je_oci = (\<lambda>_. Inr ''{}''), je_client = (\<lambda>_. Inr ''{}'')\<rparr>"

definition demo_line :: string where
  "demo_line = ''weft.config=virtiofs:cfg weft.transport=9p''"

definition demo_kernel :: kernel where
  "demo_kernel = kernel_with [defaultPodSpecPath \<mapsto> ''{}'', ''/proc/cmdline'' \<mapsto> demo_line]"

lemma demo_kernel_simps [simp]:
  "k_read demo_kernel t p = (if p = ''/proc/cmdline'' then Inr demo_line
     else if p = defaultPodSpecPath then Inr ''{}'' else Inl (Errno ENOENT))"
  "k_mkdir demo_kernel t p = None" "k_mount demo_kernel t p q fs fl dat = None" "k_write demo_kernel t p b = None"
  by (simp_all add: demo_kernel_def kernel_with_def)

lemma demo_paths [simp]: "''/proc/cmdline'' \<noteq> defaultPodSpecPath" "defaultWireGuardPath \<noteq> defaultPodSpecPath"
  "defaultPodSpecPath \<noteq> ''/proc/cmdline''" "defaultWireGuardPath \<noteq> ''/proc/cmdline''"
  by (simp_all add: defaultPodSpecPath_def defaultWireGuardPath_def)

lemma demo_at [simp]: "cmdline_at demo_kernel t key =
  first_value key [''weft.config=virtiofs:cfg'', ''weft.transport=9p'']"
proof -
  have "str_fields demo_line = [''weft.config=virtiofs:cfg'', ''weft.transport=9p'']"
    using str_fields_join [of "[''weft.config=virtiofs:cfg'', ''weft.transport=9p'']"]
    by (simp add: plain_byte_def demo_line_def)
  then show ?thesis by (simp add: cmdline_at_def)
qed

lemma demo_values [simp]: "first_value ''weft.env'' [''weft.config=virtiofs:cfg'', ''weft.transport=9p''] = []"
  "first_value ''weft.config'' [''weft.config=virtiofs:cfg'', ''weft.transport=9p''] = ''virtiofs:cfg''"
  "first_value ''weft.transport'' [''weft.config=virtiofs:cfg'', ''weft.transport=9p''] = ''9p''"
  "config_tag ''virtiofs:cfg'' = ''cfg''" "transport_named ''9p'' = (''9p'', ''trans=virtio,version=9p2000.L'')"
  by code_simp+

lemmas demo_cmdline [simp] = cmdlineValue_run [of demo_kernel] shareMountTransport_run [of demo_kernel]

lemma demo_head:
  "\<exists>t'. run_state (set_namespaces demo_kernel) t = ((), t')"
  "\<exists>t'. run_state (mountPseudoFS demo_kernel) t = (None, t')"
  "\<exists>t'. run_state (mountConfigShare demo_kernel p) t = (None, t')"
  "\<exists>t'. run_state (loadSpec demo_kernel demo_codec defaultPodSpecPath) t = (Inr demo_spec, t')"
proof -
  have "Spec_Validate demo_spec = None"
    by (simp add: Spec_Validate_None_iff spec_ok_def demo_spec_def demo_container_def new_container_def)
  then show "\<exists>t'. run_state (loadSpec demo_kernel demo_codec defaultPodSpecPath) t = (Inr demo_spec, t')"
    by (simp add: loadSpec_def Spec_Load_def io_defs demo_codec_def)
qed (auto simp: set_namespaces_def cmdlineEnv_def mountPseudoFS_def mountConfigShare_def config_tag_strip
    Let_def io_defs split: prod.splits)

lemma demo_pod:
  "\<exists>t'. run_state (mountShares demo_kernel demo_spec) t = (None, t')"
  "\<exists>t'. run_state (mountCubeFSShares demo_kernel J demo_spec) t = (Returned None, t')"
  "\<exists>t'. run_state (enrichContainers demo_kernel J demo_spec) t = ((None, demo_spec), t')"
  "\<exists>t'. run_state (Apply demo_kernel (sp_Network demo_spec)) t = (Some None, t')"
  "\<exists>t'. run_state (bringOverlay demo_kernel BU J demo_spec) t = (Returned None, t')"
  by (simp_all add: mountShares_def mountCubeFSShares_def enrichContainers_def Apply_def
      bringOverlay_def LoadWireGuard_def ApplyWireGuard_def demo_spec_def demo_container_def io_defs)

lemma demo_bundles: "\<exists>x t'. run_state (prepareBundles demo_kernel demo_codec demo_spec) t = (Inr x, t')"
proof -
  have "\<exists>d t'. run_state (Build demo_kernel (\<lambda>_. Inr ''{}'') ''pod'' demo_container ''/rootfs'') t = (Inr d, t')"
    by (auto simp: Build_def demo_container_def new_container_def io_defs Let_def split: prod.splits)
  then obtain d t' where "run_state (Build demo_kernel (\<lambda>_. Inr ''{}'') ''pod'' demo_container ''/rootfs'') t =
    (Inr d, t')" by blast
  then show ?thesis
    by (simp add: prepareBundles_def demo_spec_def demo_codec_def resolveRootfs_def)
      (simp add: demo_container_def new_container_def)
qed

lemma demo_boot: "\<exists>bundles t. run_state (prepare demo_kernel BU demo_codec defaultPodSpecPath) tr =
  (Returned (Inr (demo_spec, bundles)), t)"
proof -
  let ?K = demo_kernel let ?J = demo_codec let ?s = demo_spec
  obtain t1 where 1: "run_state (set_namespaces ?K) (tr @ [ESetenv ''PATH'' guestPath]) = ((), t1)"
    using demo_head(1) by blast
  obtain t2 where 2: "run_state (mountPseudoFS ?K) t1 = (None, t2)" using demo_head(2) by blast
  obtain t3 where 3: "run_state (mountConfigShare ?K defaultPodSpecPath) t2 = (None, t3)" using demo_head(3) by blast
  obtain t4 where 4: "run_state (loadSpec ?K ?J defaultPodSpecPath) t3 = (Inr ?s, t4)" using demo_head(4) by blast
  obtain t5 where 5: "run_state (mountShares ?K ?s) t4 = (None, t5)" using demo_pod(1) by blast
  obtain t6 where 6: "run_state (mountCubeFSShares ?K ?J ?s) t5 = (Returned None, t6)" using demo_pod(2) by blast
  obtain t7 where 7: "run_state (enrichContainers ?K ?J ?s) t6 = ((None, ?s), t7)" using demo_pod(3) by blast
  obtain t8 where 8: "run_state (Apply ?K (sp_Network ?s)) t7 = (Some None, t8)" using demo_pod(4) by blast
  obtain t9 where 9: "run_state (bringOverlay ?K BU ?J ?s) t8 = (Returned None, t9)" using demo_pod(5) by blast
  obtain x t10 where 10: "run_state (prepareBundles ?K ?J ?s) t9 = (Inr x, t10)" using demo_bundles by blast
  show ?thesis
    by (simp add: prepare_def prepare_pod_def os_setenv_def stage_def proceed_def returning_def answering_def
        exec_run_def 1 2 3 4 5 6 7 8 9 10)
qed

theorem boot_mounts_witness:
  "\<exists>bundles tr' ps. run_state (prepare demo_kernel (\<lambda>_ _. None) demo_codec defaultPodSpecPath) [] =
      (Returned (Inr (demo_spec, bundles)), tr') \<and> map fst ps = pseudo_mounts \<and>
    mounts tr' = ps @ [((''cfg'', ''/run/weft/cfg'', ''9p'', 1, ''trans=virtio,version=9p2000.L''), None),
      ((''root'', ''/rootfs'', ''9p'', 1, ''trans=virtio,version=9p2000.L''), None)]"
proof -
  obtain bundles tr' where r: "run_state (prepare demo_kernel (\<lambda>_ _. None) demo_codec defaultPodSpecPath) [] =
      (Returned (Inr (demo_spec, bundles)), tr')" using demo_boot by blast
  have "sp_Shares demo_spec = [\<lparr>sh_Tag = ''root'', sh_MountPoint = ''/rootfs'', sh_Readonly = True\<rparr>]"
    by (simp add: demo_spec_def)
  with boot_mounts [OF r] r show ?thesis
    by (auto simp: config_mount_def share_mount_def defaultPodSpecPath_def)
qed

theorem boot_supervisor_ready_witness:
  "\<exists>cs bundles y. boot demo_kernel (\<lambda>_ _. None) demo_codec defaultPodSpecPath [] = Returned (Inr (cs, bundles, y)) \<and>
    cs \<noteq> [] \<and> (\<nexists>rt y'. steps demo_kernel rt bundles cs y y' \<and> s_panic (y_sup y'))"
proof -
  obtain bundles t where "run_state (prepare demo_kernel (\<lambda>_ _. None) demo_codec defaultPodSpecPath) [] =
      (Returned (Inr (demo_spec, bundles)), t)" using demo_boot by blast
  then have b: "boot demo_kernel (\<lambda>_ _. None) demo_codec defaultPodSpecPath [] =
      Returned (Inr (sp_Containers demo_spec, bundles, initial t))" by (simp add: boot_def)
  from boot_supervisor_ready [OF b] b show ?thesis by blast
qed

text \<open>A kernel that shows /proc/cmdline after the first mount only.\<close>

definition late_kernel :: kernel where
  "late_kernel = demo_kernel\<lparr>k_read := (\<lambda>tr p. if mounts tr = [] then Inl (Errno ENOENT)
     else if p = proc_cmdline then Inr ''weft.env=WEFT_BUNDLE_NAMESPACES=pid''
     else k_read demo_kernel tr p)\<rparr>"

theorem namespaces_override_unseen_witness:
  "fst (run_state (cmdlineEnv late_kernel bundleNamespacesEnv) [EMount [] [] [] 0 [] None]) = Some ''pid'' \<and>
   (\<exists>r tr. run_state (prepare late_kernel (\<lambda>_ _. None) demo_codec defaultPodSpecPath) [] = (r, tr) \<and>
     fst (run_state (namespacesFromEnv late_kernel) tr) = namespaces_of None)"
proof
  have "str_fields ''weft.env=WEFT_BUNDLE_NAMESPACES=pid'' = [''weft.env=WEFT_BUNDLE_NAMESPACES=pid'']"
    using str_fields_join [of "[''weft.env=WEFT_BUNDLE_NAMESPACES=pid'']"] by (simp add: plain_byte_def)
  then show "fst (run_state (cmdlineEnv late_kernel bundleNamespacesEnv) [EMount [] [] [] 0 [] None]) = Some ''pid''"
    by (simp add: cmdlineEnv_def cmdlineValue_def io_defs late_kernel_def bundleNamespacesEnv_def)
  have l: "\<forall>tr. mounts tr = [] \<longrightarrow> (\<exists>e. k_read late_kernel tr proc_cmdline = Inl e)"
    "k_environ late_kernel = (\<lambda>_. None)" by (simp_all add: late_kernel_def demo_kernel_def kernel_with_def)
  obtain r tr where r: "run_state (prepare late_kernel (\<lambda>_ _. None) demo_codec defaultPodSpecPath) [] = (r, tr)"
    by fastforce
  from namespaces_override_unseen [OF l(1) r] r l(2)
  show "\<exists>r tr. run_state (prepare late_kernel (\<lambda>_ _. None) demo_codec defaultPodSpecPath) [] = (r, tr) \<and>
     fst (run_state (namespacesFromEnv late_kernel) tr) = namespaces_of None" by auto
qed

definition unmount_entry :: ShareMount where
  "unmount_entry = \<lparr>sm_ID = ''data'', sm_Action = MountActionUnmount, sm_Backend = [], sm_MountPoint = ''/mnt'',
     sm_Readonly = False, sm_CubeFS = None\<rparr>"

theorem boot_unmount_entry_panics_witness:
  "Spec_Validate (demo_spec\<lparr>sp_ShareMounts := [unmount_entry]\<rparr>) = None \<and>
   fst (run_state (prepare_pod demo_kernel (\<lambda>_ _. None) demo_codec
     (demo_spec\<lparr>sp_ShareMounts := [unmount_entry]\<rparr>)) []) = Panicked"
proof -
  let ?s = "demo_spec\<lparr>sp_ShareMounts := [unmount_entry]\<rparr>"
  obtain t where t: "run_state (mountShares demo_kernel ?s) [] = (None, t)"
    by (simp add: mountShares_def demo_spec_def io_defs)
  have k: "\<forall>tr p. k_mkdir demo_kernel tr p = None" by (simp add: demo_kernel_def kernel_with_def)
  from boot_unmount_entry_panics [OF k t, of unmount_entry "[]"]
  have "ShareMount_Validate unmount_entry = None \<and>
    fst (run_state (prepare_pod demo_kernel (\<lambda>_ _. None) demo_codec ?s) []) = Panicked"
    by (simp add: unmount_entry_def)
  then show ?thesis
    by (simp add: Spec_Validate_None_iff spec_ok_def demo_spec_def demo_container_def new_container_def
        ShareMount_Validate_iff)
qed

definition cubefs_kernel :: kernel where
  "cubefs_kernel = kernel_with [proc_cmdline \<mapsto> ''weft.rootfs=virtiofs:root weft.cubefs=m1:vol:/mnt'']"

theorem boot_cubefs_directive_fails_witness:
  "\<exists>spec t e t'. run_state (loadSpec cubefs_kernel demo_codec defaultPodSpecPath) [] = (Inr spec, t) \<and>
     run_state (prepare_pod cubefs_kernel (\<lambda>_ _. None) demo_codec spec) t = (Returned (Inl e), t')"
proof -
  let ?line = "''weft.rootfs=virtiofs:root weft.cubefs=m1:vol:/mnt''"
  have f: "str_fields ?line = [''weft.rootfs=virtiofs:root'', ''weft.cubefs=m1:vol:/mnt'']"
    using str_fields_join [of "[''weft.rootfs=virtiofs:root'', ''weft.cubefs=m1:vol:/mnt'']"]
    by (simp add: plain_byte_def)
  have r: "k_read cubefs_kernel t proc_cmdline = Inr ?line"
    "k_read cubefs_kernel t defaultPodSpecPath = Inl (Errno ENOENT)" for t
    by (simp_all add: cubefs_kernel_def kernel_with_def proc_cmdline_def defaultPodSpecPath_def)
  have v: "first_value ''weft.rootfs'' (str_fields ?line) = ''virtiofs:root''"
    "all_values ''weft.mount'' (str_fields ?line) = []"
    "all_values ''weft.cubefs'' (str_fields ?line) = [''m1:vol:/mnt'']" "stripTransportPrefix ''virtiofs:root'' = ''root''"
    unfolding f by code_simp+
  obtain t where l: "run_state (loadSpec cubefs_kernel demo_codec defaultPodSpecPath) [] =
      (Inr (synth_spec ''root'' [] [''m1:vol:/mnt'']), t)"
    by (simp add: loadSpec_def Spec_Load_def synthSingleContainerPod_def cmdlineValue_def cmdlineValues_def
        io_defs r v Let_def)
  have "sp_ShareMounts (synth_spec ''root'' [] [''m1:vol:/mnt'']) \<noteq> []"
    by (simp add: synth_spec_def parseCubeFSDirective_def Let_def)
  from boot_cubefs_directive_fails [OF l r(2) this] l show ?thesis by blast
qed

end
