(* ===== verification/Boot_Bundles.thy ===== *)
theory Boot_Bundles
  imports Boot_Order
begin

text \<open>
  The bundles of the boot: the composition of \<open>resolveRootfs\<close>, \<open>Build\<close> and \<open>prepareBundles\<close>.  What the
  supervisor will run for a container is the config.json that stands in its bundle directory at the end.
\<close>

subsection \<open>One bundle\<close>

definition config_json :: "string \<Rightarrow> string" where
  "config_json i = path_join [path_join [BundlesRoot, i], ''config.json'']"

lemma config_json_simple:
  assumes "simple_name i"
  shows "config_json i = BundlesRoot @ ''/'' @ i @ ''/config.json''"
proof -
  have e: "path_join [BundlesRoot, i] = CHR ''/'' # join_with ''/'' [''run'', ''weft'', ''bundles'', i]"
    using bundle_dir_simple [OF assms] by (simp add: BundlesRoot_def)
  have "list_all simple_name [''run'', ''weft'', ''bundles'', i]" "simple_name ''config.json''"
    using assms by (simp_all add: simple_name_def)
  with path_join_simple [of "[''run'', ''weft'', ''bundles'', i]" "''config.json''"]
  show ?thesis unfolding config_json_def e by (simp add: BundlesRoot_def)
qed

lemma config_json_inj: "simple_name i \<Longrightarrow> simple_name j \<Longrightarrow> config_json i = config_json j \<Longrightarrow> i = j"
  by (simp add: config_json_simple)

text \<open>The path of a write that succeeded.\<close>

fun wrote :: "event \<Rightarrow> string option" where
  "wrote (EWrite p b m r) = (if r = None then Some p else None)"
| "wrote _ = None"

lemma wrote_written: "\<not> written ev \<longleftrightarrow> wrote ev = None"
  by (cases ev) auto

text \<open>The rootfs of a container: the mount point of the first share with its tag, else the fallback.\<close>

definition rootfs_of :: "Share list \<Rightarrow> Container \<Rightarrow> string" where
  "rootfs_of shares c =
     (case List.find (\<lambda>sh. sh_Tag sh = c_RootfsTag c) shares of
        Some sh \<Rightarrow> sh_MountPoint sh | None \<Rightarrow> path_join [''/run/weft/rootfs'', c_ID c])"

text \<open>The trace leaves in the bundle of \<open>c\<close> a config.json that runs its command line on its rootfs.\<close>

definition bundle_left :: "codec \<Rightarrow> Share list \<Rightarrow> trace \<Rightarrow> Container \<Rightarrow> bool" where
  "bundle_left J shares tr c \<longleftrightarrow> (\<exists>es b es' s p.
     tr = es @ [EWrite (config_json (c_ID c)) b 420 None] @ es' \<and>
     (\<forall>ev \<in> set es'. wrote ev \<noteq> Some (config_json (c_ID c))) \<and>
     je_oci J s = Inr b \<and> os_Process s = Some p \<and> pr_Args p = c_Command c @ c_Args c \<and>
     os_Root s = \<lparr>ro_Path = rootfs_of shares c, ro_Readonly = False\<rparr>)"

lemma bundle_left_append:
  assumes "bundle_left J shares tr c" "\<forall>ev \<in> set es. wrote ev \<noteq> Some (config_json (c_ID c))"
  shows "bundle_left J shares (tr @ es) c"
proof -
  from assms(1) obtain a b d s p where "tr = a @ [EWrite (config_json (c_ID c)) b 420 None] @ d"
    "\<forall>ev \<in> set d. wrote ev \<noteq> Some (config_json (c_ID c))"
    "je_oci J s = Inr b" "os_Process s = Some p" "pr_Args p = c_Command c @ c_Args c"
    "os_Root s = \<lparr>ro_Path = rootfs_of shares c, ro_Readonly = False\<rparr>" unfolding bundle_left_def by blast
  with assms(2) show ?thesis unfolding bundle_left_def
    by (intro exI [of _ a] exI [of _ b] exI [of _ "d @ es"] exI [of _ s] exI [of _ p]) auto
qed

lemma resolveRootfs_run:
  assumes "run_state (resolveRootfs K shares c) tr = (rootfs, t)" "rootfs \<noteq> []"
  obtains es where "t = tr @ es" "rootfs = rootfs_of shares c" "\<forall>ev \<in> set es. wrote ev = None"
  using assms by (auto simp: resolveRootfs_def rootfs_of_def Let_def io_defs split: option.splits if_splits)

lemma Build_run:
  assumes "run_state (Build K (je_oci J) podID c (rootfs_of shares c)) tr = (Inr d, tr')"
  obtains es where "tr' = tr @ es" "bundle_left J shares (tr @ es) c"
    "\<forall>ev \<in> set es. wrote ev \<in> {None, Some (config_json (c_ID c))}"
proof -
  from Build_correct [OF assms] obtain t s p b where d: "d = path_join [BundlesRoot, c_ID c]"
    "tr' = tr @ EMkdir d None # t @ [EWrite (path_join [d, ''config.json'']) b 420 None]"
    "je_oci J s = Inr b" "os_Root s = \<lparr>ro_Path = rootfs_of shares c, ro_Readonly = False\<rparr>"
    "os_Process s = Some p" "pr_Args p = c_Command c @ c_Args c" "list_all (\<lambda>e. \<not> written e) t" by auto
  let ?w = "EWrite (config_json (c_ID c)) b 420 None"
  let ?es = "EMkdir d None # t @ [?w]"
  show thesis
  proof (rule that [of ?es])
    show "tr' = tr @ ?es" using d(1,2) by (simp add: config_json_def)
    show "bundle_left J shares (tr @ ?es) c" unfolding bundle_left_def
      by (rule exI [of _ "tr @ EMkdir d None # t"], rule exI [of _ b], rule exI [of _ "[]"], rule exI [of _ s],
          rule exI [of _ p]) (use d(3-6) in simp)
    show "\<forall>ev \<in> set ?es. wrote ev \<in> {None, Some (config_json (c_ID c))}"
      using d(7) by (auto simp: list_all_iff wrote_written)
  qed
qed

text \<open>The last container of a list whose bundle has its config.json at the path.\<close>

definition last_at :: "string \<Rightarrow> Container list \<Rightarrow> Container option" where
  "last_at p cs = find (\<lambda>d. config_json (c_ID d) = p) (rev cs)"

lemma find_append: "find P (xs @ ys) = (case find P xs of Some x \<Rightarrow> Some x | None \<Rightarrow> find P ys)"
  by (induction xs) auto

lemma last_at_Cons: "last_at p (c # cs) =
  (case last_at p cs of Some d \<Rightarrow> Some d | None \<Rightarrow> if config_json (c_ID c) = p then Some c else None)"
  by (simp add: last_at_def find_append split: option.split)

lemma last_at_None: "last_at p cs = None \<longleftrightarrow> p \<notin> config_json ` c_ID ` set cs"
  by (auto simp: last_at_def find_None_iff)

lemma last_at_Some: "last_at p cs = Some c' \<Longrightarrow> c' \<in> set cs \<and> config_json (c_ID c') = p"
  by (auto simp: last_at_def find_Some_iff) (metis nth_mem set_rev length_rev)

lemma build_each_left:
  "run_state (build_each K J spec out cs) tr = (Inr out', tr') \<Longrightarrow>
   \<exists>es. tr' = tr @ es \<and> (\<forall>p c. last_at p cs = Some c \<longrightarrow> bundle_left J (sp_Shares spec) tr' c) \<and>
     (\<forall>ev \<in> set es. wrote ev \<in> insert None (Some ` config_json ` c_ID ` set cs))"
proof (induction cs arbitrary: out tr)
  case (Cons c cs)
  obtain rootfs t where r: "run_state (resolveRootfs K (sp_Shares spec) c) tr = (rootfs, t)" by fastforce
  obtain q u where q: "run_state (Build K (je_oci J) (sp_PodID spec) c rootfs) t = (q, u)" by fastforce
  from Cons.prems(1) r q have "rootfs \<noteq> []" "\<exists>d. q = Inr d" by (auto split: if_splits sum.splits)
  then obtain d where d: "q = Inr d" by blast
  from r \<open>rootfs \<noteq> []\<close> obtain es where es: "t = tr @ es" "rootfs = rootfs_of (sp_Shares spec) c"
    "\<forall>ev \<in> set es. wrote ev = None" by (rule resolveRootfs_run)
  from q obtain fs where fs: "u = t @ fs" "bundle_left J (sp_Shares spec) (t @ fs) c"
    "\<forall>ev \<in> set fs. wrote ev \<in> {None, Some (config_json (c_ID c))}" unfolding d es(2) by (rule Build_run)
  from Cons.prems(1) r q d \<open>rootfs \<noteq> []\<close>
  have "run_state (build_each K J spec (AList.update (c_ID c) d out) cs) u = (Inr out', tr')" by auto
  from Cons.IH [OF this] obtain gs where gs: "tr' = u @ gs"
    "\<forall>p c. last_at p cs = Some c \<longrightarrow> bundle_left J (sp_Shares spec) tr' c"
    "\<forall>ev \<in> set gs. wrote ev \<in> insert None (Some ` config_json ` c_ID ` set cs)" by auto
  have "bundle_left J (sp_Shares spec) tr' c'" if l: "last_at p (c # cs) = Some c'" for p c'
  proof (cases "last_at p cs")
    case None
    with l have c: "c' = c" "config_json (c_ID c) = p" by (simp_all add: last_at_Cons split: if_splits)
    have "\<forall>ev \<in> set gs. wrote ev \<noteq> Some (config_json (c_ID c))"
    proof (intro ballI notI)
      fix ev assume "ev \<in> set gs" "wrote ev = Some (config_json (c_ID c))"
      with gs(3) have "Some p \<in> insert None (Some ` config_json ` c_ID ` set cs)" unfolding c(2) by metis
      with None show False by (auto simp: last_at_None)
    qed
    from bundle_left_append [OF fs(2) this] show ?thesis using c(1) fs(1) gs(1) by simp
  next
    case (Some d)
    with l gs(2) show ?thesis by (simp add: last_at_Cons)
  qed
  with es(1,3) fs(1,3) gs(1,3) show ?case
    by (intro exI [of _ "es @ fs @ gs"]) auto
qed (simp add: last_at_def)

text \<open>
  C5. What the boot leaves for the supervisor: after a successful preparation every container has the
  bundle directory of its id, and the last successful write to the config.json in it is an OCI spec
  that runs the command and arguments, on the root directory of the rootfs share (on the conventional
  path when no share has the tag), of the last container of the pod whose config.json has this path.
  So a container has its own spec there whenever no later container has the same path, and each
  of them does when all ids are plain file names; the validation of the pod does not ask for that, and
  an id like \<open>b/../a\<close> makes one container run with the spec of another.
\<close>

theorem boot_bundles:
  assumes "run_state (prepare K BU J specPath) tr = (Returned (Inr (spec, bundles)), tr')"
    and "c \<in> set (sp_Containers spec)"
  shows "map_of bundles (c_ID c) = Some (path_join [BundlesRoot, c_ID c]) \<and>
    (\<exists>c'. last_at (config_json (c_ID c)) (sp_Containers spec) = Some c' \<and>
      config_json (c_ID c') = config_json (c_ID c) \<and> bundle_left J (sp_Shares spec) tr' c') \<and>
    (\<forall>xs ys. sp_Containers spec = xs @ c # ys \<longrightarrow>
      (\<forall>d \<in> set ys. config_json (c_ID d) \<noteq> config_json (c_ID c)) \<longrightarrow> bundle_left J (sp_Shares spec) tr' c) \<and>
    ((\<forall>d \<in> set (sp_Containers spec). simple_name (c_ID d)) \<longrightarrow> bundle_left J (sp_Shares spec) tr' c \<and>
      path_join [BundlesRoot, c_ID c] = BundlesRoot @ ''/'' @ c_ID c \<and>
      config_json (c_ID c) = BundlesRoot @ ''/'' @ c_ID c @ ''/config.json'')"
proof -
  note ready = prepare_ready [OF assms(1)]
  let ?p = "config_json (c_ID c)" let ?cs = "sp_Containers spec"
  from assms(1) obtain t4 spec0 where "run_state (prepare_pod K BU J spec0) t4 = (Returned (Inr (spec, bundles)), tr')"
    by (rule prepare_stages)
  then obtain u5 u6 where p: "run_state (prepareBundles K J spec) u5 = (Inr bundles, u6)"
    "tr' = u6 @ [EExec [''crun'', ''--version''] (fst (k_exec K u6 [''crun'', ''--version'']))]"
    by (rule prepare_pod_stages)
  from build_each_left [of K J spec "[]" ?cs u5 bundles u6] p(1)
  have "\<forall>p c. last_at p ?cs = Some c \<longrightarrow> bundle_left J (sp_Shares spec) u6 c"
    by (auto simp: prepareBundles_def)
  with p(2) have left: "last_at p ?cs = Some c' \<Longrightarrow> bundle_left J (sp_Shares spec) tr' c'" for p c'
    by (auto intro: bundle_left_append)
  have "last_at ?p ?cs \<noteq> None" using assms(2) by (simp add: last_at_None)
  then obtain c' where c': "last_at ?p ?cs = Some c'" by blast
  note c'' = last_at_Some [OF c']
  have own: "bundle_left J (sp_Shares spec) tr' c"
    if "?cs = xs @ c # ys" "\<forall>d \<in> set ys. config_json (c_ID d) \<noteq> ?p" for xs ys
  proof -
    have "last_at ?p ys = None" using that(2) by (auto simp: last_at_None)
    then have "last_at ?p (xs @ c # ys) = Some c"
      by (induction xs) (simp_all add: last_at_Cons)
    with that(1) left show ?thesis by simp
  qed
  have plain: "bundle_left J (sp_Shares spec) tr' c" if s: "\<forall>d \<in> set ?cs. simple_name (c_ID d)"
  proof -
    from config_json_inj c'' s assms(2) have "c_ID c' = c_ID c" by metis
    with c'' assms(2) ready(1) have "c' = c" by (simp add: eq_key_imp_eq_value distinct_map inj_on_def)
    with left [OF c'] show ?thesis by simp
  qed
  from ready(4) assms(2) have "map_of bundles (c_ID c) = Some (path_join [BundlesRoot, c_ID c])" by simp
  with c' c'' left [OF c'] own plain assms(2) show ?thesis
    by (auto simp: bundle_dir_simple config_json_simple)
qed

theorem boot_bundles_witness:
  "\<exists>bundles tr'. run_state (prepare demo_kernel (\<lambda>_ _. None) demo_codec defaultPodSpecPath) [] =
      (Returned (Inr (demo_spec, bundles)), tr') \<and>
    bundle_left demo_codec (sp_Shares demo_spec) tr' demo_container \<and>
    rootfs_of (sp_Shares demo_spec) demo_container = ''/rootfs'' \<and>
    map_of bundles ''app'' = Some (BundlesRoot @ ''/app'')"
proof -
  obtain bundles tr' where r: "run_state (prepare demo_kernel (\<lambda>_ _. None) demo_codec defaultPodSpecPath) [] =
      (Returned (Inr (demo_spec, bundles)), tr')" using demo_boot by blast
  have c: "sp_Containers demo_spec = [demo_container]" "c_ID demo_container = ''app''"
    by (simp_all add: demo_spec_def demo_container_def new_container_def)
  then have "\<forall>c \<in> set (sp_Containers demo_spec). simple_name (c_ID c)" by (simp add: simple_name_def)
  with boot_bundles [OF r, of demo_container] r c show ?thesis
    by (simp add: rootfs_of_def) (simp add: demo_spec_def demo_container_def new_container_def)
qed

end
