(* ===== verification/Boot_Visible.thy ===== *)
theory Boot_Visible
  imports Boot_Bundles
begin

text \<open>
  What a container sees at its root directory: the table of mounts the boot leaves, and the mount that
  covers a path in it.
\<close>

subsection \<open>The table of mounts\<close>

text \<open>
  The components of an absolute path.  A path without symbolic links leads into the last granted mount
  whose target is the path itself or a directory above it: a later mount on a directory above hides the
  mounts below that directory.  The table holds the mounts of the init itself, not the FUSE mounts that
  the CubeFS clients make.
\<close>

definition path_comps :: "string \<Rightarrow> string list" where
  "path_comps p = clean_comps True [] (split_on (CHR ''/'') p)"

definition at_or_above :: "string \<Rightarrow> string \<Rightarrow> bool" where
  "at_or_above t p \<longleftrightarrow> prefix (path_comps t) (path_comps p)"

definition covering :: "(mount_args \<times> goerr option) list \<Rightarrow> string \<Rightarrow> (mount_args \<times> goerr option) option" where
  "covering ms p = find (\<lambda>((src, tgt, fs, fl, dat), r). r = None \<and> at_or_above tgt p) (rev ms)"

definition source_at :: "(mount_args \<times> goerr option) list \<Rightarrow> string \<Rightarrow> string option" where
  "source_at ms p = map_option (\<lambda>e. fst (fst e)) (covering ms p)"

lemma at_or_above_refl [simp]: "at_or_above p p"
  by (simp add: at_or_above_def)

lemma find_rev_last: "find P (rev xs) = (if filter P xs = [] then None else Some (last (filter P xs)))"
  by (induction xs) (auto simp: find_append)

text \<open>A path at or below a share leads into the last share that lies at it or above it.\<close>

lemma source_at_shares:
  assumes "sh \<in> set shs" "at_or_above (sh_MountPoint sh) p"
  shows "source_at (ms @ map (share_mount tp) shs) p =
    Some (sh_Tag (last (filter (\<lambda>s. at_or_above (sh_MountPoint s) p) shs)))"
proof -
  let ?P = "\<lambda>((src, tgt, fs, fl, dat), r). r = None \<and> at_or_above tgt p"
  let ?Q = "\<lambda>s. at_or_above (sh_MountPoint s) p"
  have f: "filter ?P (map (share_mount tp) shs) = map (share_mount tp) (filter ?Q shs)"
    by (induction shs) (simp_all add: share_mount_def)
  have ne: "filter ?Q shs \<noteq> []" using assms by (auto simp: filter_empty_conv)
  have "covering (ms @ map (share_mount tp) shs) p = Some (share_mount tp (last (filter ?Q shs)))"
    unfolding covering_def find_rev_last filter_append f using ne by (simp add: last_map)
  then show ?thesis by (simp add: source_at_def share_mount_def)
qed

subsection \<open>The root directories of the containers\<close>

definition rootfs_share :: "Share list \<Rightarrow> Container \<Rightarrow> Share option" where
  "rootfs_share shares c = List.find (\<lambda>sh. sh_Tag sh = c_RootfsTag c) shares"

text \<open>
  C19. What a container sees: after a successful boot the root directory in the bundle of a container with a
  share of its tag leads into the share that was mounted last at that directory or above it; it
  is the container's own share whenever no share behind it in the list has its mount point there or
  above.  The validation of the pod does not ask for this.
\<close>

theorem boot_rootfs_visible:
  assumes "run_state (prepare K BU J specPath) tr = (Returned (Inr (spec, bundles)), tr')"
    and "c \<in> set (sp_Containers spec)" "rootfs_share (sp_Shares spec) c = Some sh"
  shows "rootfs_of (sp_Shares spec) c = sh_MountPoint sh \<and>
    source_at (mounts tr') (rootfs_of (sp_Shares spec) c) =
      Some (sh_Tag (last (filter (\<lambda>s. at_or_above (sh_MountPoint s) (sh_MountPoint sh)) (sp_Shares spec)))) \<and>
    (\<forall>xs ys. sp_Shares spec = xs @ sh # ys \<longrightarrow> (\<forall>s \<in> set ys. \<not> at_or_above (sh_MountPoint s) (sh_MountPoint sh)) \<longrightarrow>
      source_at (mounts tr') (rootfs_of (sp_Shares spec) c) = Some (c_RootfsTag c))"
proof -
  obtain ps cfg tp where "mounts tr' = mounts tr @ ps @ cfg @ map (share_mount tp) (sp_Shares spec)"
    using boot_mounts_list [OF assms(1)] by blast
  then have m': "mounts tr' = (mounts tr @ ps @ cfg) @ map (share_mount tp) (sp_Shares spec)" by simp
  have sh: "sh \<in> set (sp_Shares spec)" "sh_Tag sh = c_RootfsTag c"
    using assms(3) by (auto simp: rootfs_share_def find_Some_iff in_set_conv_nth)
  have r: "rootfs_of (sp_Shares spec) c = sh_MountPoint sh"
    using assms(3) by (simp add: rootfs_of_def rootfs_share_def)
  have s: "source_at (mounts tr') (rootfs_of (sp_Shares spec) c) =
      Some (sh_Tag (last (filter (\<lambda>s. at_or_above (sh_MountPoint s) (sh_MountPoint sh)) (sp_Shares spec))))"
    unfolding m' r by (rule source_at_shares [OF sh(1) at_or_above_refl])
  have "source_at (mounts tr') (rootfs_of (sp_Shares spec) c) = Some (c_RootfsTag c)"
    if e: "sp_Shares spec = xs @ sh # ys" "\<forall>s \<in> set ys. \<not> at_or_above (sh_MountPoint s) (sh_MountPoint sh)" for xs ys
  proof -
    have "filter (\<lambda>s. at_or_above (sh_MountPoint s) (sh_MountPoint sh)) ys = []" using e(2) by (simp add: filter_empty_conv)
    then have "last (filter (\<lambda>s. at_or_above (sh_MountPoint s) (sh_MountPoint sh)) (sp_Shares spec)) = sh"
      by (simp add: e(1))
    with s sh(2) show ?thesis by simp
  qed
  with r s show ?thesis by blast
qed

theorem boot_rootfs_visible_witness:
  "\<exists>bundles tr'. run_state (prepare demo_kernel (\<lambda>_ _. None) demo_codec defaultPodSpecPath) [] =
      (Returned (Inr (demo_spec, bundles)), tr') \<and>
    rootfs_of (sp_Shares demo_spec) demo_container = ''/rootfs'' \<and> source_at (mounts tr') ''/rootfs'' = Some ''root''"
proof -
  obtain bundles tr' where r: "run_state (prepare demo_kernel (\<lambda>_ _. None) demo_codec defaultPodSpecPath) [] =
      (Returned (Inr (demo_spec, bundles)), tr')" using demo_boot by blast
  obtain sh where sh: "sp_Shares demo_spec = [sh]" "sh_Tag sh = ''root''" "sh_MountPoint sh = ''/rootfs''"
    by (simp add: demo_spec_def)
  have c: "demo_container \<in> set (sp_Containers demo_spec)" "c_RootfsTag demo_container = ''root''"
    by (simp_all add: demo_spec_def demo_container_def new_container_def)
  have f: "rootfs_share (sp_Shares demo_spec) demo_container = Some sh"
    using sh c(2) by (simp add: rootfs_share_def)
  note v = boot_rootfs_visible [OF r c(1) f]
  from v have d: "rootfs_of (sp_Shares demo_spec) demo_container = ''/rootfs''" using sh(3) by (metis (no_types))
  from v have "source_at (mounts tr') ''/rootfs'' = Some ''root''" unfolding d using sh by simp
  with r d show ?thesis by blast
qed

text \<open>
  A pod the validation accepts in which a container runs on the files of another one: two shares with the
  same mount point, whatever is mounted before them.
\<close>

definition clash_spec :: Spec where
  "clash_spec = demo_spec\<lparr>sp_Shares := [\<lparr>sh_Tag = ''root'', sh_MountPoint = ''/rootfs'', sh_Readonly = False\<rparr>,
     \<lparr>sh_Tag = ''db'', sh_MountPoint = ''/rootfs'', sh_Readonly = False\<rparr>]\<rparr>"

theorem hidden_share_valid:
  "Spec_Validate clash_spec = None \<and> rootfs_of (sp_Shares clash_spec) demo_container = ''/rootfs'' \<and>
   c_RootfsTag demo_container = ''root'' \<and>
   source_at (ms @ map (share_mount tp) (sp_Shares clash_spec)) ''/rootfs'' = Some ''db''"
proof -
  let ?r = "\<lparr>sh_Tag = ''root'', sh_MountPoint = ''/rootfs'', sh_Readonly = False\<rparr>"
  have s: "sp_Shares clash_spec = [?r, ?r\<lparr>sh_Tag := ''db''\<rparr>]" by (simp add: clash_spec_def)
  have "source_at (ms @ map (share_mount tp) (sp_Shares clash_spec)) ''/rootfs'' = Some ''db''"
    using source_at_shares [of ?r "sp_Shares clash_spec" "''/rootfs''" ms tp] by (simp add: s)
  then show ?thesis
    by (simp add: rootfs_of_def s) (simp add: Spec_Validate_None_iff spec_ok_def clash_spec_def demo_spec_def
        demo_container_def new_container_def)
qed

end
