(* ===== verification/Go_Flags.thy ===== *)
theory Go_Flags
  imports Go_Prelude "HOL-Library.AList"
begin

text \<open>
  Package flag of the Go standard library as the commands use it: string and boolean flags of the
  default flag set, which is parsed with the policy \<open>flag.ExitOnError\<close>.  A flag set is the association list
  of the flags the program defined with their current values, the defaults at first.
\<close>

datatype flag_value = VStr string | VBool bool

type_synonym flag_set = "(string \<times> flag_value) list"

subsection \<open>Parsing\<close>

text \<open>\<open>strconv.ParseBool\<close>.\<close>

definition parse_bool :: "string \<Rightarrow> bool option" where
  "parse_bool s =
     (if s \<in> set [''1'', ''t'', ''T'', ''TRUE'', ''true'', ''True''] then Some True
      else if s \<in> set [''0'', ''f'', ''F'', ''FALSE'', ''false'', ''False''] then Some False
      else None)"

text \<open>
  What an argument is: no flag, the terminator, a flag that is not well formed, or a flag with the
  value written behind an equals sign, which is never the first byte of the name.
\<close>

datatype flag_arg = Operand | Terminator | Bad_syntax | Flag string "string option"

definition split_flag :: "string \<Rightarrow> flag_arg" where
  "split_flag name =
     (case name of
        [] \<Rightarrow> Bad_syntax
      | c # cs \<Rightarrow>
          if c = CHR ''-'' \<or> c = CHR ''='' then Bad_syntax
          else (case cut (CHR ''='') cs of
                  None \<Rightarrow> Flag name None
                | Some (a, v) \<Rightarrow> Flag (c # a) (Some v)))"

definition flag_arg :: "string \<Rightarrow> flag_arg" where
  "flag_arg s =
     (if length s < 2 \<or> hd s \<noteq> CHR ''-'' then Operand
      else if s ! 1 = CHR ''-'' then if length s = 2 then Terminator else split_flag (drop 2 s)
      else split_flag (drop 1 s))"

text \<open>\<open>flag.ErrHelp\<close>, or an error whose message the package prints.\<close>

datatype flag_error = Help | Fail goerr

text \<open>
  \<open>FlagSet.parseOne\<close> and the loop of \<open>FlagSet.Parse\<close>: the flag set with the values the arguments gave and
  the arguments that are left.  A boolean flag takes a value only behind the equals sign, any other flag
  takes the next argument, whatever it looks like.
\<close>

fun flags_parse :: "flag_set \<Rightarrow> string list \<Rightarrow> flag_error + flag_set \<times> string list" where
  "flags_parse F [] = Inr (F, [])"
| "flags_parse F (s # args) =
     (case flag_arg s of
        Operand \<Rightarrow> Inr (F, s # args)
      | Terminator \<Rightarrow> Inr (F, args)
      | Bad_syntax \<Rightarrow> Inl (Fail (Errorf ''bad flag syntax: %s'' [AStr s]))
      | Flag name value \<Rightarrow>
          (case map_of F name of
             None \<Rightarrow>
               if name = ''help'' \<or> name = ''h'' then Inl Help
               else Inl (Fail (Errorf ''flag provided but not defined: -%s'' [AStr name]))
           | Some (VBool _) \<Rightarrow>
               (case value of
                  None \<Rightarrow> flags_parse (AList.update name (VBool True) F) args
                | Some v \<Rightarrow>
                    (case parse_bool v of
                       None \<Rightarrow> Inl (Fail (Errorf ''invalid boolean value %q for -%s: %v''
                                 [AStr v, AStr name, AStr ''parse error'']))
                     | Some b \<Rightarrow> flags_parse (AList.update name (VBool b) F) args))
           | Some (VStr _) \<Rightarrow>
               (case (value, args) of
                  (Some v, _) \<Rightarrow> flags_parse (AList.update name (VStr v) F) args
                | (None, v # args') \<Rightarrow> flags_parse (AList.update name (VStr v) F) args'
                | (None, []) \<Rightarrow> Inl (Fail (Errorf ''flag needs an argument: -%s'' [AStr name])))))"

text \<open>With \<open>flag.ExitOnError\<close> the process exits on an error: status 0 after the help, 2 otherwise.\<close>

fun flag_exit :: "flag_error \<Rightarrow> nat" where
  "flag_exit Help = 0"
| "flag_exit (Fail e) = 2"

definition flag_str :: "flag_set \<Rightarrow> string \<Rightarrow> string" where
  "flag_str F name = (case map_of F name of Some (VStr v) \<Rightarrow> v | _ \<Rightarrow> [])"

definition flag_bool :: "flag_set \<Rightarrow> string \<Rightarrow> bool" where
  "flag_bool F name = (case map_of F name of Some (VBool b) \<Rightarrow> b | _ \<Rightarrow> False)"

subsection \<open>Rendering\<close>

text \<open>
  The ways to write a setting on a command line: one dash or two, the value joined by an equals sign or
  given as the next argument (for a boolean flag: written out, or left away when it is true).
\<close>

definition dashes :: "bool \<Rightarrow> string" where
  "dashes two = (if two then ''--'' else ''-'')"

fun render :: "bool \<times> bool \<Rightarrow> string \<times> flag_value \<Rightarrow> string list" where
  "render (two, joined) (n, VStr v) =
     (if joined then [dashes two @ n @ CHR ''='' # v] else [dashes two @ n, v])"
| "render (two, joined) (n, VBool b) =
     (if b \<and> \<not> joined then [dashes two @ n] else [dashes two @ n @ CHR ''='' # (if b then ''true'' else ''false'')])"

definition flag_name :: "string \<Rightarrow> bool" where
  "flag_name n \<longleftrightarrow> n \<noteq> [] \<and> hd n \<noteq> CHR ''-'' \<and> CHR ''='' \<notin> set n"

fun same_kind :: "flag_value \<Rightarrow> flag_value \<Rightarrow> bool" where
  "same_kind (VStr _) (VStr _) = True"
| "same_kind (VBool _) (VBool _) = True"
| "same_kind _ _ = False"

text \<open>A setting of a flag the program defined, with a value of its kind.\<close>

definition setting_ok :: "flag_set \<Rightarrow> string \<times> flag_value \<Rightarrow> bool" where
  "setting_ok F s \<longleftrightarrow> flag_name (fst s) \<and>
     (case map_of F (fst s) of Some w \<Rightarrow> same_kind w (snd s) | None \<Rightarrow> False)"

definition apply_setting :: "string \<times> flag_value \<Rightarrow> flag_set \<Rightarrow> flag_set" where
  "apply_setting s F = AList.update (fst s) (snd s) F"

text \<open>The value a list of settings leaves: the last setting of the flag, else the default.\<close>

definition last_set :: "flag_set \<Rightarrow> (string \<times> flag_value) list \<Rightarrow> string \<Rightarrow> flag_value option" where
  "last_set F ss n = (case map_of (rev ss) n of Some v \<Rightarrow> Some v | None \<Rightarrow> map_of F n)"

subsection \<open>Rendered settings are read back\<close>

lemma parse_bool_shown [simp]: "parse_bool ''true'' = Some True" "parse_bool ''false'' = Some False"
  by (simp_all add: parse_bool_def)

lemma split_flag_name: "flag_name n \<Longrightarrow> split_flag n = Flag n None"
  by (cases n) (auto simp: flag_name_def split_flag_def)

lemma split_flag_joined: "flag_name n \<Longrightarrow> split_flag (n @ CHR ''='' # v) = Flag n (Some v)"
  by (cases n) (auto simp: flag_name_def split_flag_def)

lemma flag_arg_dashes: "s \<noteq> [] \<Longrightarrow> hd s \<noteq> CHR ''-'' \<Longrightarrow> flag_arg (dashes two @ s) = split_flag s"
  by (cases s) (auto simp: flag_arg_def dashes_def)

lemma flag_arg_name [simp]: "flag_name n \<Longrightarrow> flag_arg (dashes two @ n) = Flag n None"
  using flag_arg_dashes [of n two] by (simp add: flag_name_def split_flag_name)

lemma flag_arg_joined [simp]: "flag_name n \<Longrightarrow> flag_arg (dashes two @ n @ CHR ''='' # v) = Flag n (Some v)"
  using flag_arg_dashes [of "n @ CHR ''='' # v" two] by (simp add: flag_name_def split_flag_joined)

lemma flags_parse_setting:
  "setting_ok F s \<Longrightarrow> flags_parse F (render st s @ args) = flags_parse (apply_setting s F) args"
  by (cases st; cases s; cases "snd s")
    (auto simp: setting_ok_def apply_setting_def split: option.splits flag_value.splits)

lemma setting_ok_apply: "setting_ok F s \<Longrightarrow> setting_ok F t \<Longrightarrow> setting_ok (apply_setting s F) t"
  by (auto simp: setting_ok_def apply_setting_def update_conv' split: option.splits)
    (metis flag_value.exhaust same_kind.simps)+

lemma flags_parse_render:
  "list_all (setting_ok F) (map snd ss) \<Longrightarrow>
   flags_parse F (concat (map (\<lambda>(st, s). render st s) ss) @ rest) =
     flags_parse (fold apply_setting (map snd ss) F) rest"
proof (induction ss arbitrary: F)
  case (Cons x ss)
  obtain st s where x: "x = (st, s)" by (cases x)
  from Cons.prems x have "list_all (setting_ok (apply_setting s F)) (map snd ss)"
    by (auto simp: list_all_iff intro: setting_ok_apply)
  from Cons.IH [OF this] Cons.prems x show ?case by (simp add: flags_parse_setting)
qed simp

lemma map_of_settings: "map_of (fold apply_setting ss F) n = last_set F ss n"
proof (induction ss arbitrary: F)
  case (Cons s ss)
  show ?case unfolding fold_simps o_apply Cons.IH
    by (cases s) (auto simp: last_set_def apply_setting_def update_conv' map_of_append split: option.splits)
qed (simp add: last_set_def)

text \<open>The arguments at which the parse stops without an error.\<close>

definition operands :: "string list \<Rightarrow> bool" where
  "operands args \<longleftrightarrow> (case args of [] \<Rightarrow> True | s # _ \<Rightarrow> flag_arg s = Operand)"

lemma flags_parse_operands: "operands args \<Longrightarrow> flags_parse F args = Inr (F, args)"
  by (cases args) (auto simp: operands_def)

text \<open>
  Round trip of the command line: a sequence of settings of defined flags, each written with one dash
  or two and with its value joined or as the next argument, is read back as exactly those settings, the
  last one of a flag winning over the earlier ones and over the default, and the parse leaves the
  operands that follow; a first undefined flag behind them stops it with the error that names it.
\<close>

theorem flags_roundtrip:
  assumes "list_all (setting_ok F) (map snd ss)"
    and "operands rest"
    and "flag_name bad" "map_of F bad = None" "bad \<notin> {''help'', ''h''}"
  shows "\<exists>G. flags_parse F (concat (map (\<lambda>(st, s). render st s) ss) @ rest) = Inr (G, rest) \<and>
      flags_parse F (concat (map (\<lambda>(st, s). render st s) ss) @ ''--'' # rest) = Inr (G, rest) \<and>
      map_of G = last_set F (map snd ss) \<and>
      flags_parse F (concat (map (\<lambda>(st, s). render st s) ss) @ (dashes two @ bad) # rest) =
        Inl (Fail (Errorf ''flag provided but not defined: -%s'' [AStr bad]))"
proof -
  let ?G = "fold apply_setting (map snd ss) F"
  have G: "map_of ?G = last_set F (map snd ss)" by (rule ext) (rule map_of_settings)
  have "bad \<notin> fst ` set (map snd ss)"
    using assms(1,4) by (auto simp: list_all_iff setting_ok_def)
  then have "map_of (rev (map snd ss)) bad = None" by (auto simp: map_of_eq_None_iff)
  with assms(4) have "map_of ?G bad = None" by (simp add: G last_set_def)
  then show ?thesis using assms
    by (intro exI [of _ ?G])
      (simp add: flags_parse_render flags_parse_operands G flag_arg_def [of "''--''"])
qed

theorem flags_roundtrip_witness:
  "\<exists>G. flags_parse [(''o'', VStr ''''), (''v'', VBool False)] [''-o'', ''-v'', ''--v=true'', ''-o=b'', ''c''] = Inr (G, [''c'']) \<and>
    map_of G ''o'' = Some (VStr ''b'') \<and> map_of G ''v'' = Some (VBool True)"
proof -
  let ?F = "[(''o'', VStr ''''), (''v'', VBool False)]"
  let ?ss = "[((False, False), ''o'', VStr ''-v''), ((True, True), ''v'', VBool True), ((False, True), ''o'', VStr ''b'')]"
  have "list_all (setting_ok ?F) (map snd ?ss)" by code_simp
  moreover have "operands [''c'']" "flag_name ''x''" "map_of ?F ''x'' = None" "''x'' \<notin> {''help'', ''h''}" by code_simp+
  ultimately obtain G where G: "flags_parse ?F (concat (map (\<lambda>(st, s). render st s) ?ss) @ [''c'']) = Inr (G, [''c''])"
    "map_of G = last_set ?F (map snd ?ss)" using flags_roundtrip [of ?F ?ss "[''c'']" "''x''"] by blast
  from G(1) have "flags_parse ?F [''-o'', ''-v'', ''--v=true'', ''-o=b'', ''c''] = Inr (G, [''c''])"
    by (simp add: dashes_def)
  moreover from G(2) have "map_of G ''o'' = Some (VStr ''b'')" "map_of G ''v'' = Some (VBool True)"
    by (simp_all add: last_set_def)
  ultimately show ?thesis by blast
qed

end
