(* ===== verification/Pod_Lifetime.thy ===== *)
theory Pod_Lifetime
  imports Boot
begin

text \<open>
  The end of a pod: once its containers have exited for good, the supervisor's \<open>Run\<close> returns nil.  The
  facts on \<open>Stop\<close> and on the end of \<open>main\<close> that Fair_Shutdown, Init_Entry and Stop_Protocol share.
\<close>

subsection \<open>Exits that are not followed by a restart\<close>

text \<open>No container is started again for the exit \<open>ev\<close>.\<close>

definition final_exit :: "Supervisor \<Rightarrow> Reaped \<Rightarrow> bool" where
  "final_exit s ev \<longleftrightarrow> (\<forall>i st. state_of s i = Some st \<longrightarrow> \<not> shouldRestart st ev)"

lemma consume_final:
  assumes "sup_ok s" "final_exit s ev" "run_state (consume K rt bundles cs ev s) tr = (s', tr')"
  shows "s' = (case tracked s (rp_PID ev) of None \<Rightarrow> s | Some i \<Rightarrow> close_done i (register_exit i ev s))"
proof (cases "tracked s (rp_PID ev)")
  case None
  with assms(3) show ?thesis by (simp add: consume_def tracked_def)
next
  case (Some i)
  then obtain st where st: "state_of s i = Some st" using assms(1) unfolding sup_ok_def by blast
  with assms(2) have "\<not> shouldRestart st ev" by (auto simp: final_exit_def)
  with Some st assms(3) show ?thesis
    by (auto simp: consume_def tracked_def state_of_def split: prod.splits)
qed

lemma consume_final_views:
  assumes "sup_ok s" "final_exit s ev" "run_state (consume K rt bundles cs ev s) tr = (s', tr')"
  shows "sup_ok s'" "is_done s' i \<longleftrightarrow> is_done s i \<or> tracked s (rp_PID ev) = Some i"
    "tracked s' = (tracked s)(rp_PID ev := None)" "final_exit s e \<Longrightarrow> final_exit s' e"
proof -
  have all: "sup_ok s' \<and> (is_done s' i \<longleftrightarrow> is_done s i \<or> tracked s (rp_PID ev) = Some i) \<and>
    tracked s' = (tracked s)(rp_PID ev := None) \<and> (final_exit s e \<longrightarrow> final_exit s' e)"
  proof (cases "tracked s (rp_PID ev)")
    case None
    with consume_final [OF assms] assms(1) show ?thesis by (auto simp: fun_eq_iff)
  next
    case (Some j)
    then obtain st where st: "state_of s j = Some st" "\<not> st_done st"
      "state_of (register_exit j ev s) j = Some (st\<lparr>st_lastExit := Some ev\<rparr>)" "sup_ok (register_exit j ev s)"
      using sup_ok_exit [OF assms(1)] by blast
    have c: "s' = close_done j (register_exit j ev s)" using consume_final [OF assms] Some by simp
    have un: "tracked (register_exit j ev s) p \<noteq> Some j" for p
      using assms(1) Some st(1) unfolding sup_ok_def by auto
    have "sup_ok s'" unfolding c by (rule sup_ok_close [OF st(4,3)]) (use st(2) un in auto)
    moreover have "is_done s' i \<longleftrightarrow> is_done s i \<or> tracked s (rp_PID ev) = Some i"
      unfolding c using Some st by (auto simp: is_done_def)
    moreover have "final_exit s e \<longrightarrow> final_exit s' e"
      unfolding c final_exit_def using st by (auto simp: shouldRestart_def)
    ultimately show ?thesis unfolding c using st by (simp add: fun_eq_iff)
  qed
  then show "sup_ok s'" "is_done s' i \<longleftrightarrow> is_done s i \<or> tracked s (rp_PID ev) = Some i"
    "tracked s' = (tracked s)(rp_PID ev := None)" "final_exit s e \<Longrightarrow> final_exit s' e" by blast+
qed

lemma consume_all_final:
  "sup_ok s \<Longrightarrow> \<forall>ev \<in> set evs. final_exit s ev \<Longrightarrow>
   run_state (consume_all K rt bundles cs evs s) tr = (s', tr') \<Longrightarrow>
   is_done s' i \<longleftrightarrow> is_done s i \<or> (\<exists>ev \<in> set evs. tracked s (rp_PID ev) = Some i)"
proof (induction evs arbitrary: s tr)
  case (Cons ev evs)
  obtain u t where u: "run_state (consume K rt bundles cs ev s) tr = (u, t)" by fastforce
  with Cons.prems(2) have f: "final_exit s ev" by simp
  note v = consume_final_views [OF Cons.prems(1) f u]
  from Cons.prems(2) v(4) have "\<forall>e \<in> set evs. final_exit u e" by simp
  with Cons.IH [OF v(1)] Cons.prems(3) u
  have "is_done s' i \<longleftrightarrow> is_done u i \<or> (\<exists>e \<in> set evs. tracked u (rp_PID e) = Some i)" by simp
  moreover have "(\<exists>e \<in> set evs. tracked u (rp_PID e) = Some i) \<or> tracked s (rp_PID ev) = Some i \<longleftrightarrow>
    (\<exists>e \<in> set (ev # evs). tracked s (rp_PID e) = Some i)"
    unfolding v(3) fun_upd_apply by (metis list.set_intros option.distinct(1) set_ConsD)
  ultimately show ?case using v(2) [of i] by blast
qed auto

subsection \<open>Run returns\<close>

lemma main_waits:
  "\<forall>c \<in> set cs. is_done (y_sup y) (c_ID c) \<Longrightarrow> \<not> s_panic (y_sup y) \<Longrightarrow> y_main y = MWait k \<Longrightarrow>
   length cs = k + n \<Longrightarrow>
   run_acts K rt bundles cs (replicate (Suc n) AMain) y = Some (y\<lparr>y_main := MReturned None\<rparr>)"
proof (induction n arbitrary: k y)
  case (Suc n)
  then obtain st where "state_of (y_sup y) (c_ID (cs ! k)) = Some st" "st_done st"
    by (fastforce simp: is_done_def split: option.splits)
  with Suc.prems have "step K rt bundles cs AMain y = Some (y\<lparr>y_main := MWait (Suc k)\<rparr>)" by simp
  with Suc.prems Suc.IH [of "y\<lparr>y_main := MWait (Suc k)\<rparr>" "Suc k"] show ?case
    by (simp del: step.simps add: replicate_Suc [of "Suc n"])
qed simp

text \<open>
  A pod that is done powers the guest off: when the exit of every container that is not done yet waits
  in the queue and none of these exits calls for a restart, the consumer and then \<open>Run\<close>, within eight
  steps an exit and one a container and one more, get \<open>Run\<close> to return nil, every container is then
  done, and \<open>main\<close> asks for the power-off without a delay.
\<close>

theorem pod_completes:
  assumes "distinct (map c_ID cs)" "reachable K rt bundles cs y" "y_main y = MWait k" "y_cons y = CRecv"
    and "\<forall>ev \<in> set (y_chan y). final_exit (y_sup y) ev"
    and "\<forall>c \<in> set cs. is_done (y_sup y) (c_ID c) \<or>
      (\<exists>ev \<in> set (y_chan y). tracked (y_sup y) (rp_PID ev) = Some (c_ID c))"
  shows "\<exists>n m y' r. n \<le> 8 * length (y_chan y) \<and> m \<le> Suc (length cs) \<and>
    run_acts K rt bundles cs (replicate n ACons @ replicate m AMain) y = Some y' \<and>
    y_main y' = MReturned None \<and> (\<forall>c \<in> set cs. is_done (y_sup y') (c_ID c)) \<and>
    snd (run_state (main_end K None) (y_trace y')) = y_trace y' @ [ESync, EReboot r]"
proof -
  have inv: "sys_inv cs y" by (rule inv_reachable [OF assms(1,2)])
  then have ok: "sup_ok (y_sup y)" by (simp add: sys_inv_def)
  obtain s' t' where c: "run_state (consume_all K rt bundles cs (y_chan y) (y_sup y)) (y_trace y) = (s', t')"
    by fastforce
  let ?y = "y\<lparr>y_sup := s', y_trace := t', y_chan := []\<rparr>"
  obtain n where n: "n \<le> 8 * length (y_chan y)" "run_acts K rt bundles cs (replicate n ACons) y = Some ?y"
    using drain_queue [OF assms(1) inv assms(4) refl c] by blast
  from consume_all_final [OF ok assms(5) c] assms(6) have d: "\<forall>c \<in> set cs. is_done s' (c_ID c)" by blast
  have inv': "sys_inv cs ?y" by (rule inv_steps [OF assms(1) run_acts_steps [OF n(2)] inv])
  with assms(3) have k: "k \<le> length cs" and p: "\<not> s_panic s'"
    by (auto simp: sys_inv_def main_inv_def sup_ok_def)
  let ?m = "Suc (length cs - k)"
  have "run_acts K rt bundles cs (replicate ?m AMain) ?y = Some (?y\<lparr>y_main := MReturned None\<rparr>)"
    by (rule main_waits [of cs _ k]) (use d p k assms(3) in auto)
  with n(2) have "run_acts K rt bundles cs (replicate n ACons @ replicate ?m AMain) y = Some (?y\<lparr>y_main := MReturned None\<rparr>)"
    by (simp add: run_acts_append del: replicate_Suc)
  moreover have "snd (run_state (main_end K None) t') = t' @ [ESync, EReboot (k_reboot K (t' @ [ESync]))]"
    by (simp add: main_end_def poweroff_def)
  moreover have "?m \<le> Suc (length cs)" by simp
  ultimately show ?thesis using n(1) d
    by (intro exI [of _ n] exI [of _ ?m] exI [of _ "?y\<lparr>y_main := MReturned None\<rparr>"] exI) simp
qed

theorem pod_completes_witness:
  "\<exists>y y' n m. run_web RestartNever (start_acts @ [AReap (exit_of 7)]) = Some y \<and>
    run_acts (kernel_with (\<lambda>_. None)) (rt_fixed 7) [(''web'', ''/b/web'')] [web RestartNever]
      (replicate n ACons @ replicate m AMain) y = Some y' \<and> y_main y' = MReturned None"
proof -
  have p: "\<not> s_panic (one_running RestartNever)" by (simp add: one_running_def)
  obtain y where y: "run_web RestartNever (start_acts @ [AReap (exit_of 7)]) = Some y" "y_main y = MWait 0"
    "y_cons y = CRecv" "y_chan y = [exit_of 7]" "y_sup y = one_running RestartNever"
    by (simp add: run_acts_append web_started p) (simp add: exit_of_def publish_def chan_cap_def)
  have f: "\<forall>ev \<in> set (y_chan y). final_exit (y_sup y) ev"
    using y(5) by (auto simp: final_exit_def one_running_def state_of_def shouldRestart_def split: if_splits)
  have t: "\<forall>c \<in> set [web RestartNever]. is_done (y_sup y) (c_ID c) \<or>
      (\<exists>ev \<in> set (y_chan y). tracked (y_sup y) (rp_PID ev) = Some (c_ID c))"
    using y(4,5) by (simp add: web_def new_container_def one_running_def tracked_def exit_of_def)
  have d: "distinct (map c_ID [web RestartNever])" by simp
  from pod_completes [OF d web_reachable [OF y(1)] y(2,3) f t] y(1) show ?thesis by blast
qed

subsection \<open>The end of main, and the steps of Stop\<close>

lemma main_end_failed:
  "\<exists>r rest. snd (run_state (main_end K (Some e)) tr) = tr @ [ESleep 3000, ESync, EReboot r] @ rest"
  by (cases "k_reboot K (tr @ [ESleep 3000, ESync])") (simp_all add: main_end_def poweroff_def time_sleep_def)

fun_cases stop_stepE: "stop_step rt pc y = Some u"
fun_cases stop_deadlineE: "stop_deadline pc y = Some u"

lemma allExited_mark: "allExited (mark_stopped s) = allExited s"
  by (auto simp: allExited_def mark_stopped_def list_all_iff)

end
