(* ===== verification/Fair_Shutdown.thy ===== *)
theory Fair_Shutdown
  imports Pod_Lifetime
begin

text \<open>
  Liveness over infinite executions.  An execution is a sequence of states, each step of it one action of
  the system or nothing; the scheduler is weakly fair to \<open>Run\<close> and \<open>Stop\<close>, and strongly fair to the
  deadline, which is offered only between two polls.
\<close>

subsection \<open>Executions and fairness\<close>

definition execution :: "('a \<Rightarrow> 's \<Rightarrow> 's option) \<Rightarrow> (nat \<Rightarrow> 's) \<Rightarrow> (nat \<Rightarrow> 'a option) \<Rightarrow> bool" where
  "execution f \<sigma> \<alpha> \<longleftrightarrow>
     (\<forall>n. case \<alpha> n of None \<Rightarrow> \<sigma> (Suc n) = \<sigma> n | Some a \<Rightarrow> f a (\<sigma> n) = Some (\<sigma> (Suc n)))"

definition weakly_fair :: "('a \<Rightarrow> 's \<Rightarrow> 's option) \<Rightarrow> (nat \<Rightarrow> 's) \<Rightarrow> (nat \<Rightarrow> 'a option) \<Rightarrow> 'a \<Rightarrow> bool" where
  "weakly_fair f \<sigma> \<alpha> a \<longleftrightarrow> (\<forall>n. (\<forall>m \<ge> n. f a (\<sigma> m) \<noteq> None) \<longrightarrow> (\<exists>m \<ge> n. \<alpha> m = Some a))"

definition strongly_fair :: "('a \<Rightarrow> 's \<Rightarrow> 's option) \<Rightarrow> (nat \<Rightarrow> 's) \<Rightarrow> (nat \<Rightarrow> 'a option) \<Rightarrow> 'a \<Rightarrow> bool" where
  "strongly_fair f \<sigma> \<alpha> a \<longleftrightarrow> (\<forall>n. (\<forall>m \<ge> n. \<exists>l \<ge> m. f a (\<sigma> l) \<noteq> None) \<longrightarrow> (\<exists>m \<ge> n. \<alpha> m = Some a))"

lemma execution_step: "execution f \<sigma> \<alpha> \<Longrightarrow> \<alpha> n = Some a \<Longrightarrow> f a (\<sigma> n) = Some (\<sigma> (Suc n))"
  unfolding execution_def by (metis option.simps(5))

text \<open>What every action keeps holds from a point on, and a rank that no action raises settles.\<close>

lemma execution_cases:
  assumes "execution f \<sigma> \<alpha>"
  obtains "\<sigma> (Suc n) = \<sigma> n" | a where "\<alpha> n = Some a" "f a (\<sigma> n) = Some (\<sigma> (Suc n))"
  using assms unfolding execution_def by (cases "\<alpha> n") (auto dest: spec [of _ n])

lemma execution_stable:
  assumes "execution f \<sigma> \<alpha>" "P (\<sigma> n)" "\<And>a y y'. P y \<Longrightarrow> f a y = Some y' \<Longrightarrow> P y'" "n \<le> m"
  shows "P (\<sigma> m)"
  using assms(4)
proof (induction m rule: dec_induct)
  case (step m)
  show ?case by (rule execution_cases [OF assms(1), of m]) (use step.IH assms(3) in auto)
qed (rule assms(2))

lemma settles:
  fixes r :: "nat \<Rightarrow> nat"
  assumes "\<And>m. n \<le> m \<Longrightarrow> r (Suc m) \<le> r m"
  shows "\<exists>k \<ge> n. \<forall>m \<ge> k. r m = r k"
proof -
  obtain k where k: "n \<le> k" "\<And>m. n \<le> m \<Longrightarrow> r k \<le> r m"
    using ex_has_least_nat [of "\<lambda>m. n \<le> m" n r] by auto
  have "r m = r k" if "k \<le> m" for m
    using that
  proof (induction m rule: dec_induct)
    case (step m)
    with assms [of m] k(2) [of "Suc m"] k(1) show ?case by simp
  qed simp
  with k(1) show ?thesis by blast
qed

text \<open>
  A rank that no action raises and that one weakly fair action, possible for as long as the rank is not
  zero, lowers: it reaches zero and stays there.
\<close>

lemma reaches_zero:
  fixes r :: "'s \<Rightarrow> nat"
  assumes ex: "execution f \<sigma> \<alpha>" and wf: "weakly_fair f \<sigma> \<alpha> a" and n: "P (\<sigma> n)"
    and keep: "\<And>b y y'. P y \<Longrightarrow> f b y = Some y' \<Longrightarrow> P y' \<and> r y' \<le> r y"
    and down: "\<And>y. P y \<Longrightarrow> r y \<noteq> 0 \<Longrightarrow> \<exists>y'. f a y = Some y' \<and> r y' < r y"
  shows "\<exists>b \<ge> n. \<forall>m \<ge> b. P (\<sigma> m) \<and> r (\<sigma> m) = 0"
proof -
  have P: "P (\<sigma> m)" if "n \<le> m" for m
    using execution_stable [of f \<sigma> \<alpha> P n m] ex n that keep by blast
  have "r (\<sigma> (Suc m)) \<le> r (\<sigma> m)" if "n \<le> m" for m
    by (rule execution_cases [OF ex, of m]) (use keep [OF P [OF that]] in auto)
  then obtain b where b: "n \<le> b" "\<forall>m \<ge> b. r (\<sigma> m) = r (\<sigma> b)" using settles [of n "\<lambda>m. r (\<sigma> m)"] by blast
  have "r (\<sigma> b) = 0"
  proof (rule ccontr)
    assume "r (\<sigma> b) \<noteq> 0"
    with b(2) have pos: "r (\<sigma> m) \<noteq> 0" if "b \<le> m" for m using that by metis
    have "f a (\<sigma> m) \<noteq> None" if "b \<le> m" for m using down [OF P [OF le_trans [OF b(1) that]] pos [OF that]] by auto
    then obtain m where m: "b \<le> m" "\<alpha> m = Some a" using wf unfolding weakly_fair_def by blast
    have "n \<le> m" using b(1) m(1) by simp
    from down [OF P [OF this] pos [OF m(1)]] execution_step [OF ex m(2)] have "r (\<sigma> (Suc m)) < r (\<sigma> m)" by simp
    with b(2) m(1) show False by (metis le_SucI less_irrefl)
  qed
  with b(2) have "\<forall>m \<ge> b. r (\<sigma> m) = 0" by metis
  moreover have "\<forall>m \<ge> b. P (\<sigma> m)" using P b(1) by simp
  ultimately show ?thesis using b(1) by blast
qed

subsection \<open>The actions of the system\<close>

text \<open>A panic stops the process.\<close>

definition sys_act :: "kernel \<Rightarrow> runtime \<Rightarrow> bundles \<Rightarrow> Container list \<Rightarrow> act \<Rightarrow> sys \<Rightarrow> sys option" where
  "sys_act K rt bundles cs a y = (if s_panic (y_sup y) then None else step K rt bundles cs a y)"

lemma sys_act_step: "sys_act K rt bundles cs a y = Some y' \<Longrightarrow> sys_step K rt bundles cs y y'"
  by (auto simp: sys_act_def intro: sys_step.intros split: if_splits)

lemma reachable_act:
  "reachable K rt bundles cs y \<Longrightarrow> sys_act K rt bundles cs a y = Some y' \<Longrightarrow> reachable K rt bundles cs y'"
  unfolding reachable_def steps_def by (meson rtranclp.rtrancl_into_rtrancl sys_act_step)

lemma cons_keeps:
  "cons_step K rt bundles cs pc y = Some y' \<Longrightarrow>
   y_main y' = y_main y \<and> y_stop y' = y_stop y \<and> y_cancelled y' = y_cancelled y"
  by (cases "(K, rt, bundles, cs, pc, y)" rule: cons_step.cases)
    (auto simp: cons_start_def finish_def split: list.splits option.splits if_splits prod.splits)

lemma main_keeps:
  "main_step K rt bundles cs pc y = Some y' \<Longrightarrow> y_stop y' = y_stop y \<and> y_cancelled y' = y_cancelled y"
  by (cases "(K, rt, bundles, cs, pc, y)" rule: main_step.cases)
    (auto simp: main_start_def split: option.splits if_splits prod.splits)

fun_cases main_cancelledE: "main_cancelled cs pc y = Some u"
fun_cases stop_signalE: "stop_signal pc y = Some u"

lemma act_keeps:
  assumes "sys_act K rt bundles cs a y = Some y'"
  shows "a \<notin> {ASignal, AStop, ADeadline} \<Longrightarrow> y_stop y' = y_stop y \<and> y_cancelled y' = y_cancelled y"
    "a \<notin> {AMain, AMainCtx} \<Longrightarrow> y_main y' = y_main y"
  using assms
  by (cases a; auto simp: sys_act_def dest: cons_keeps main_keeps
      elim!: main_cancelledE stop_stepE stop_deadlineE stop_signalE split: if_splits)+

subsection \<open>Stop\<close>

text \<open>The rank of \<open>Stop\<close>: no action raises it, and only the polling keeps it.\<close>

fun stop_rank :: "stop_pc \<Rightarrow> nat" where
  "stop_rank PIdle = 0"
| "stop_rank (PTerm is ids) = length is + length ids + 4"
| "stop_rank (PPoll ids) = length ids + 3"
| "stop_rank (PSleep ids) = length ids + 3"
| "stop_rank (PKill is) = length is + 2"
| "stop_rank PCancel = 1"
| "stop_rank PDone = 0"

definition stopping :: "sys \<Rightarrow> bool" where
  "stopping y \<longleftrightarrow> y_stop y \<noteq> PIdle"

lemma stopping_keeps: "stopping y \<Longrightarrow> sys_act K rt bundles cs a y = Some y' \<Longrightarrow> stopping y'"
  using act_keeps(1) [of K rt bundles cs a y y']
  by (cases a) (auto simp: stopping_def sys_act_def elim!: stop_stepE stop_deadlineE stop_signalE split: if_splits)

lemma stop_rank_step:
  assumes "stopping y" "sys_act K rt bundles cs a y = Some y'"
  shows "stop_rank (y_stop y') \<le> stop_rank (y_stop y)"
    "a = ADeadline \<Longrightarrow> stop_rank (y_stop y') < stop_rank (y_stop y)"
    "a = AStop \<Longrightarrow> stop_rank (y_stop y') = stop_rank (y_stop y) \<Longrightarrow>
      \<exists>ids. y_stop y = PSleep ids \<or> y_stop y' = PSleep ids"
  using assms act_keeps(1) [OF assms(2)]
  by (cases a; auto simp: stopping_def sys_act_def elim!: stop_stepE stop_deadlineE stop_signalE split: if_splits)+

lemma stop_enabled: "stopping y \<Longrightarrow> y_stop y \<noteq> PDone \<Longrightarrow> \<not> s_panic (y_sup y) \<Longrightarrow>
  sys_act K rt bundles cs AStop y \<noteq> None"
  by (cases "(rt, y_stop y, y)" rule: stop_step.cases) (auto simp: stopping_def sys_act_def)

text \<open>A system under a fair scheduler.\<close>

definition fair_run ::
    "kernel \<Rightarrow> runtime \<Rightarrow> bundles \<Rightarrow> Container list \<Rightarrow> (nat \<Rightarrow> sys) \<Rightarrow> (nat \<Rightarrow> act option) \<Rightarrow> bool" where
  "fair_run K rt bundles cs \<sigma> \<alpha> \<longleftrightarrow>
     reachable K rt bundles cs (\<sigma> 0) \<and> execution (sys_act K rt bundles cs) \<sigma> \<alpha> \<and>
     weakly_fair (sys_act K rt bundles cs) \<sigma> \<alpha> AMain \<and>
     weakly_fair (sys_act K rt bundles cs) \<sigma> \<alpha> AMainCtx \<and>
     weakly_fair (sys_act K rt bundles cs) \<sigma> \<alpha> AStop \<and>
     strongly_fair (sys_act K rt bundles cs) \<sigma> \<alpha> ADeadline"

lemma fair_reachable: "fair_run K rt bundles cs \<sigma> \<alpha> \<Longrightarrow> reachable K rt bundles cs (\<sigma> n)"
  using execution_stable [of "sys_act K rt bundles cs" \<sigma> \<alpha> "reachable K rt bundles cs" 0 n] reachable_act
  by (auto simp: fair_run_def)

lemma fair_inv: "distinct (map c_ID cs) \<Longrightarrow> fair_run K rt bundles cs \<sigma> \<alpha> \<Longrightarrow> sys_inv cs (\<sigma> n)"
  by (rule inv_reachable [OF _ fair_reachable])

lemma fair_no_panic: "distinct (map c_ID cs) \<Longrightarrow> fair_run K rt bundles cs \<sigma> \<alpha> \<Longrightarrow> \<not> s_panic (y_sup (\<sigma> n))"
  using fair_inv [of cs K rt bundles \<sigma> \<alpha> n] by (simp add: sys_inv_def sup_ok_def)

lemma stop_finishes:
  assumes d: "distinct (map c_ID cs)" and fr: "fair_run K rt bundles cs \<sigma> \<alpha>" and n: "stopping (\<sigma> n)"
  shows "\<exists>m \<ge> n. y_stop (\<sigma> m) = PDone"
proof (rule ccontr)
  let ?f = "sys_act K rt bundles cs" let ?r = "\<lambda>m. stop_rank (y_stop (\<sigma> m))"
  assume "\<not> (\<exists>m \<ge> n. y_stop (\<sigma> m) = PDone)"
  then have nd: "y_stop (\<sigma> m) \<noteq> PDone" if "n \<le> m" for m using that by blast
  from fr have ex: "execution ?f \<sigma> \<alpha>" by (simp add: fair_run_def)
  have st: "stopping (\<sigma> m)" if "n \<le> m" for m
    using execution_stable [of ?f \<sigma> \<alpha> stopping n m] ex n that stopping_keeps by blast
  have "?r (Suc m) \<le> ?r m" if "n \<le> m" for m
    by (rule execution_cases [OF ex, of m]) (use stop_rank_step(1) [OF st [OF that]] in auto)
  then obtain k where k: "n \<le> k" "\<forall>m \<ge> k. ?r m = ?r k" using settles [of n ?r] by blast
  have same: "?r (Suc m) = ?r m" if "k \<le> m" for m using k(2) that by (metis le_SucI)
  have sleeps: "\<exists>l \<ge> m. ?f ADeadline (\<sigma> l) \<noteq> None" if m: "k \<le> m" for m
  proof -
    have "?f AStop (\<sigma> l) \<noteq> None" if "m \<le> l" for l
      using stop_enabled [of "\<sigma> l"] st nd fair_no_panic [OF d fr] that m k(1) by simp
    then obtain l where l: "m \<le> l" "\<alpha> l = Some AStop" using fr unfolding fair_run_def weakly_fair_def by blast
    from stop_rank_step(3) [OF st execution_step [OF ex l(2)]] same l(1) m k(1)
    obtain ids where "y_stop (\<sigma> l) = PSleep ids \<or> y_stop (\<sigma> (Suc l)) = PSleep ids" by auto
    then obtain l' where "m \<le> l'" "y_stop (\<sigma> l') = PSleep ids" using l(1) le_SucI by blast
    then show ?thesis using fair_no_panic [OF d fr] by (auto simp: sys_act_def)
  qed
  have "\<forall>m \<ge> k. \<exists>l \<ge> m. ?f ADeadline (\<sigma> l) \<noteq> None" using sleeps by blast
  then obtain m where m: "k \<le> m" "\<alpha> m = Some ADeadline" using fr unfolding fair_run_def strongly_fair_def by blast
  from stop_rank_step(2) [OF st execution_step [OF ex m(2)]] same [OF m(1)] m(1) k(1) show False by simp
qed

subsection \<open>Run\<close>

definition cancel_ok :: "sys \<Rightarrow> bool" where
  "cancel_ok y \<longleftrightarrow> (y_stop y = PDone \<longrightarrow> y_cancelled y)"

lemma cancel_ok_act: "cancel_ok y \<Longrightarrow> sys_act K rt bundles cs a y = Some y' \<Longrightarrow> cancel_ok y'"
  using act_keeps(1) [of K rt bundles cs a y y']
  by (cases a) (auto simp: cancel_ok_def sys_act_def elim!: stop_stepE stop_deadlineE stop_signalE split: if_splits)

lemma cancelled_act: "y_cancelled y \<Longrightarrow> sys_act K rt bundles cs a y = Some y' \<Longrightarrow> y_cancelled y'"
  using act_keeps(1) [of K rt bundles cs a y y']
  by (cases a) (auto simp: sys_act_def elim!: stop_stepE stop_deadlineE stop_signalE split: if_splits)

lemma cancel_ok_reachable: "reachable K rt bundles cs y \<Longrightarrow> cancel_ok y"
proof -
  have "steps K rt bundles cs x y \<Longrightarrow> cancel_ok x \<Longrightarrow> cancel_ok y" for x
    unfolding steps_def
    by (induction rule: rtranclp_induct) (auto elim!: sys_stepE intro: cancel_ok_act simp: sys_act_def)
  then show "reachable K rt bundles cs y \<Longrightarrow> cancel_ok y"
    by (auto simp: reachable_def cancel_ok_def initial_def)
qed

lemma wait_act:
  assumes "y_main y = MWait k" "k \<le> length cs" "sys_act K rt bundles cs a y = Some y'"
  shows "y_main y' = MWait k \<or> k < length cs \<and> y_main y' = MWait (Suc k) \<or> (\<exists>r. y_main y' = MReturned r)"
    "a = AMainCtx \<Longrightarrow> \<exists>r. y_main y' = MReturned r"
    "a = AMain \<Longrightarrow> k = length cs \<Longrightarrow> \<exists>r. y_main y' = MReturned r"
  using assms act_keeps(2) [OF assms(3)]
  by (cases a; auto simp: sys_act_def elim!: main_cancelledE split: if_splits option.splits)+

text \<open>
  While \<open>Run\<close> waits, some action of its goroutine, the same for as long as it waits for the same
  container, stays possible and moves it on: then it returns.
\<close>

lemma main_finishes:
  assumes d: "distinct (map c_ID cs)" and fr: "fair_run K rt bundles cs \<sigma> \<alpha>" and n: "y_main (\<sigma> n) = MWait k0"
    and g: "\<And>k. g k \<in> {AMain, AMainCtx}"
    and on: "\<And>k m. n \<le> m \<Longrightarrow> y_main (\<sigma> m) = MWait k \<Longrightarrow>
      \<exists>y'. sys_act K rt bundles cs (g k) (\<sigma> m) = Some y' \<and> y_main y' \<noteq> MWait k"
  shows "\<exists>m \<ge> n. \<exists>r. y_main (\<sigma> m) = MReturned r"
proof (rule ccontr)
  let ?f = "sys_act K rt bundles cs"
  assume "\<not> (\<exists>m \<ge> n. \<exists>r. y_main (\<sigma> m) = MReturned r)"
  then have nr: "y_main (\<sigma> m) \<noteq> MReturned r" if "n \<le> m" for m r using that by blast
  from fr have ex: "execution ?f \<sigma> \<alpha>" by (simp add: fair_run_def)
  have len: "k \<le> length cs" if "y_main (\<sigma> m) = MWait k" for m k
    using fair_inv [OF d fr, of m] that by (simp add: sys_inv_def main_inv_def)
  have w: "\<exists>k. y_main (\<sigma> m) = MWait k" if "n \<le> m" for m
    using that
  proof (induction m rule: dec_induct)
    case (step m)
    then obtain k where k: "y_main (\<sigma> m) = MWait k" by blast
    show ?case
      by (rule execution_cases [OF ex, of m])
        (use k wait_act(1) [OF k len [OF k]] nr [of "Suc m"] step.hyps in fastforce)+
  qed (use n in blast)
  define r where "r m = length cs - (THE k. y_main (\<sigma> m) = MWait k)" for m
  have r: "r m = length cs - k" if "y_main (\<sigma> m) = MWait k" for m k
    using that by (simp add: r_def)
  have "r (Suc m) \<le> r m" if m: "n \<le> m" for m
  proof -
    obtain k where k: "y_main (\<sigma> m) = MWait k" using w [OF m] by blast
    show ?thesis
      by (rule execution_cases [OF ex, of m])
        (use k r wait_act(1) [OF k len [OF k]] nr [of "Suc m"] m in \<open>fastforce simp: r_def\<close>)+
  qed
  then obtain b where b: "n \<le> b" "\<forall>m \<ge> b. r m = r b" using settles [of n r] by blast
  obtain k where k: "y_main (\<sigma> b) = MWait k" using w [OF b(1)] by blast
  have stay: "y_main (\<sigma> m) = MWait k" if m: "b \<le> m" for m
  proof -
    obtain j where j: "y_main (\<sigma> m) = MWait j" using w m b(1) by (meson le_trans)
    with b(2) m r [OF j] r [OF k] len [OF j] len [OF k] show ?thesis by auto
  qed
  have "?f (g k) (\<sigma> m) \<noteq> None" if "b \<le> m" for m using on [OF _ stay [OF that]] that b(1) by fastforce
  moreover have "weakly_fair ?f \<sigma> \<alpha> (g k)" using fr g [of k] by (auto simp: fair_run_def)
  ultimately obtain m where m: "b \<le> m" "\<alpha> m = Some (g k)" unfolding weakly_fair_def by blast
  from on [OF _ stay [OF m(1)]] execution_step [OF ex m(2)] m(1) b(1) have "y_main (\<sigma> (Suc m)) \<noteq> MWait k" by simp
  with stay [of "Suc m"] m(1) show False by simp
qed

lemma run_finishes:
  assumes d: "distinct (map c_ID cs)" and fr: "fair_run K rt bundles cs \<sigma> \<alpha>" and n: "y_main (\<sigma> n) = MWait k0"
    and c: "y_cancelled (\<sigma> n)"
  shows "\<exists>m \<ge> n. \<exists>r. y_main (\<sigma> m) = MReturned r"
proof (rule main_finishes [OF d fr n, of "\<lambda>k. if k < length cs then AMainCtx else AMain"])
  fix k m assume m: "n \<le> m" "y_main (\<sigma> m) = MWait k"
  from fr have "execution (sys_act K rt bundles cs) \<sigma> \<alpha>" by (simp add: fair_run_def)
  with execution_stable [of "sys_act K rt bundles cs" \<sigma> \<alpha> y_cancelled n m] c cancelled_act m(1)
  have "y_cancelled (\<sigma> m)" by blast
  with m(2) fair_no_panic [OF d fr, of m]
  show "\<exists>y'. sys_act K rt bundles cs (if k < length cs then AMainCtx else AMain) (\<sigma> m) = Some y' \<and>
    y_main y' \<noteq> MWait k" by (simp add: sys_act_def)
qed simp

lemma waiting_act:
  assumes "(\<exists>k \<le> length cs. y_main y = MWait k) \<or> (\<exists>r. y_main y = MReturned r)"
    and "sys_act K rt bundles cs a y = Some y'"
  shows "(\<exists>k \<le> length cs. y_main y' = MWait k) \<or> (\<exists>r. y_main y' = MReturned r)"
  using assms(1)
proof (elim disjE exE conjE)
  fix k assume "k \<le> length cs" "y_main y = MWait k"
  with wait_act(1) [OF this(2,1) assms(2)] show ?thesis by (auto simp: Suc_le_eq)
next
  fix r assume "y_main y = MReturned r"
  with assms(2) act_keeps(2) [OF assms(2)] show ?thesis
    by (cases a) (auto simp: sys_act_def split: if_splits)
qed

lemma returned_act: "\<exists>r. y_main y = MReturned r \<Longrightarrow> sys_act K rt bundles cs a y = Some y' \<Longrightarrow>
  \<exists>r. y_main y' = MReturned r"
  using act_keeps(2) [of K rt bundles cs a y y'] by (cases a) (auto simp: sys_act_def split: if_splits)

lemma done_act: "y_stop y = PDone \<Longrightarrow> sys_act K rt bundles cs a y = Some y' \<Longrightarrow> y_stop y' = PDone"
  using act_keeps(1) [of K rt bundles cs a y y'] by (cases a) (auto simp: sys_act_def split: if_splits)

lemma shutdown_done:
  assumes "distinct (map c_ID cs)" "fair_run K rt bundles cs \<sigma> \<alpha>"
    and "y_main (\<sigma> n) = MWait k" "y_stop (\<sigma> n) \<noteq> PIdle"
  shows "\<exists>m \<ge> n. \<exists>r. y_stop (\<sigma> m) = PDone \<and> y_main (\<sigma> m) = MReturned r \<and> \<not> s_panic (y_sup (\<sigma> m))"
proof -
  let ?f = "sys_act K rt bundles cs"
  from assms(2) have ex: "execution ?f \<sigma> \<alpha>" by (simp add: fair_run_def)
  obtain p where p: "n \<le> p" "y_stop (\<sigma> p) = PDone"
    using stop_finishes [OF assms(1,2)] assms(4) unfolding stopping_def by blast
  have c: "y_cancelled (\<sigma> p)"
    using cancel_ok_reachable [OF fair_reachable [OF assms(2)], of p] p(2) by (simp add: cancel_ok_def)
  have "k \<le> length cs" using fair_inv [OF assms(1,2), of n] assms(3) by (simp add: sys_inv_def main_inv_def)
  with execution_stable [of ?f \<sigma> \<alpha> "\<lambda>y. (\<exists>k \<le> length cs. y_main y = MWait k) \<or> (\<exists>r. y_main y = MReturned r)" n p]
    ex assms(3) waiting_act p(1)
  have "(\<exists>k. y_main (\<sigma> p) = MWait k) \<or> (\<exists>r. y_main (\<sigma> p) = MReturned r)" by blast
  then obtain m r where m: "p \<le> m" "y_main (\<sigma> m) = MReturned r"
    using run_finishes [OF assms(1,2) _ c] by blast
  from execution_stable [of ?f \<sigma> \<alpha> "\<lambda>y. y_stop y = PDone" p m] ex p(2) done_act m(1)
  have "y_stop (\<sigma> m) = PDone" by blast
  with m p(1) fair_no_panic [OF assms(1,2)] show ?thesis by (meson le_trans)
qed

text \<open>
  Shutdown under a fair scheduler: in every infinite execution that is weakly fair to \<open>Run\<close> and \<open>Stop\<close>
  and strongly fair to the deadline, once the signal was received while \<open>Run\<close> waits or comes to wait,
  \<open>Stop\<close> returns and \<open>Run\<close> returns, whatever the children, the runtime and the other goroutines do, and
  no goroutine has panicked by then.
\<close>

theorem shutdown_live:
  assumes "distinct (map c_ID cs)" "fair_run K rt bundles cs \<sigma> \<alpha>"
    and "y_main (\<sigma> n) = MWait k" "y_stop (\<sigma> n) \<noteq> PIdle"
  shows "\<exists>m \<ge> n. \<exists>r. y_stop (\<sigma> m) = PDone \<and> y_main (\<sigma> m) = MReturned r \<and> \<not> s_panic (y_sup (\<sigma> m))"
  using shutdown_done [OF assms] .

subsection \<open>A fair execution\<close>

text \<open>The execution that runs a list of actions and then stutters.\<close>

definition list_states :: "('a list \<Rightarrow> 's option) \<Rightarrow> 'a list \<Rightarrow> nat \<Rightarrow> 's" where
  "list_states f as n = the (f (take n as))"

definition list_acts :: "'a list \<Rightarrow> nat \<Rightarrow> 'a option" where
  "list_acts as n = (if n < length as then Some (as ! n) else None)"

lemma list_execution:
  assumes "run_acts K rt bundles cs as y = Some y'"
  shows "execution (sys_act K rt bundles cs) (list_states (\<lambda>as. run_acts K rt bundles cs as y) as) (list_acts as)"
    "length as \<le> n \<Longrightarrow> list_states (\<lambda>as. run_acts K rt bundles cs as y) as n = y'"
proof -
  let ?run = "\<lambda>as. run_acts K rt bundles cs as y"
  have "sys_act K rt bundles cs (as ! n) (the (?run (take n as))) = Some (the (?run (take (Suc n) as)))"
    if n: "n < length as" for n
  proof -
    have "run_acts K rt bundles cs (take n as @ as ! n # drop (Suc n) as) y = Some y'"
      using assms n by (simp only: id_take_nth_drop [symmetric])
    then obtain u where u: "?run (take n as) = Some u" "run_acts K rt bundles cs (as ! n # drop (Suc n) as) u = Some y'"
      unfolding run_acts_append bind_eq_Some_conv by blast
    then obtain v where "sys_act K rt bundles cs (as ! n) u = Some v" "run_acts K rt bundles cs [as ! n] u = Some v"
      by (auto simp: sys_act_def split: if_splits option.splits)
    with u(1) n show ?thesis by (simp add: take_Suc_conv_app_nth run_acts_append)
  qed
  then show "execution (sys_act K rt bundles cs) (list_states ?run as) (list_acts as)"
    by (auto simp: execution_def list_states_def list_acts_def)
qed (use assms in \<open>simp add: list_states_def\<close>)

lemma ended_fair:
  assumes "\<forall>n \<ge> N. \<sigma> n = y" "f a y = None"
  shows "weakly_fair f \<sigma> \<alpha> a \<and> strongly_fair f \<sigma> \<alpha> a"
proof -
  have "f a (\<sigma> l) = None" if "max n N \<le> l" for n l using assms that by simp
  then show ?thesis unfolding weakly_fair_def strongly_fair_def
    by (meson max.cobounded1 max.cobounded2 order_refl order_trans)
qed

definition shutdown_acts :: "act list" where
  "shutdown_acts = [ASignal, AStop, AStop, AStop, ADeadline, AStop, AStop, AStop, AMainCtx]"

theorem shutdown_live_witness:
  "\<exists>\<sigma> \<alpha> m r. fair_run (kernel_with (\<lambda>_. None)) (rt_fixed 7) [(''web'', ''/b/web'')] [web RestartAlways] \<sigma> \<alpha> \<and>
    y_stop (\<sigma> 0) = PIdle \<and> y_stop (\<sigma> m) = PDone \<and> y_main (\<sigma> m) = MReturned r"
proof -
  let ?K = "kernel_with (\<lambda>_. None)" let ?f = "sys_act ?K (rt_fixed 7) [(''web'', ''/b/web'')] [web RestartAlways]"
  obtain y where y: "run_web RestartAlways start_acts = Some y" "y_main y = MWait 0" "y_stop y = PIdle"
    "y_sup y = one_running RestartAlways" by (simp add: web_started)
  have "\<exists>y' r. run_acts ?K (rt_fixed 7) [(''web'', ''/b/web'')] [web RestartAlways] shutdown_acts y = Some y' \<and>
    y_main y' = MReturned r \<and> y_stop y' = PDone"
    using y(2-4) by (simp add: shutdown_acts_def) (simp add: one_running_def mark_stopped_def stop_ids_def
      allExited_def rt_fixed_def)
  then obtain y' r where y': "run_acts ?K (rt_fixed 7) [(''web'', ''/b/web'')] [web RestartAlways] shutdown_acts y = Some y'"
    "y_main y' = MReturned r" "y_stop y' = PDone" by blast
  define \<sigma> where "\<sigma> = list_states (\<lambda>as. run_acts ?K (rt_fixed 7) [(''web'', ''/b/web'')] [web RestartAlways] as y) shutdown_acts"
  have ex: "execution ?f \<sigma> (list_acts shutdown_acts)" and e: "\<And>n. 9 \<le> n \<Longrightarrow> \<sigma> n = y'"
    using list_execution [OF y'(1)] by (simp_all add: \<sigma>_def shutdown_acts_def)
  have z: "\<sigma> 0 = y" "y_main (\<sigma> 1) = MWait 0" "y_stop (\<sigma> 1) \<noteq> PIdle"
    using y(2-4) by (simp_all add: \<sigma>_def list_states_def shutdown_acts_def) (simp_all add: one_running_def)
  have off: "?f a y' = None" if "a \<in> {AMain, AMainCtx, AStop, ADeadline}" for a
    using that y'(2,3) by (auto simp: sys_act_def)
  have "weakly_fair ?f \<sigma> (list_acts shutdown_acts) a \<and> strongly_fair ?f \<sigma> (list_acts shutdown_acts) a"
    if "a \<in> {AMain, AMainCtx, AStop, ADeadline}" for a
    by (rule ended_fair [of 9 _ y']) (use e off [OF that] in simp_all)
  moreover have "reachable ?K (rt_fixed 7) [(''web'', ''/b/web'')] [web RestartAlways] (\<sigma> 0)"
    using z(1) web_reachable [of RestartAlways "[]"] y(1) by simp
  ultimately have fr: "fair_run ?K (rt_fixed 7) [(''web'', ''/b/web'')] [web RestartAlways] \<sigma> (list_acts shutdown_acts)"
    using ex by (simp add: fair_run_def)
  have d: "distinct (map c_ID [web RestartAlways])" by simp
  from shutdown_live [OF d fr z(2,3)] fr z(1) y(3) show ?thesis by metis
qed

end
