(* ===== verification/Fair_Completion.thy ===== *)
theory Fair_Completion
  imports Fair_Shutdown
begin

text \<open>
  The end of a pod under a fair scheduler: when the last exit of every container waits in the queue, the
  consumer, scheduled weakly fairly, marks each of them as done, and \<open>Run\<close> returns.
\<close>

subsection \<open>Containers on their way out\<close>

text \<open>
  The next event the consumer will correlate to container \<open>i\<close>, in the queue or already taken from it, does
  not call for a restart.
\<close>

definition mine :: "sys \<Rightarrow> string \<Rightarrow> Reaped \<Rightarrow> bool" where
  "mine y i ev \<longleftrightarrow> tracked (y_sup y) (rp_PID ev) = Some i"

definition leaving :: "sys \<Rightarrow> string \<Rightarrow> bool" where
  "leaving y i \<longleftrightarrow> is_done (y_sup y) i \<or>
     (\<exists>st ev. state_of (y_sup y) i = Some st \<and> \<not> shouldRestart st ev \<and>
       (y_cons y = CDelete i ev \<or> y_cons y = CDecide i ev \<or>
        y_cons y \<noteq> CNone \<and> y_cons y \<noteq> CExit \<and> find (mine y i) (y_chan y) = Some ev))"

text \<open>How many steps of the consumer lie before the container is done, at most.\<close>

fun phase :: "cons_pc \<Rightarrow> nat" where
  "phase (CDelete i ev) = 2"
| "phase (CDecide i ev) = 1"
| "phase (CStart c pc) = 1"
| "phase _ = 0"

definition rank :: "sys \<Rightarrow> string \<Rightarrow> nat" where
  "rank y i =
     (if is_done (y_sup y) i then 0
      else if active (y_cons y) = Some i then phase (y_cons y)
      else 3 * Suc (length (takeWhile (\<lambda>ev. \<not> mine y i ev) (y_chan y))) + phase (y_cons y))"

lemma restart_exit [simp]: "shouldRestart (st\<lparr>st_lastExit := x\<rparr>) ev = shouldRestart st ev"
  by (simp add: shouldRestart_def)

lemma leaving_cong:
  assumes "y_sup y' = y_sup y" "y_chan y' = y_chan y" "y_cons y' = y_cons y"
  shows "leaving y' i = leaving y i" "rank y' i = rank y i"
proof -
  have "mine y' i = mine y i" by (simp add: mine_def assms(1) fun_eq_iff)
  then show "leaving y' i = leaving y i" "rank y' i = rank y i" unfolding leaving_def rank_def assms by simp_all
qed

lemma find_append_Some: "find P xs = Some x \<Longrightarrow> find P (xs @ ys) = Some x"
  by (induction xs) (auto split: if_splits)

lemma takeWhile_find: "find P xs = Some x \<Longrightarrow>
  takeWhile (\<lambda>x. \<not> P x) (xs @ ys) = takeWhile (\<lambda>x. \<not> P x) xs"
  by (induction xs) (auto split: if_splits)

lemma leaving_publish:
  assumes "leaving y i" "y' = y\<lparr>y_chan := publish (y_chan y) ev\<rparr>" "cons_inv cs y"
  shows "leaving y' i \<and> rank y' i \<le> rank y i"
proof -
  have m: "mine y' i = mine y i" by (simp add: mine_def assms(2) fun_eq_iff)
  show ?thesis
  proof (cases "find (mine y i) (y_chan y)")
    case None
    with assms(1) m show ?thesis by (auto simp: leaving_def rank_def assms(2))
  next
    case (Some x)
    then have "find (mine y i) (y_chan y') = Some x"
      "takeWhile (\<lambda>ev. \<not> mine y i ev) (y_chan y') = takeWhile (\<lambda>ev. \<not> mine y i ev) (y_chan y)"
      by (simp_all add: assms(2) publish_def find_append_Some takeWhile_find)
    with Some assms(1) m show ?thesis by (auto simp: leaving_def rank_def) (auto simp: assms(2))
  qed
qed

lemma leaving_signal:
  assumes "leaving y i" "y_sup y' = mark_stopped (y_sup y)" "y_chan y' = y_chan y" "y_cons y' = y_cons y"
  shows "leaving y' i \<and> rank y' i \<le> rank y i"
proof -
  have "mine y' i = mine y i" by (simp add: mine_def assms(2) fun_eq_iff)
  with assms(1) show ?thesis unfolding leaving_def rank_def assms(2-4)
    by (auto simp: mark_views(2) shouldRestart_def)
qed

subsection \<open>The consumer\<close>

text \<open>The consumer can only be at the end of a container that leaves, never at its restart.\<close>

lemma leaving_active:
  assumes "leaving y i" "cons_inv cs y" "active (y_cons y) = Some i"
  obtains st ev where "y_cons y = CDelete i ev \<or> y_cons y = CDecide i ev" "state_of (y_sup y) i = Some st"
    "\<not> st_done st" "\<not> shouldRestart st ev"
proof -
  from assms(2,3) obtain st where e: "state_of (y_sup y) i = Some st" "\<not> st_done st"
    "\<And>p. tracked (y_sup y) p \<noteq> Some i" by (auto simp: cons_inv_def exited_pending_def untracked_def)
  then have "find (mine y i) (y_chan y) = None" by (simp add: find_None_iff mine_def)
  with assms(1) e(1,2) show thesis by (auto simp: leaving_def is_done_def intro: that)
qed

lemma leaving_recv:
  assumes l: "leaving y i" and inv: "sys_inv cs y" and c: "y_cons y = CRecv" "y_chan y = ev # evs"
    and st: "cons_step K rt bundles cs CRecv y = Some y'"
  shows "leaving y' i \<and> (rank y i = 0 \<and> rank y' i = 0 \<or> rank y' i < rank y i)"
proof (cases "tracked (y_sup y) (rp_PID ev)")
  case None
  then have y': "y' = y\<lparr>y_chan := evs\<rparr>" "\<not> mine y i ev" "mine y' i = mine y i" using st c by (auto simp: mine_def fun_eq_iff)
  from l c show ?thesis using y'(2) unfolding leaving_def rank_def y'(3) by (auto simp: y'(1))
next
  case (Some j)
  then obtain t where t: "state_of (y_sup y) j = Some t" "\<not> st_done t" using inv unfolding sys_inv_def sup_ok_def by blast
  have y': "y' = y\<lparr>y_chan := evs, y_sup := register_exit j ev (y_sup y), y_cons := CDelete j ev\<rparr>"
    using Some st c by simp
  note v = exit_views(2) [OF t(1), of ev]
  show ?thesis
  proof (cases "j = i")
    case True
    with l c Some t have f: "\<not> shouldRestart t ev" by (auto simp: leaving_def is_done_def mine_def)
    with True t have "leaving y' i" by (auto simp: leaving_def y')
    moreover have "rank y' i < rank y i" using True t Some c v by (simp add: rank_def y' is_done_def mine_def)
    ultimately show ?thesis by blast
  next
    case False
    then have m: "mine y' i = mine y i" "\<not> mine y i ev" using Some t by (auto simp: mine_def y' fun_eq_iff)
    with False t l c v have "leaving y' i" by (auto simp: leaving_def y')
    moreover have "rank y i = 0 \<and> rank y' i = 0 \<or> rank y' i < rank y i"
      using False m c v unfolding rank_def m(1) by (simp add: y')
    ultimately show ?thesis by blast
  qed
qed

lemma leaving_finish:
  assumes "leaving y i" "state_of (y_sup y) j = Some t" "\<not> st_done t" "y_cons y = CDecide j ev"
  shows "leaving (finish j y) i \<and> (rank y i = 0 \<and> rank (finish j y) i = 0 \<or> rank (finish j y) i < rank y i)"
proof -
  note c = close_done_simps [OF assms(2,3)]
  have m: "mine (finish j y) i = mine y i" using c(2) by (simp add: mine_def finish_def fun_eq_iff)
  have d: "is_done (y_sup (finish j y)) i \<longleftrightarrow> i = j \<or> is_done (y_sup y) i"
    using c(1) by (simp add: is_done_def finish_def)
  show ?thesis
  proof (cases "i = j")
    case True
    with assms d show ?thesis by (auto simp: leaving_def rank_def is_done_def)
  next
    case False
    with assms(1,4) c(1) m d have "leaving (finish j y) i" by (auto simp: leaving_def finish_def)
    moreover have "rank y i = 0 \<and> rank (finish j y) i = 0 \<or> rank (finish j y) i < rank y i"
      using False assms(4) unfolding rank_def m d by (simp add: finish_def)
    ultimately show ?thesis by blast
  qed
qed

text \<open>When all containers leave, the consumer is at work on a container only after its exit.\<close>

lemma all_leaving_active:
  assumes "\<forall>j \<in> dom (state_of (y_sup y)). leaving y j" "sys_inv cs y" "active (y_cons y) = Some j"
  shows "\<exists>ev t. (y_cons y = CDelete j ev \<or> y_cons y = CDecide j ev) \<and> state_of (y_sup y) j = Some t \<and>
    \<not> st_done t \<and> \<not> shouldRestart t ev"
proof -
  have ci: "cons_inv cs y" using assms(2) by (simp add: sys_inv_def)
  with assms(3) have "j \<in> dom (state_of (y_sup y))" by (auto simp: cons_inv_def exited_pending_def)
  with assms(1) have "leaving y j" by blast
  from leaving_active [OF this ci assms(3)] show ?thesis by metis
qed

lemma leaving_pc:
  assumes "leaving y i" "y' = y\<lparr>y_trace := tr', y_cons := pc\<rparr>"
    and "y_cons y = CDelete j ev \<and> pc = CDecide j ev \<or> y_cons y = CStart c (SPEnd None) \<and> pc = CRecv"
  shows "leaving y' i \<and> (rank y i = 0 \<and> rank y' i = 0 \<or> rank y' i < rank y i)"
proof -
  have m: "mine y' i = mine y i" by (simp add: assms(2) mine_def fun_eq_iff)
  have "leaving y' i" using assms(1,3) m by (auto simp: leaving_def assms(2))
  moreover have "rank y i = 0 \<and> rank y' i = 0 \<or> rank y' i < rank y i"
    unfolding rank_def m using assms(3) by (auto simp: assms(2))
  ultimately show ?thesis by blast
qed

lemma leaving_cons:
  assumes l: "leaving y i" and all: "\<forall>j \<in> dom (state_of (y_sup y)). leaving y j" and inv: "sys_inv cs y"
    and st: "cons_step K rt bundles cs (y_cons y) y = Some y'"
  shows "leaving y' i \<and> (rank y i = 0 \<and> rank y' i = 0 \<or> rank y' i < rank y i)"
proof (cases "y_cons y")
  case CRecv
  show ?thesis
  proof (cases "y_chan y")
    case Nil
    with l CRecv have "is_done (y_sup y) i" by (simp add: leaving_def)
    with st CRecv Nil show ?thesis by (auto simp: leaving_def rank_def split: if_splits)
  next
    case (Cons ev evs)
    with leaving_recv [OF l inv CRecv Cons] st CRecv show ?thesis by simp
  qed
next
  case (CDelete j ev)
  with st leaving_pc [OF l refl, where pc = "CDecide j ev"] show ?thesis by auto
next
  case (CDecide j ev)
  with all_leaving_active [OF all inv, of j] obtain t where t: "state_of (y_sup y) j = Some t" "\<not> st_done t"
    "\<not> shouldRestart t ev" by auto
  with st CDecide have "y' = finish j y" by simp
  with leaving_finish [OF l t(1,2) CDecide] show ?thesis by simp
next
  case (CStart c pc)
  have p: "pc = SPEnd None"
  proof (rule ccontr)
    assume "pc \<noteq> SPEnd None"
    with CStart all_leaving_active [OF all inv, of "c_ID c"] show False by simp
  qed
  then have "y' = y\<lparr>y_trace := y_trace y, y_cons := CRecv\<rparr>" using st CStart by simp
  from leaving_pc [OF l this] CStart p show ?thesis by blast
qed (use st in simp_all)

subsection \<open>Every action\<close>

text \<open>\<open>Run\<close> waits or has returned, and every container of the pod is on its way out.\<close>

fun run_waits :: "nat \<Rightarrow> bool \<Rightarrow> main_pc \<Rightarrow> bool" where
  "run_waits n cancelled (MWait k) = (k \<le> n)"
| "run_waits n cancelled (MReturned None) = True"
| "run_waits n cancelled (MReturned (Some e)) = cancelled"
| "run_waits n cancelled _ = False"

definition ending :: "Container list \<Rightarrow> sys \<Rightarrow> bool" where
  "ending cs y \<longleftrightarrow> sys_inv cs y \<and> y_cons y \<noteq> CNone \<and>
     run_waits (length cs) (y_cancelled y) (y_main y) \<and> (\<forall>c \<in> set cs. leaving y (c_ID c))"

lemma ending_dom: "ending cs y \<Longrightarrow> dom (state_of (y_sup y)) = c_ID ` set cs"
  by (simp add: ending_def sys_inv_def cons_inv_def)

lemma ending_main:
  assumes "ending cs y" "sys_act K rt bundles cs a y = Some y'" "a \<in> {AMain, AMainCtx}"
  shows "(\<exists>pc. y' = y\<lparr>y_main := pc\<rparr>) \<and> run_waits (length cs) (y_cancelled y') (y_main y')"
proof -
  have st: "\<not> s_panic (y_sup y)" "step K rt bundles cs a y = Some y'"
    using assms(2) by (auto simp: sys_act_def split: if_splits)
  have w: "run_waits (length cs) (y_cancelled y) (y_main y)" using assms(1) by (simp add: ending_def)
  show ?thesis
  proof (cases "y_main y")
    case (MWait k)
    have "state_of (y_sup y) (c_ID (cs ! k)) \<noteq> None" if "k < length cs"
      using ending_dom [OF assms(1)] that by (metis domIff imageI nth_mem)
    with MWait w st(2) assms(3) show ?thesis by (cases "k < length cs") (auto split: option.splits if_splits)
  qed (use st(2) w assms(3) in auto)
qed

lemma ending_act:
  assumes e: "ending cs y" and d: "distinct (map c_ID cs)" and st: "sys_act K rt bundles cs a y = Some y'"
    and c: "c \<in> set cs"
  shows "leaving y' (c_ID c) \<and> rank y' (c_ID c) \<le> rank y (c_ID c) \<and>
    (a = ACons \<longrightarrow> rank y (c_ID c) = 0 \<and> rank y' (c_ID c) = 0 \<or> rank y' (c_ID c) < rank y (c_ID c))"
proof -
  let ?i = "c_ID c"
  from e have inv: "sys_inv cs y" and l: "leaving y ?i" and ci: "cons_inv cs y"
    and all: "\<forall>j \<in> dom (state_of (y_sup y)). leaving y j"
    using c ending_dom [OF e] by (auto simp: ending_def sys_inv_def)
  have keep: ?thesis if "a \<noteq> ACons" "y_sup y' = y_sup y" "y_chan y' = y_chan y" "y_cons y' = y_cons y"
    using leaving_cong [OF that(2-4), of ?i] l that(1) by simp
  show ?thesis
  proof (cases a)
    case AMain
    with ending_main [OF e st] keep show ?thesis by fastforce
  next
    case AMainCtx
    with ending_main [OF e st] keep show ?thesis by fastforce
  next
    case ACons
    with st have "cons_step K rt bundles cs (y_cons y) y = Some y'" by (auto simp: sys_act_def split: if_splits)
    from leaving_cons [OF l all inv this] show ?thesis by auto
  next
    case (AReap ev)
    with st have "y' = y\<lparr>y_chan := publish (y_chan y) ev\<rparr>" by (auto simp: sys_act_def split: if_splits)
    from leaving_publish [OF l this ci] AReap show ?thesis by simp
  next
    case ASignal
    with st have "y_sup y' = mark_stopped (y_sup y) \<and> y_chan y' = y_chan y \<and> y_cons y' = y_cons y"
      by (auto simp: sys_act_def elim!: stop_signalE split: if_splits)
    with leaving_signal [OF l] ASignal show ?thesis by simp
  qed (rule keep; use st in \<open>auto simp: sys_act_def elim!: stop_stepE stop_deadlineE split: if_splits\<close>)+
qed

lemma cons_stays:
  "cons_step K rt bundles cs pc y = Some y' \<Longrightarrow> y_cons y \<noteq> CNone \<Longrightarrow> y_cons y' \<noteq> CNone"
  by (cases "(K, rt, bundles, cs, pc, y)" rule: cons_step.cases)
    (auto simp: cons_start_def finish_def split: list.splits option.splits if_splits prod.splits)

lemma ending_keeps:
  assumes e: "ending cs y" and d: "distinct (map c_ID cs)" and st: "sys_act K rt bundles cs a y = Some y'"
  shows "ending cs y'"
proof -
  have "sys_inv cs y'"
    using e st inv_step [OF d] by (auto simp: ending_def sys_act_def split: if_splits)
  moreover have "\<forall>c \<in> set cs. leaving y' (c_ID c)" using ending_act [OF e d st] by blast
  moreover have "y_cons y' \<noteq> CNone"
    using e st ending_main [OF e st]
    by (cases a) (auto simp: ending_def sys_act_def dest: cons_stays
      elim!: stop_stepE stop_deadlineE stop_signalE split: if_splits)
  moreover have "run_waits (length cs) (y_cancelled y') (y_main y')"
  proof (cases "a \<in> {AMain, AMainCtx}")
    case True
    with ending_main [OF e st] show ?thesis by blast
  next
    case False
    have "y_cancelled y \<Longrightarrow> y_cancelled y'" using cancelled_act st by blast
    moreover have "y_main y' = y_main y" using act_keeps(2) [OF st] False by blast
    ultimately show ?thesis using e by (cases "(length cs, y_cancelled y, y_main y)" rule: run_waits.cases) (auto simp: ending_def)
  qed
  ultimately show ?thesis by (simp add: ending_def)
qed

subsection \<open>Progress\<close>

lemma rank_0: "rank y i = 0 \<longleftrightarrow> is_done (y_sup y) i"
  by (cases "y_cons y") (auto simp: rank_def split: if_splits)

lemma consumer_enabled:
  assumes "ending cs y" "c \<in> set cs" "\<not> is_done (y_sup y) (c_ID c)"
  shows "sys_act K rt bundles cs ACons y \<noteq> None"
proof -
  have l: "leaving y (c_ID c)" "\<not> s_panic (y_sup y)" "y_cons y \<noteq> CNone"
    using assms(1,2) by (auto simp: ending_def sys_inv_def sup_ok_def)
  show ?thesis
  proof (cases "y_cons y")
    case CRecv
    with l(1) assms(3) obtain ev where "find (mine y (c_ID c)) (y_chan y) = Some ev" by (auto simp: leaving_def)
    then obtain e es where "y_chan y = e # es" by (cases "y_chan y") auto
    with CRecv l(2) show ?thesis by (simp add: sys_act_def split: option.splits)
  next
    case (CStart d pc)
    with l(2) show ?thesis by (cases pc) (auto simp: sys_act_def)
  next
    case CExit
    with l(1) assms(3) show ?thesis by (auto simp: leaving_def)
  qed (use l in \<open>auto simp: sys_act_def split: option.splits\<close>)
qed

lemma sum_list_less:
  fixes f g :: "'a \<Rightarrow> nat"
  shows "\<forall>x \<in> set xs. f x \<le> g x \<Longrightarrow> \<exists>x \<in> set xs. f x < g x \<Longrightarrow> sum_list (map f xs) < sum_list (map g xs)"
proof (induction xs)
  case (Cons x xs)
  have "sum_list (map f xs) \<le> sum_list (map g xs)" using Cons.prems(1) by (intro sum_list_mono) simp
  with Cons show ?case by (cases "f x < g x") force+
qed simp

lemma all_done_eventually:
  assumes d: "distinct (map c_ID cs)" and fr: "fair_run K rt bundles cs \<sigma> \<alpha>"
    and wf: "weakly_fair (sys_act K rt bundles cs) \<sigma> \<alpha> ACons" and n: "ending cs (\<sigma> n)"
  shows "\<exists>b \<ge> n. \<forall>m \<ge> b. \<forall>c \<in> set cs. is_done (y_sup (\<sigma> m)) (c_ID c)"
proof -
  let ?f = "sys_act K rt bundles cs" let ?r = "\<lambda>y. \<Sum>c \<leftarrow> cs. rank y (c_ID c)"
  have ex: "execution ?f \<sigma> \<alpha>" using fr by (simp add: fair_run_def)
  have "\<exists>b \<ge> n. \<forall>m \<ge> b. ending cs (\<sigma> m) \<and> ?r (\<sigma> m) = 0"
  proof (rule reaches_zero [of ?f \<sigma> \<alpha> ACons "ending cs", OF ex wf n])
    fix a y y' assume y: "ending cs y" "?f a y = Some y'"
    with ending_keeps [OF y(1) d] ending_act [OF y(1) d y(2)] show "ending cs y' \<and> ?r y' \<le> ?r y"
      by (auto intro: sum_list_mono)
  next
    fix y assume y: "ending cs y" "?r y \<noteq> 0"
    then obtain c where c: "c \<in> set cs" "rank y (c_ID c) \<noteq> 0" by auto
    then have "\<not> is_done (y_sup y) (c_ID c)" by (simp add: rank_0)
    with consumer_enabled [OF y(1) c(1)] obtain y' where y': "?f ACons y = Some y'" by blast
    note e = ending_act [OF y(1) d y']
    have "rank y' (c_ID c) < rank y (c_ID c)" using e [OF c(1)] c(2) by auto
    with c(1) e have "?r y' < ?r y" by (intro sum_list_less) blast+
    with y' show "\<exists>y'. ?f ACons y = Some y' \<and> ?r y' < ?r y" by blast
  qed
  then show ?thesis using rank_0 by auto
qed

lemma completion_eventually:
  assumes "distinct (map c_ID cs)" "fair_run K rt bundles cs \<sigma> \<alpha>"
    and "weakly_fair (sys_act K rt bundles cs) \<sigma> \<alpha> ACons"
    and "y_main (\<sigma> n) = MWait k" "\<forall>c \<in> set cs. leaving (\<sigma> n) (c_ID c)"
  shows "\<exists>m \<ge> n. (\<forall>c \<in> set cs. is_done (y_sup (\<sigma> m)) (c_ID c)) \<and>
    (y_main (\<sigma> m) = MReturned None \<or> y_cancelled (\<sigma> m) \<and> (\<exists>e. y_main (\<sigma> m) = MReturned (Some e)))"
proof -
  let ?f = "sys_act K rt bundles cs"
  from assms(2) have ex: "execution ?f \<sigma> \<alpha>" by (simp add: fair_run_def)
  have n: "ending cs (\<sigma> n)"
    using fair_inv [OF assms(1,2), of n] assms(4,5) by (simp add: ending_def sys_inv_def main_inv_def)
  have e: "ending cs (\<sigma> m)" if "n \<le> m" for m
    using execution_stable [of ?f \<sigma> \<alpha> "ending cs" n m] ex n that ending_keeps [OF _ assms(1)] by blast
  obtain b where b: "n \<le> b" "\<forall>m \<ge> b. \<forall>c \<in> set cs. is_done (y_sup (\<sigma> m)) (c_ID c)"
    using all_done_eventually [OF assms(1-3) n] by blast
  have "\<exists>m \<ge> b. \<exists>r. y_main (\<sigma> m) = MReturned r"
  proof (cases "\<exists>r. y_main (\<sigma> b) = MReturned r")
    case False
    have "\<exists>k. y_main (\<sigma> b) = MWait k" using e [OF b(1)] False by (cases "y_main (\<sigma> b)") (auto simp: ending_def)
    then obtain k0 where k0: "y_main (\<sigma> b) = MWait k0" by blast
    show ?thesis
    proof (rule main_finishes [OF assms(1,2) k0, of "\<lambda>_. AMain"])
      fix k m assume m: "b \<le> m" "y_main (\<sigma> m) = MWait k"
      have "is_done (y_sup (\<sigma> m)) (c_ID (cs ! k))" if "k < length cs" using b(2) m(1) that by simp
      with m(2) fair_no_panic [OF assms(1,2), of m]
      show "\<exists>y'. ?f AMain (\<sigma> m) = Some y' \<and> y_main y' \<noteq> MWait k"
        by (auto simp: sys_act_def is_done_def split: option.splits)
    qed simp
  qed blast
  then obtain m r where m: "b \<le> m" "y_main (\<sigma> m) = MReturned r" by blast
  moreover have "run_waits (length cs) (y_cancelled (\<sigma> m)) (MReturned r)"
    using e [of m] m b(1) by (simp add: ending_def)
  ultimately show ?thesis using b by (cases r) (auto intro!: exI [of _ m])
qed

text \<open>
  C13. A pod that is done comes to its end under every fair scheduler: when the exit the consumer will next
  correlate to each container that is not done, waiting in the queue or just taken from it, calls for no
  restart, then in every execution that is weakly fair to \<open>Run\<close> and to the consumer, whatever else the
  children, the reaper and a shutdown do meanwhile, every container becomes done and \<open>Run\<close> returns: with
  nil, or because a shutdown cancelled it.
\<close>

theorem completion_live:
  assumes "distinct (map c_ID cs)" "fair_run K rt bundles cs \<sigma> \<alpha>"
    and "weakly_fair (sys_act K rt bundles cs) \<sigma> \<alpha> ACons"
    and "y_main (\<sigma> n) = MWait k" "\<forall>c \<in> set cs. leaving (\<sigma> n) (c_ID c)"
  shows "\<exists>m \<ge> n. (\<forall>c \<in> set cs. is_done (y_sup (\<sigma> m)) (c_ID c)) \<and>
    (y_main (\<sigma> m) = MReturned None \<or> y_cancelled (\<sigma> m) \<and> (\<exists>e. y_main (\<sigma> m) = MReturned (Some e)))"
  using completion_eventually [OF assms] .

text \<open>A container that exits once and the end of its pod, under a scheduler that is fair to everything.\<close>

definition completion_acts :: "act list" where
  "completion_acts = [ACons, ACons, ACons, AMain, AMain]"

theorem completion_live_witness:
  "\<exists>\<sigma> \<alpha> m. fair_run (kernel_with (\<lambda>_. None)) (rt_fixed 7) [(''web'', ''/b/web'')] [web RestartNever] \<sigma> \<alpha> \<and>
    y_main (\<sigma> 0) = MWait 0 \<and> \<not> is_done (y_sup (\<sigma> 0)) ''web'' \<and> is_done (y_sup (\<sigma> m)) ''web'' \<and>
    y_main (\<sigma> m) = MReturned None"
proof -
  let ?K = "kernel_with (\<lambda>_. None)" let ?b = "[(''web'', ''/b/web'')]" let ?cs = "[web RestartNever]"
  let ?f = "sys_act ?K (rt_fixed 7) ?b ?cs" let ?run = "\<lambda>as. run_acts ?K (rt_fixed 7) ?b ?cs as"
  have p: "\<not> s_panic (one_running RestartNever)" by (simp add: one_running_def)
  obtain y where y: "run_web RestartNever (start_acts @ [AReap (exit_of 7)]) = Some y" "y_main y = MWait 0"
    "y_cons y = CRecv" "y_chan y = [exit_of 7]" "y_sup y = one_running RestartNever" "y_stop y = PIdle"
    "y_closed y = False" "y_cancelled y = False"
    by (simp add: run_acts_append web_started p) (simp add: exit_of_def publish_def chan_cap_def)
  have "\<exists>y'. ?run completion_acts y = Some y' \<and> y_main y' = MReturned None \<and> y_cons y' = CRecv \<and>
    y_chan y' = [] \<and> y_closed y' = False \<and> y_stop y' = PIdle \<and> y_cancelled y' = False"
    using y(2-8) by (simp add: completion_acts_def one_running_def exit_of_def tracked_def rt_fixed_def register_exit_def
      with_state_def state_of_def shouldRestart_def finish_def close_done_def web_def new_container_def)
  then obtain y' where y': "?run completion_acts y = Some y'" "y_main y' = MReturned None" "y_cons y' = CRecv"
    "y_chan y' = []" "y_closed y' = False" "y_stop y' = PIdle" "y_cancelled y' = False" by blast
  define \<sigma> where "\<sigma> = list_states (\<lambda>as. ?run as y) completion_acts"
  have ex: "execution ?f \<sigma> (list_acts completion_acts)" and e: "\<And>n. 5 \<le> n \<Longrightarrow> \<sigma> n = y'"
    using list_execution [OF y'(1)] by (simp_all add: \<sigma>_def completion_acts_def)
  have 0: "\<sigma> 0 = y" by (simp add: \<sigma>_def list_states_def)
  have off: "?f a y' = None" if "a \<in> {AMain, AMainCtx, AStop, ADeadline, ACons}" for a
    using that y'(2-6) by (auto simp: sys_act_def)
  have fair: "weakly_fair ?f \<sigma> (list_acts completion_acts) a \<and> strongly_fair ?f \<sigma> (list_acts completion_acts) a"
    if "a \<in> {AMain, AMainCtx, AStop, ADeadline, ACons}" for a
    by (rule ended_fair [of 5 _ y']) (use e off [OF that] in simp_all)
  then have wf: "weakly_fair ?f \<sigma> (list_acts completion_acts) ACons" by blast
  have "reachable ?K (rt_fixed 7) ?b ?cs (\<sigma> 0)" using 0 web_reachable y(1) by simp
  with ex fair have fr: "fair_run ?K (rt_fixed 7) ?b ?cs \<sigma> (list_acts completion_acts)" by (simp add: fair_run_def)
  have l: "\<forall>c \<in> set ?cs. leaving (\<sigma> 0) (c_ID c)"
    using y(3-5) 0 by (simp add: leaving_def mine_def web_def new_container_def one_running_def tracked_def
      exit_of_def state_of_def shouldRestart_def is_done_def)
  have d: "distinct (map c_ID ?cs)" and m: "y_main (\<sigma> 0) = MWait 0" using y(2) 0 by simp_all
  obtain m where m': "is_done (y_sup (\<sigma> m)) ''web''" "y_main (\<sigma> m) = MReturned None \<or> y_cancelled (\<sigma> m)"
    "\<exists>r. y_main (\<sigma> m) = MReturned r"
    using completion_live [OF d fr wf m l] by (auto simp: web_def new_container_def)
  have nc: "\<not> y_cancelled (\<sigma> k)" for k
    using execution_stable [of ?f \<sigma> "list_acts completion_acts" y_cancelled k "max 5 k"] ex cancelled_act e y'(7)
    by (metis max.cobounded1 max.cobounded2)
  have "\<not> is_done (y_sup (\<sigma> 0)) ''web''" using y(5) 0 by (simp add: is_done_def one_running_def state_of_def)
  with fr m m' nc show ?thesis by blast
qed

end
