(* ===== verification/Init_Entry.thy ===== *)
theory Init_Entry
  imports Go_Flags Fair_Completion Boot_Order
begin

text \<open>
  Process 1 from its command line to the power-off (\<open>main\<close> of cmd/weft-init/main.go): the flags, the boot, and the
  life of the pod under a fair scheduler.
\<close>

subsection \<open>The command line of process 1\<close>

definition init_flags :: flag_set where
  "init_flags = [(''spec'', VStr defaultPodSpecPath), (''debug'', VBool False)]"

text \<open>
  \<open>main\<close>: the process exits inside \<open>flag.Parse\<close> with a status, or runs.  The flag -debug chooses the level
  of the log and nothing else.
\<close>

datatype init_start = Exited nat | Ran "(bool + Container list \<times> bundles \<times> sys) outcome"

definition weft_init :: "kernel \<Rightarrow> bring_up \<Rightarrow> codec \<Rightarrow> string list \<Rightarrow> trace \<Rightarrow> init_start" where
  "weft_init K BU J args tr =
     (case flags_parse init_flags args of
        Inl e \<Rightarrow> Exited (flag_exit e)
      | Inr (F, _) \<Rightarrow> Ran (boot K BU J (flag_str F ''spec'') tr))"

definition spec_setting :: "(string \<times> flag_value) list \<Rightarrow> string" where
  "spec_setting ss = (case last_set init_flags ss ''spec'' of Some (VStr v) \<Rightarrow> v | _ \<Rightarrow> [])"

text \<open>
  C30. The command line of process 1: with the flags -spec and -debug, in any way to write them, it boots
  the pod of the last -spec (of the default path without one); but an argument that looks like a flag and is
  none of the two makes process 1 exit with status 2, a request for the help with status 0, before it has
  made a single call: it does not reach the power-off that main says must come before its return.
\<close>

theorem init_command_line:
  assumes "list_all (setting_ok init_flags) (map snd ss)" "operands rest"
    and "flag_name bad" "bad \<notin> {''spec'', ''debug'', ''help'', ''h''}"
  shows "weft_init K BU J (concat (map (\<lambda>(st, s). render st s) ss) @ rest) tr =
      Ran (boot K BU J (spec_setting (map snd ss)) tr) \<and>
    weft_init K BU J (concat (map (\<lambda>(st, s). render st s) ss) @ (dashes two @ bad) # args) tr = Exited 2 \<and>
    weft_init K BU J (concat (map (\<lambda>(st, s). render st s) ss) @ ''--help'' # args) tr = Exited 0"
proof -
  let ?G = "fold apply_setting (map snd ss) init_flags"
  have G: "map_of ?G = last_set init_flags (map snd ss)" by (rule ext) (rule map_of_settings)
  have none: "map_of ?G n = None" if "n \<notin> {''spec'', ''debug''}" for n
  proof -
    have i: "map_of init_flags n = None" using that by (simp add: init_flags_def)
    with assms(1) have "n \<notin> fst ` set (map snd ss)" by (auto simp: list_all_iff setting_ok_def)
    then have "map_of (rev (map snd ss)) n = None" by (auto simp: map_of_eq_None_iff)
    with i show ?thesis by (simp add: G last_set_def)
  qed
  have "flag_arg ''--help'' = Flag ''help'' None" by code_simp
  with none [of bad] none [of "''help''"] assms show ?thesis
    by (simp add: weft_init_def flags_parse_render flags_parse_operands flag_str_def spec_setting_def G)
qed

theorem init_command_line_witness:
  "weft_init demo_kernel (\<lambda>_ _. None) demo_codec [''-debug'', ''-spec'', ''/p'', ''console''] [] =
      Ran (boot demo_kernel (\<lambda>_ _. None) demo_codec ''/p'' []) \<and>
   weft_init demo_kernel (\<lambda>_ _. None) demo_codec [''-debug'', ''-spec'', ''/p'', ''-quiet''] [] = Exited 2"
proof -
  let ?ss = "[((False, False), ''debug'', VBool True), ((False, False), ''spec'', VStr ''/p'')]"
  have "list_all (setting_ok init_flags) (map snd ?ss)" "operands [''console'']" "flag_name ''quiet''"
    "''quiet'' \<notin> {''spec'', ''debug'', ''help'', ''h''}" by code_simp+
  note c = init_command_line [OF this, of demo_kernel "\<lambda>_ _. None" demo_codec "[]" False "[]"]
  have "concat (map (\<lambda>(st, s). render st s) ?ss) = [''-debug'', ''-spec'', ''/p'']" "dashes False @ ''quiet'' = ''-quiet''"
    by (simp_all add: dashes_def)
  moreover have "spec_setting (map snd ?ss) = ''/p''" by (simp add: spec_setting_def last_set_def)
  ultimately show ?thesis using c by simp
qed

subsection \<open>Starting the containers\<close>

fun start_weight :: "start_pc \<Rightarrow> nat" where
  "start_weight SPCreate = 6"
| "start_weight SPStart = 5"
| "start_weight (SPCleanup e) = 4"
| "start_weight SPState = 4"
| "start_weight (SPRegister pid) = 3"
| "start_weight (SPEnd e) = 2"

fun start_rank :: "nat \<Rightarrow> main_pc \<Rightarrow> nat" where
  "start_rank n (MInsert k) = 8 * (n - k) + 1"
| "start_rank n (MStart k pc) = 8 * (n - Suc k) + start_weight pc"
| "start_rank n _ = 0"

lemma start_weight_step:
  assumes "run_state (start_step K rt bundles c pc s) tr = ((pc', s'), tr')" "\<forall>e. pc \<noteq> SPEnd e"
  shows "start_weight pc' < start_weight pc"
  using assms by (cases pc) (auto split: option.splits prod.splits if_splits)

lemma start_rank_main:
  assumes "sys_inv cs y" "start_rank (length cs) (y_main y) \<noteq> 0"
  shows "\<exists>y'. sys_act K rt bundles cs AMain y = Some y' \<and>
    start_rank (length cs) (y_main y') < start_rank (length cs) (y_main y)"
proof -
  have p: "\<not> s_panic (y_sup y)" using assms(1) by (simp add: sys_inv_def sup_ok_def)
  show ?thesis
  proof (cases "y_main y")
    case (MInsert k)
    then have "k \<le> length cs" using assms(1) by (simp add: sys_inv_def main_inv_def)
    with MInsert p show ?thesis by (cases "k < length cs") (auto simp: sys_act_def)
  next
    case (MStart k pc)
    then have k: "k < length cs" using assms(1) by (simp add: sys_inv_def main_inv_def)
    show ?thesis
    proof (cases "\<exists>e. pc = SPEnd e")
      case True
      with MStart p k show ?thesis by (auto simp: sys_act_def split: option.splits)
    next
      case False
      then have "step K rt bundles cs AMain y = Some (main_start K rt bundles cs k pc y)"
        using MStart by (cases pc) auto
      moreover obtain pc' s' tr' where r: "run_state (start_step K rt bundles (cs ! k) pc (y_sup y)) (y_trace y) = ((pc', s'), tr')"
        by (metis prod.exhaust_sel)
      moreover have "start_weight pc' < start_weight pc" using start_weight_step [OF r] False by blast
      ultimately show ?thesis using MStart p by (simp add: sys_act_def main_start_def)
    qed
  qed (use assms(2) in simp_all)
qed

lemma start_rank_0: "start_rank n pc = 0 \<longleftrightarrow> (\<exists>k. pc = MWait k) \<or> (\<exists>r. pc = MReturned r)"
proof (cases pc)
  case (MStart k q)
  then show ?thesis by (cases q) simp_all
qed simp_all

lemma start_rank_act:
  assumes "sys_inv cs y" "sys_act K rt bundles cs a y = Some y'"
  shows "start_rank (length cs) (y_main y') \<le> start_rank (length cs) (y_main y)"
proof (cases "a \<in> {AMain, AMainCtx}")
  case False
  with act_keeps(2) [OF assms(2)] show ?thesis by simp
next
  case True
  show ?thesis
  proof (cases "start_rank (length cs) (y_main y) = 0")
    case w: True
    with assms(2) \<open>a \<in> {AMain, AMainCtx}\<close> show ?thesis
      unfolding start_rank_0 by (auto simp: sys_act_def elim!: main_cancelledE split: if_splits option.splits)
  next
    case False
    with start_rank_main [OF assms(1) False, of K rt bundles] assms(2) True show ?thesis
      by (auto simp: sys_act_def elim!: main_cancelledE split: if_splits)
  qed
qed

text \<open>\<open>Run\<close> starts the containers and comes to wait for them, or returns at the first that does not start.\<close>

lemma run_comes_to_wait:
  assumes d: "distinct (map c_ID cs)" and fr: "fair_run K rt bundles cs \<sigma> \<alpha>"
  shows "\<exists>b \<ge> n. \<forall>m \<ge> b. (\<exists>k. y_main (\<sigma> m) = MWait k) \<or> (\<exists>r. y_main (\<sigma> m) = MReturned r)"
proof -
  let ?f = "sys_act K rt bundles cs" let ?r = "\<lambda>y. start_rank (length cs) (y_main y)"
  have ex: "execution ?f \<sigma> \<alpha>" and wf: "weakly_fair ?f \<sigma> \<alpha> AMain" using fr by (simp_all add: fair_run_def)
  have "\<exists>b \<ge> n. \<forall>m \<ge> b. sys_inv cs (\<sigma> m) \<and> ?r (\<sigma> m) = 0"
  proof (rule reaches_zero [of ?f \<sigma> \<alpha> AMain "sys_inv cs", OF ex wf fair_inv [OF d fr]])
    fix a y y' assume y: "sys_inv cs y" "?f a y = Some y'"
    then have "step K rt bundles cs a y = Some y'" by (simp add: sys_act_def split: if_splits)
    with start_rank_act [OF y] inv_step [OF d y(1)] show "sys_inv cs y' \<and> ?r y' \<le> ?r y" by blast
  qed (rule start_rank_main)
  then show ?thesis unfolding start_rank_0 by blast
qed

lemma signal_ends:
  assumes d: "distinct (map c_ID cs)" and fr: "fair_run K rt bundles cs \<sigma> \<alpha>" and n: "y_stop (\<sigma> n) \<noteq> PIdle"
  shows "\<exists>m \<ge> n. \<exists>r. y_main (\<sigma> m) = MReturned r \<and> y_stop (\<sigma> m) = PDone"
proof -
  let ?f = "sys_act K rt bundles cs"
  have ex: "execution ?f \<sigma> \<alpha>" using fr by (simp add: fair_run_def)
  obtain p where p: "n \<le> p" "y_stop (\<sigma> p) = PDone"
    using stop_finishes [OF d fr] n unfolding stopping_def by blast
  obtain b where b: "p \<le> b" "(\<exists>k. y_main (\<sigma> b) = MWait k) \<or> (\<exists>r. y_main (\<sigma> b) = MReturned r)"
    using run_comes_to_wait [OF d fr] by blast
  have s: "y_stop (\<sigma> b) = PDone"
    using execution_stable [of ?f \<sigma> \<alpha> "\<lambda>y. y_stop y = PDone" p b] ex p(2) done_act b(1) by blast
  show ?thesis
  proof (cases "\<exists>r. y_main (\<sigma> b) = MReturned r")
    case True
    with s p(1) b(1) show ?thesis by (meson le_trans)
  next
    case False
    with b(2) obtain k where w: "y_main (\<sigma> b) = MWait k" by blast
    obtain m r where "b \<le> m" "y_stop (\<sigma> m) = PDone" "y_main (\<sigma> m) = MReturned r"
      using shutdown_done [OF d fr w] s by auto
    with p(1) b(1) show ?thesis by (meson le_trans)
  qed
qed

subsection \<open>From the command line to the power-off\<close>

lemma main_end_powers_off:
  "\<exists>es e. snd (run_state (main_end K r) tr) = tr @ es \<and> EReboot e \<in> set es"
proof (cases r)
  case None
  then show ?thesis by (simp add: main_end_def poweroff_def)
next
  case (Some e)
  with main_end_failed [of K e tr] show ?thesis by auto
qed

text \<open>
  C15. The life of a guest: when process 1, from whatever command line, came to hand its pod to the supervisor,
  no goroutine panics in any fair execution that follows, and once a shutdown signal was received, or the
  last exit of every container waits for a fairly scheduled consumer, \<open>Run\<close> returns, after the signal \<open>Stop\<close>
  as well, and \<open>main\<close> asks the kernel for the power-off, whether the start of the containers had finished by then or not.
\<close>

theorem guest_lifecycle:
  assumes "weft_init K BU J args tr = Ran (Returned (Inr (cs, bundles, y)))"
    and "fair_run K rt bundles cs \<sigma> \<alpha>" "\<sigma> 0 = y"
    and "y_stop (\<sigma> n) \<noteq> PIdle \<or> weakly_fair (sys_act K rt bundles cs) \<sigma> \<alpha> ACons \<and>
      (\<exists>k. y_main (\<sigma> n) = MWait k) \<and> (\<forall>c \<in> set cs. leaving (\<sigma> n) (c_ID c))"
  shows "(\<forall>m. \<not> s_panic (y_sup (\<sigma> m))) \<and>
    (\<exists>m \<ge> n. \<exists>r es e. y_main (\<sigma> m) = MReturned r \<and> (y_stop (\<sigma> n) \<noteq> PIdle \<longrightarrow> y_stop (\<sigma> m) = PDone) \<and>
      snd (run_state (main_end K r) (y_trace (\<sigma> m))) = y_trace (\<sigma> m) @ es \<and> EReboot e \<in> set es)"
proof -
  from assms(1) obtain spec where "boot K BU J spec tr = Returned (Inr (cs, bundles, y))"
    by (auto simp: weft_init_def split: sum.splits)
  then obtain s t where "run_state (prepare K BU J spec) tr = (Returned (Inr (s, bundles)), t)" "cs = sp_Containers s"
    by (auto simp: boot_def split: prod.splits outcome.splits sum.splits)
  with prepare_ready(1) have d: "distinct (map c_ID cs)" by blast
  have "\<exists>m \<ge> n. \<exists>r. y_main (\<sigma> m) = MReturned r \<and> (y_stop (\<sigma> n) \<noteq> PIdle \<longrightarrow> y_stop (\<sigma> m) = PDone)"
  proof (cases "y_stop (\<sigma> n) = PIdle")
    case True
    with assms(4) completion_eventually [OF d assms(2)] show ?thesis by blast
  next
    case False
    with signal_ends [OF d assms(2)] show ?thesis by blast
  qed
  then obtain m r where "n \<le> m" "y_main (\<sigma> m) = MReturned r" "y_stop (\<sigma> n) \<noteq> PIdle \<longrightarrow> y_stop (\<sigma> m) = PDone" by blast
  with main_end_powers_off [of K r "y_trace (\<sigma> m)"] fair_no_panic [OF d assms(2)] show ?thesis by blast
qed

text \<open>The demonstration pod, from an empty command line, through one start and a shutdown.\<close>

lemma demo_run:
  assumes "map_of bundles ''app'' = Some b"
  shows "\<exists>y. run_acts demo_kernel (rt_fixed 7) bundles [demo_container] (start_acts @ shutdown_acts) (initial tr) = Some y \<and>
    y_stop y = PDone \<and> (\<exists>r. y_main y = MReturned r)"
  using assms
  by (simp add: start_acts_def numeral_eq_Suc initial_def New_def demo_container_def new_container_def rt_fixed_def
      add_state_def main_start_def os_open_def register_start_def with_state_def new_state_def)
    (simp add: shutdown_acts_def mark_stopped_def stop_ids_def allExited_def)

theorem guest_lifecycle_witness:
  "\<exists>bundles y \<sigma> \<alpha> m r es e. weft_init demo_kernel (\<lambda>_ _. None) demo_codec [] [] =
      Ran (Returned (Inr ([demo_container], bundles, y))) \<and>
    fair_run demo_kernel (rt_fixed 7) bundles [demo_container] \<sigma> \<alpha> \<and> \<sigma> 0 = y \<and> y_main (\<sigma> 0) = MInsert 0 \<and>
    y_main (\<sigma> m) = MReturned r \<and>
    snd (run_state (main_end demo_kernel r) (y_trace (\<sigma> m))) = y_trace (\<sigma> m) @ es \<and> EReboot e \<in> set es"
proof -
  obtain bundles t where p: "run_state (prepare demo_kernel (\<lambda>_ _. None) demo_codec defaultPodSpecPath) [] =
    (Returned (Inr (demo_spec, bundles)), t)" using demo_boot by blast
  have c: "sp_Containers demo_spec = [demo_container]" "c_ID demo_container = ''app''"
    by (simp_all add: demo_spec_def demo_container_def new_container_def)
  have w: "weft_init demo_kernel (\<lambda>_ _. None) demo_codec [] [] = Ran (Returned (Inr ([demo_container], bundles, initial t)))"
    using p c by (simp add: weft_init_def init_flags_def flag_str_def boot_def)
  have "map_of bundles ''app'' = Some (path_join [BundlesRoot, ''app''])"
    using prepare_ready(4) [OF p] c by simp
  from demo_run [OF this, of t] obtain z r where
    z: "run_acts demo_kernel (rt_fixed 7) bundles [demo_container] (start_acts @ shutdown_acts) (initial t) = Some z"
    "y_stop z = PDone" "y_main z = MReturned r" by blast
  let ?f = "sys_act demo_kernel (rt_fixed 7) bundles [demo_container]" let ?as = "start_acts @ shutdown_acts"
  define \<sigma> where "\<sigma> = list_states (\<lambda>as. run_acts demo_kernel (rt_fixed 7) bundles [demo_container] as (initial t)) ?as"
  have ex: "execution ?f \<sigma> (list_acts ?as)" and e: "\<And>n. 16 \<le> n \<Longrightarrow> \<sigma> n = z"
    using list_execution [OF z(1)] by (simp_all add: \<sigma>_def start_acts_def shutdown_acts_def)
  have 0: "\<sigma> 0 = initial t" by (simp add: \<sigma>_def list_states_def)
  have off: "?f a z = None" if "a \<in> {AMain, AMainCtx, AStop, ADeadline}" for a
    using that z(2,3) by (auto simp: sys_act_def)
  have "weakly_fair ?f \<sigma> (list_acts ?as) a \<and> strongly_fair ?f \<sigma> (list_acts ?as) a"
    if "a \<in> {AMain, AMainCtx, AStop, ADeadline}" for a
    by (rule ended_fair [of 16 _ z]) (use e off [OF that] in simp_all)
  moreover have "reachable demo_kernel (rt_fixed 7) bundles [demo_container] (\<sigma> 0)"
    unfolding 0 reachable_def steps_def by blast
  ultimately have fr: "fair_run demo_kernel (rt_fixed 7) bundles [demo_container] \<sigma> (list_acts ?as)"
    using ex by (simp add: fair_run_def)
  have "y_stop (\<sigma> 16) \<noteq> PIdle" using e [of 16] z(2) by simp
  with guest_lifecycle [OF w fr 0, of 16] obtain m r es e where "y_main (\<sigma> m) = MReturned r"
    "snd (run_state (main_end demo_kernel r) (y_trace (\<sigma> m))) = y_trace (\<sigma> m) @ es" "EReboot e \<in> set es" by blast
  moreover have "y_main (\<sigma> 0) = MInsert 0" by (simp add: 0 initial_def)
  ultimately show ?thesis using w fr 0 by blast
qed

end
