(* ===== verification/Runtime_Protocol.thy ===== *)
theory Runtime_Protocol
  imports Fair_Completion Boot_Order
begin

text \<open>
  What the supervisor asks of the OCI runtime, over all interleavings of its goroutines: which commands it
  runs, on which containers and bundles, and in which order for one container.
\<close>

subsection \<open>The log of the supervisor\<close>

text \<open>The two things the supervisor does to the outside: it opens the console, and it calls the runtime.\<close>

datatype sup_item = Console "goerr option" | Call rt_call "goerr option"

fun event_of :: "(rt_call \<Rightarrow> string list) \<Rightarrow> sup_item \<Rightarrow> event" where
  "event_of argv (Console r) = EOpen ''/dev/console'' r"
| "event_of argv (Call c x) = EExec (argv c) x"

text \<open>A call for a container of the pod, a creation from the bundle that was prepared for it.\<close>

fun own_call :: "bundles \<Rightarrow> Container list \<Rightarrow> rt_call \<Rightarrow> bool" where
  "own_call bundles cs (CallCreate i b) = (i \<in> c_ID ` set cs \<and> map_of bundles i = Some b)"
| "own_call bundles cs (CallStart i) = (i \<in> c_ID ` set cs)"
| "own_call bundles cs (CallState i) = (i \<in> c_ID ` set cs)"
| "own_call bundles cs (CallKill i sig) = (i \<in> c_ID ` set cs \<and> (sig = ''TERM'' \<or> sig = ''KILL''))"
| "own_call bundles cs (CallDelete i) = (i \<in> c_ID ` set cs)"

fun own_item :: "bundles \<Rightarrow> Container list \<Rightarrow> sup_item \<Rightarrow> bool" where
  "own_item bundles cs (Console r) = True"
| "own_item bundles cs (Call c x) = own_call bundles cs c"

text \<open>The signals asked for, in their order.\<close>

fun kills :: "sup_item list \<Rightarrow> (string \<times> string) list" where
  "kills [] = []"
| "kills (Call (CallKill i sig) x # l) = (i, sig) # kills l"
| "kills (_ # l) = kills l"

lemma kills_append [simp]: "kills (l @ l') = kills l @ kills l'"
  by (induction l rule: kills.induct) simp_all

text \<open>The signal the next step of \<open>Stop\<close> sends.\<close>

fun stop_kill :: "stop_pc \<Rightarrow> (string \<times> string) list" where
  "stop_kill (PTerm (i # is) ids) = [(i, ''TERM'')]"
| "stop_kill (PKill (i # is)) = [(i, ''KILL'')]"
| "stop_kill _ = []"

text \<open>
  What the calls so far say of one container, their results included.  It is \<open>Absent\<close> before it was
  created, when its creation failed, and once its deletion was asked for, for the code ignores what
  the deletion returns; \<open>Made\<close> when its creation succeeded; \<open>Running\<close> when its start succeeded as
  well, and \<open>Broken\<close> when it failed.
\<close>

datatype phase = Absent | Made | Broken | Running

fun next_phase :: "string \<Rightarrow> phase \<Rightarrow> sup_item \<Rightarrow> phase" where
  "next_phase i p (Call (CallCreate j b) x) = (if j \<noteq> i then p else if x = None then Made else Absent)"
| "next_phase i p (Call (CallStart j) x) = (if j \<noteq> i then p else if x = None then Running else Broken)"
| "next_phase i p (Call (CallDelete j) x) = (if j \<noteq> i then p else Absent)"
| "next_phase i p _ = p"

definition phase_of :: "string \<Rightarrow> sup_item list \<Rightarrow> phase" where
  "phase_of i l = foldl (next_phase i) Absent l"

text \<open>The order of the calls: what may follow the log \<open>l\<close>.\<close>

fun may_follow :: "sup_item list \<Rightarrow> sup_item \<Rightarrow> bool" where
  "may_follow l (Call (CallCreate i b) x) = (phase_of i l = Absent)"
| "may_follow l (Call (CallStart i) x) = (phase_of i l = Made)"
| "may_follow l (Call (CallState i) x) = (phase_of i l = Running)"
| "may_follow l (Call (CallDelete i) x) = (phase_of i l = Broken \<or> phase_of i l = Running)"
| "may_follow l _ = True"

definition in_order :: "sup_item list \<Rightarrow> bool" where
  "in_order l \<longleftrightarrow> (\<forall>n < length l. may_follow (take n l) (l ! n))"

lemma phase_of_simps [simp]: "phase_of i [] = Absent" "phase_of i (l @ [x]) = next_phase i (phase_of i l) x"
  by (simp_all add: phase_of_def)

lemma in_order_Nil [simp]: "in_order []"
  by (simp add: in_order_def)

lemma in_order_snoc [simp]: "in_order (l @ [x]) \<longleftrightarrow> in_order l \<and> may_follow l x"
  by (auto simp: in_order_def less_Suc_eq nth_append)

lemma in_order_two [simp]: "in_order (l @ [x, y]) \<longleftrightarrow> in_order l \<and> may_follow l x \<and> may_follow (l @ [x]) y"
  using in_order_snoc [of "l @ [x]" y] by simp

lemma phase_of_two [simp]: "phase_of i (l @ [x, y]) = next_phase i (next_phase i (phase_of i l) x) y"
  using phase_of_simps(2) [of i "l @ [x]" y] by simp

subsection \<open>The invariant\<close>

text \<open>
  The phase of the container a goroutine is at work on is the one its next call needs; the containers
  \<open>Run\<close> has not come to are absent, and every tracked container is running.
\<close>

fun start_phase :: "start_pc \<Rightarrow> phase" where
  "start_phase SPCreate = Absent"
| "start_phase SPStart = Made"
| "start_phase (SPCleanup x) = Broken"
| "start_phase SPState = Running"
| "start_phase (SPRegister pid) = Running"
| "start_phase (SPEnd e) = (if e = None then Running else Absent)"

fun main_ready :: "Container list \<Rightarrow> sup_item list \<Rightarrow> main_pc \<Rightarrow> bool" where
  "main_ready cs l (MInsert k) = (\<forall>c \<in> set (drop k cs). phase_of (c_ID c) l = Absent)"
| "main_ready cs l (MStart k pc) =
     ((\<forall>c \<in> set (drop (Suc k) cs). phase_of (c_ID c) l = Absent) \<and> phase_of (c_ID (cs ! k)) l = start_phase pc)"
| "main_ready cs l _ = True"

fun cons_ready :: "sup_item list \<Rightarrow> cons_pc \<Rightarrow> bool" where
  "cons_ready l (CDelete i ev) = (phase_of i l = Running)"
| "cons_ready l (CDecide i ev) = (phase_of i l = Absent)"
| "cons_ready l (CStart c pc) = (phase_of (c_ID c) l = start_phase pc)"
| "cons_ready l _ = True"

definition tracked_run :: "sup_item list \<Rightarrow> Supervisor \<Rightarrow> bool" where
  "tracked_run l s \<longleftrightarrow> (\<forall>p i. tracked s p = Some i \<longrightarrow> phase_of i l = Running)"

fun stop_known :: "string set \<Rightarrow> stop_pc \<Rightarrow> bool" where
  "stop_known A (PTerm is ids) = (set is \<subseteq> A \<and> set ids \<subseteq> A)"
| "stop_known A (PPoll ids) = (set ids \<subseteq> A)"
| "stop_known A (PSleep ids) = (set ids \<subseteq> A)"
| "stop_known A (PKill is) = (set is \<subseteq> A)"
| "stop_known A _ = True"

definition log_inv :: "bundles \<Rightarrow> Container list \<Rightarrow> sup_item list \<Rightarrow> sys \<Rightarrow> bool" where
  "log_inv bundles cs l y \<longleftrightarrow> list_all (own_item bundles cs) l \<and> in_order l \<and>
     main_ready cs l (y_main y) \<and> cons_ready l (y_cons y) \<and>
     stop_known (c_ID ` set cs) (y_stop y) \<and> dom (state_of (y_sup y)) \<subseteq> c_ID ` set cs \<and>
     tracked_run l (y_sup y)"

lemma tracked_run_cong: "tracked s' = tracked s \<Longrightarrow> tracked_run l s' = tracked_run l s"
  by (simp add: tracked_run_def)

lemma tracked_register: "tracked (register_start i pid s) = (if 0 < pid then (tracked s)(pid \<mapsto> i) else tracked s)"
  by (auto simp: register_start_def Let_def fun_eq_iff tracked_def with_state_def update_conv' split: option.splits)

lemma tracked_exit: "tracked (register_exit i ev s) = (tracked s)(rp_PID ev := None)"
  by (auto simp: register_exit_def fun_eq_iff tracked_def with_state_def delete_conv' split: option.splits)

lemma tracked_close: "tracked (close_done i s) = tracked s"
  by (auto simp: close_done_def tracked_def with_state_def split: option.splits)

text \<open>Calls for a container that is not tracked do not disturb the others.\<close>

lemma tracked_run_frame:
  assumes "tracked_run l s" "untracked s i" "\<forall>j. j \<noteq> i \<longrightarrow> phase_of j l' = phase_of j l"
  shows "tracked_run l' s"
  unfolding tracked_run_def
proof (intro allI impI)
  fix p j assume t: "tracked s p = Some j"
  with assms(2) have "j \<noteq> i" by (auto simp: untracked_def)
  with assms(1,3) t show "phase_of j l' = Running" by (simp add: tracked_run_def)
qed

text \<open>The containers the supervisor knows are those of the pod.\<close>

lemma known_step:
  assumes "sys_inv cs y'" "dom (state_of (y_sup y)) \<subseteq> c_ID ` set cs" "step K rt bundles cs a y = Some y'"
  shows "dom (state_of (y_sup y')) \<subseteq> c_ID ` set cs"
proof (cases "\<exists>e. y_main y' = MReturned (Some e) \<and> y_cons y' = CNone")
  case False
  then have "y_cons y' \<noteq> CNone \<or> (\<forall>e. y_main y' \<noteq> MReturned (Some e))" by blast
  with assms(1) show ?thesis
    by (cases "y_main y'") (auto simp: sys_inv_def main_inv_def cons_inv_def dest: in_set_takeD split: option.splits)
next
  case True
  show ?thesis
  proof (cases a)
    case AMain
    with True assms(3) have "y_sup y' = y_sup y"
      by (cases "(K, rt, bundles, cs, y_main y, y)" rule: main_step.cases)
        (auto simp: main_start_def split: if_splits option.splits prod.splits)
    with assms(2) show ?thesis by simp
  next
    case ACons
    with True assms(3) cons_stays [of K rt bundles cs "y_cons y" y y'] show ?thesis by (cases "y_cons y = CNone") auto
  next
    case ASignal
    with assms(3) have "y_sup y' = mark_stopped (y_sup y)" by (auto elim!: stop_signalE)
    with assms(2) show ?thesis by (simp add: mark_views(1))
  qed (use assms(2,3) in
      \<open>auto elim!: main_cancelledE stop_stepE stop_deadlineE split: if_splits\<close>)
qed

lemma stop_ids_known: "set (stop_ids s) \<subseteq> dom (state_of s)"
proof -
  have "state_of s = map_of (s_states s)" by (simp add: state_of_def fun_eq_iff)
  then show ?thesis by (simp add: stop_ids_def dom_map_of_conv_image_fst)
qed

subsection \<open>Every step keeps it\<close>

context oci_runtime begin

lemma start_items:
  assumes run: "run_state (start_step K rt bundles c pc s) tr = ((pc', s'), tr')"
    and c: "c_ID c \<in> c_ID ` set cs" and r: "phase_of (c_ID c) l = start_phase pc"
  shows "\<exists>is. tr' = tr @ map (event_of argv) is \<and> list_all (own_item bundles cs) is \<and>
    (in_order l \<longrightarrow> in_order (l @ is)) \<and> phase_of (c_ID c) (l @ is) = start_phase pc' \<and>
    (\<forall>i. i \<noteq> c_ID c \<longrightarrow> phase_of i (l @ is) = phase_of i l) \<and> kills is = []"
proof (cases pc)
  case SPCreate
  show ?thesis
  proof (cases "map_of bundles (c_ID c)")
    case None
    with run SPCreate r show ?thesis by (intro exI [of _ "[]"]) auto
  next
    case (Some b)
    let ?con = "k_open K tr ''/dev/console''" let ?t = "tr @ [EOpen ''/dev/console'' ?con]"
    obtain e t where e: "run_state (rt_Create rt (c_ID c) b (console_stdio ?con)) ?t = (e, t)" by fastforce
    from Create_run [OF this] obtain x where "t = ?t @ [EExec (argv (CallCreate (c_ID c) b)) x]"
      "e = None \<longleftrightarrow> x = None" by blast
    with run SPCreate Some e c r show ?thesis
      by (intro exI [of _ "[Console ?con, Call (CallCreate (c_ID c) b) x]"]) (auto simp: os_open_def)
  qed
next
  case SPStart
  obtain e t where e: "run_state (rt_Start rt (c_ID c)) tr = (e, t)" by fastforce
  from Start_run [OF this] obtain x where "t = tr @ [EExec (argv (CallStart (c_ID c))) x]"
    "e = None \<longleftrightarrow> x = None" by blast
  with run SPStart e c r show ?thesis
    by (intro exI [of _ "[Call (CallStart (c_ID c)) x]"]) (auto split: option.splits)
next
  case (SPCleanup y)
  obtain e t where e: "run_state (rt_Delete rt (c_ID c)) tr = (e, t)" by fastforce
  from Delete_run [OF this] obtain x where "t = tr @ [EExec (argv (CallDelete (c_ID c))) x]" by blast
  with run SPCleanup e c r show ?thesis by (intro exI [of _ "[Call (CallDelete (c_ID c)) x]"]) auto
next
  case SPState
  obtain st p e t where e: "run_state (rt_State rt (c_ID c)) tr = ((st, p, e), t)" by (metis prod.exhaust_sel)
  from State_run [OF this] obtain x where "t = tr @ [EExec (argv (CallState (c_ID c))) x]" by blast
  with run SPState e c r show ?thesis by (intro exI [of _ "[Call (CallState (c_ID c)) x]"]) auto
next
  case (SPRegister pid)
  with run r show ?thesis by (intro exI [of _ "[]"]) auto
next
  case (SPEnd e)
  with run r show ?thesis by (intro exI [of _ "[]"]) auto
qed

lemma start_tracked:
  assumes run: "run_state (start_step K rt bundles c pc s) tr = ((pc', s'), tr')" and pc: "\<forall>e. pc \<noteq> SPEnd e"
    and l: "tracked_run l s" "untracked s (c_ID c)"
    and p: "phase_of (c_ID c) l' = start_phase pc'" "\<forall>i. i \<noteq> c_ID c \<longrightarrow> phase_of i l' = phase_of i l"
  shows "tracked_run l' s'"
  using run pc
proof (cases rule: start_step_cases)
  case 1
  with tracked_run_frame [OF l p(2)] show ?thesis by simp
next
  case (2 pid)
  with tracked_run_frame [OF l p(2)] p(1) show ?thesis by (auto simp: tracked_run_def tracked_register)
qed

lemma kill_item:
  "\<exists>x. snd (run_state (rt_Kill rt i sig) tr) = tr @ map (event_of argv) [Call (CallKill i sig) x]"
  using Kill_run [of i sig tr] by (cases "run_state (rt_Kill rt i sig) tr") fastforce

lemma delete_item:
  "\<exists>x. snd (run_state (rt_Delete rt i) tr) = tr @ map (event_of argv) [Call (CallDelete i) x]"
  using Delete_run [of i tr] by (cases "run_state (rt_Delete rt i) tr") fastforce

lemma log_main:
  assumes l: "log_inv bundles cs l y" and inv: "sys_inv cs y" and d: "distinct (map c_ID cs)"
    and st: "main_step K rt bundles cs (y_main y) y = Some y'" and dom: "dom (state_of (y_sup y')) \<subseteq> c_ID ` set cs"
  shows "\<exists>is. y_trace y' = y_trace y @ map (event_of argv) is \<and> log_inv bundles cs (l @ is) y' \<and> kills is = []"
proof (cases "y_main y")
  case (MInsert k)
  have "drop k cs = cs ! k # drop (Suc k) cs" if "k < length cs" using that by (simp add: Cons_nth_drop_Suc)
  with l st MInsert dom show ?thesis
    by (intro exI [of _ "[]"]) (auto simp: log_inv_def tracked_run_def split: if_splits)
next
  case (MStart k pc)
  then have k: "k < length cs" "y_cons y = CNone" "pc \<noteq> SPEnd None \<longrightarrow> untracked (y_sup y) (c_ID (cs ! k))"
    using inv by (simp_all add: sys_inv_def main_inv_def)
  show ?thesis
  proof (cases "\<exists>e. pc = SPEnd e")
    case True
    with st MStart l dom show ?thesis
      by (intro exI [of _ "[]"]) (auto simp: log_inv_def split: option.splits)
  next
    case False
    then have y': "y' = main_start K rt bundles cs k pc y" using st MStart by (cases pc) auto
    obtain pc' s' tr' where r: "run_state (start_step K rt bundles (cs ! k) pc (y_sup y)) (y_trace y) = ((pc', s'), tr')"
      by (metis prod.exhaust_sel)
    have "c_ID (cs ! k) \<notin> c_ID ` set (drop (Suc k) cs)"
      using d by (subst (asm) id_take_nth_drop [OF k(1)]) auto
    then have rest: "c_ID c \<noteq> c_ID (cs ! k)" if "c \<in> set (drop (Suc k) cs)" for c
      using that by (metis imageI)
    have ph: "phase_of (c_ID (cs ! k)) l = start_phase pc" "tracked_run l (y_sup y)"
      using l MStart by (simp_all add: log_inv_def)
    from start_items [OF r imageI [OF nth_mem [OF k(1)]] ph(1)] obtain "is" where i: "tr' = y_trace y @ map (event_of argv) is"
      "list_all (own_item bundles cs) is" "in_order l \<longrightarrow> in_order (l @ is)" "phase_of (c_ID (cs ! k)) (l @ is) = start_phase pc'"
      "\<forall>i. i \<noteq> c_ID (cs ! k) \<longrightarrow> phase_of i (l @ is) = phase_of i l" "kills is = []" by blast
    moreover have "tracked_run (l @ is) s'"
      using start_tracked [OF r _ ph(2) _ i(4,5)] False k(3) by auto
    ultimately show ?thesis using l MStart rest k(2) dom
      by (intro exI [of _ "is"]) (simp add: y' r main_start_def log_inv_def)
  qed
qed (use l st dom in \<open>auto simp: log_inv_def tracked_run_def intro!: exI [of _ "[]"] split: if_splits option.splits\<close>)

lemma log_cons:
  assumes l: "log_inv bundles cs l y" and inv: "sys_inv cs y"
    and st: "cons_step K rt bundles cs (y_cons y) y = Some y'" and dom: "dom (state_of (y_sup y')) \<subseteq> c_ID ` set cs"
  shows "\<exists>is. y_trace y' = y_trace y @ map (event_of argv) is \<and> log_inv bundles cs (l @ is) y' \<and> kills is = []"
proof -
  have m: "main_ready cs l' (y_main y') = True" if "y_cons y \<noteq> CNone" for l'
    using inv that cons_keeps [OF st]
    by (cases "y_main y") (auto simp: sys_inv_def main_inv_def)
  have s: "stop_known (c_ID ` set cs) (y_stop y')" using l cons_keeps [OF st] by (simp add: log_inv_def)
  have known: "i \<in> c_ID ` set cs" "untracked (y_sup y) i" if "active (y_cons y) = Some i" for i
    using l inv that by (auto simp: log_inv_def sys_inv_def cons_inv_def exited_pending_def)
  have tr: "tracked_run l (y_sup y)" using l by (simp add: log_inv_def)
  show ?thesis
  proof (cases "y_cons y")
    case CRecv
    with l st m s dom show ?thesis
      by (intro exI [of _ "[]"])
        (auto simp: log_inv_def tracked_run_def tracked_exit split: list.splits if_splits option.splits)
  next
    case (CDelete i ev)
    obtain x where x: "snd (run_state (rt_Delete rt i) (y_trace y)) = y_trace y @ map (event_of argv) [Call (CallDelete i) x]"
      using delete_item by blast
    have i: "i \<in> c_ID ` set cs" "untracked (y_sup y) i" using known CDelete by simp_all
    have "tracked_run (l @ [Call (CallDelete i) x]) (y_sup y)" by (rule tracked_run_frame [OF tr i(2)]) simp
    with x i(1) l st CDelete m s dom show ?thesis
      by (intro exI [of _ "[Call (CallDelete i) x]"]) (auto simp: log_inv_def)
  next
    case (CDecide i ev)
    with l st m s dom show ?thesis
      by (intro exI [of _ "[]"]) (auto simp: log_inv_def finish_def tracked_run_cong [OF tracked_close] tracked_run_cong [OF tracked_panic]
          dest: findSpec_Some split: if_splits option.splits)
  next
    case (CStart c pc)
    show ?thesis
    proof (cases "\<exists>e. pc = SPEnd e")
      case True
      with st CStart l m s dom show ?thesis
        by (intro exI [of _ "[]"]) (auto simp: log_inv_def finish_def tracked_run_cong [OF tracked_close] split: if_splits)
    next
      case False
      then have y': "y' = cons_start K rt bundles c pc y" using st CStart by (cases pc) auto
      obtain pc' s' tr' where r: "run_state (start_step K rt bundles c pc (y_sup y)) (y_trace y) = ((pc', s'), tr')"
        by (metis prod.exhaust_sel)
      have c: "c_ID c \<in> c_ID ` set cs" "untracked (y_sup y) (c_ID c)" using known CStart False by auto
      have "phase_of (c_ID c) l = start_phase pc" using l CStart by (simp add: log_inv_def)
      from start_items [OF r c(1) this] obtain "is" where i: "tr' = y_trace y @ map (event_of argv) is"
        "list_all (own_item bundles cs) is" "in_order l \<longrightarrow> in_order (l @ is)"
        "phase_of (c_ID c) (l @ is) = start_phase pc'"
        "\<forall>i. i \<noteq> c_ID c \<longrightarrow> phase_of i (l @ is) = phase_of i l" "kills is = []" by blast
      moreover have "tracked_run (l @ is) s'" using start_tracked [OF r _ tr c(2) i(4,5)] False by auto
      ultimately show ?thesis using l m s dom CStart
        by (intro exI [of _ "is"]) (simp add: y' r cons_start_def log_inv_def)
    qed
  qed (use st in simp_all)
qed

lemma log_stop:
  assumes l: "log_inv bundles cs l y" and st: "stop_step rt (y_stop y) y = Some y'"
  shows "\<exists>is. y_trace y' = y_trace y @ map (event_of argv) is \<and> log_inv bundles cs (l @ is) y' \<and>
    kills is = stop_kill (y_stop y)"
proof -
  have kill: ?thesis if "i \<in> c_ID ` set cs" "sig = ''TERM'' \<or> sig = ''KILL''" "stop_known (c_ID ` set cs) pc"
    "stop_kill (y_stop y) = [(i, sig)]"
    "y' = y\<lparr>y_trace := snd (run_state (rt_Kill rt i sig) (y_trace y)), y_stop := pc\<rparr>" for i sig pc
  proof -
    obtain x where x: "snd (run_state (rt_Kill rt i sig) (y_trace y)) = y_trace y @ map (event_of argv) [Call (CallKill i sig) x]"
      using kill_item by blast
    have [simp]: "phase_of j (l @ [Call (CallKill i sig) x]) = phase_of j l" for j by simp
    have "main_ready cs (l @ [Call (CallKill i sig) x]) (y_main y) = main_ready cs l (y_main y)"
      "cons_ready (l @ [Call (CallKill i sig) x]) (y_cons y) = cons_ready l (y_cons y)"
      by (cases "y_main y"; cases "y_cons y"; simp)+
    with l x that show ?thesis
      by (intro exI [of _ "[Call (CallKill i sig) x]"]) (auto simp: log_inv_def tracked_run_def)
  qed
  show ?thesis
  proof (cases "(rt, y_stop y, y)" rule: stop_step.cases)
    case (2 rt' i "is" ids)
    with l st show ?thesis by (intro kill [of i "''TERM''" "PTerm is ids"]) (auto simp: log_inv_def)
  next
    case (6 rt' i "is")
    with l st show ?thesis by (intro kill [of i "''KILL''" "PKill is"]) (auto simp: log_inv_def)
  qed (use l st in \<open>auto simp: log_inv_def intro!: exI [of _ "[]"]\<close>)
qed

lemma log_step:
  assumes l: "log_inv bundles cs l y" and inv: "sys_inv cs y" and d: "distinct (map c_ID cs)"
    and st: "step K rt bundles cs a y = Some y'"
  shows "\<exists>is. y_trace y' = y_trace y @ map (event_of argv) is \<and> log_inv bundles cs (l @ is) y' \<and>
    kills is = (if a = AStop then stop_kill (y_stop y) else [])"
proof -
  have dom: "dom (state_of (y_sup y')) \<subseteq> c_ID ` set cs"
    by (rule known_step [OF inv_step [OF d inv st] _ st]) (use l in \<open>simp add: log_inv_def\<close>)
  have silent: ?thesis if "y_trace y' = y_trace y" "main_ready cs l (y_main y')" "cons_ready l (y_cons y')"
    "stop_known (c_ID ` set cs) (y_stop y')" "tracked (y_sup y') = tracked (y_sup y)" "a \<noteq> AStop"
    using l that dom by (intro exI [of _ "[]"]) (simp add: log_inv_def tracked_run_def)
  show ?thesis
  proof (cases a)
    case AMain
    with log_main [OF l inv d _ dom] st show ?thesis by simp
  next
    case ACons
    with log_cons [OF l inv _ dom] st show ?thesis by simp
  next
    case AStop
    with log_stop [OF l] st show ?thesis by simp
  next
    case ASignal
    have "set (stop_ids (y_sup y)) \<subseteq> dom (state_of (y_sup y))" by (rule stop_ids_known)
    with ASignal st l show ?thesis by (intro silent) (auto simp: log_inv_def elim!: stop_signalE)
  next
    case ADeadline
    with st l show ?thesis by (intro silent) (auto simp: log_inv_def elim!: stop_deadlineE)
  next
    case AMainCtx
    with st l show ?thesis by (intro silent) (auto simp: log_inv_def elim!: main_cancelledE split: if_splits)
  qed (use st l in \<open>auto simp: log_inv_def intro!: silent split: if_splits\<close>)
qed

lemma log_steps:
  assumes "steps K rt bundles cs y y'" "log_inv bundles cs l y" "sys_inv cs y" "distinct (map c_ID cs)"
  shows "\<exists>is. y_trace y' = y_trace y @ map (event_of argv) is \<and> log_inv bundles cs (l @ is) y'"
  using assms(1) unfolding steps_def
proof (induction rule: rtranclp_induct)
  case base
  with assms(2) show ?case by (intro exI [of _ "[]"]) simp
next
  case (step z w)
  then obtain "is" where i: "y_trace z = y_trace y @ map (event_of argv) is" "log_inv bundles cs (l @ is) z" by blast
  have "sys_inv cs z" using inv_steps [OF assms(4) _ assms(3)] step.hyps(1) unfolding steps_def by blast
  moreover obtain a where "step K rt bundles cs a z = Some w" using step.hyps(2) by (auto elim: sys_stepE)
  ultimately obtain js where "y_trace w = y_trace z @ map (event_of argv) js" "log_inv bundles cs ((l @ is) @ js) w"
    using log_step [OF i(2) _ assms(4)] by blast
  with i(1) show ?case by (intro exI [of _ "is @ js"]) simp
qed

end

subsection \<open>From the boot on\<close>

text \<open>The command line of a crun call says which call it is, so the log is determined by the trace.\<close>

lemma crun_argv_inj: "inj (crun_argv rc)"
proof (rule injI)
  fix c d assume "crun_argv rc c = crun_argv rc d"
  then show "c = d" by (cases c; cases d) (simp_all add: crun_argv_def crun_cmd_def)
qed

lemma log_initial: "log_inv bundles cs [] (initial tr)"
  by (simp add: log_inv_def initial_def New_def state_of_def dom_def tracked_run_def tracked_def)

text \<open>
  C6. What the supervisor asks of crun: in every interleaving that follows a successful boot, whatever crun, the
  children and the host do, the supervisor opens the console and runs crun and does nothing else to the
  outside; every crun command is for a container of the pod, every creation from the bundle directory
  the boot prepared for that container.  For each container the calls keep to one order, their results
  taken into account: it is created only when it was not created before, its creation failed, or its
  deletion was asked for since (the code does not look at what a deletion returns); it is started
  only after its creation succeeded, and once; its state is asked for only after its start succeeded;
  and it is deleted only after its start, once for each creation, successful or not.
\<close>

theorem runtime_protocol:
  assumes "boot K BU J specPath tr = Returned (Inr (cs, bundles, y))"
    and "steps K (crun_runtime K rc) bundles cs y y'"
  shows "\<exists>l. y_trace y' = y_trace y @ map (event_of (crun_argv rc)) l \<and> inj (crun_argv rc) \<and>
    list_all (own_item bundles cs) l \<and> in_order l \<and>
    map_of bundles = (\<lambda>i. if i \<in> c_ID ` set cs then Some (path_join [BundlesRoot, i]) else None)"
proof -
  from assms(1) obtain spec t where p: "run_state (prepare K BU J specPath) tr = (Returned (Inr (spec, bundles)), t)"
    "cs = sp_Containers spec" "y = initial t"
    by (auto simp: boot_def split: prod.splits outcome.splits sum.splits)
  note r = prepare_ready [OF p(1)]
  have "\<exists>l. y_trace y' = y_trace y @ map (event_of (crun_argv rc)) l \<and> log_inv bundles cs ([] @ l) y'"
    by (rule crun.log_steps [OF assms(2)]) (use p r in \<open>simp_all add: log_initial inv_initial\<close>)
  then show ?thesis using r(4) p(2) crun_argv_inj [of rc] by (auto simp: log_inv_def)
qed

theorem runtime_protocol_witness:
  "\<exists>bundles y y' l. boot demo_kernel (\<lambda>_ _. None) demo_codec defaultPodSpecPath [] = Returned (Inr ([demo_container], bundles, y)) \<and>
    steps demo_kernel (crun_runtime demo_kernel crun_New) bundles [demo_container] y y' \<and>
    y_trace y' = y_trace y @ map (event_of (crun_argv crun_New)) l \<and> length l = 3 \<and> in_order l \<and>
    list_all (own_item bundles [demo_container]) l"
proof -
  obtain bundles t where p: "run_state (prepare demo_kernel (\<lambda>_ _. None) demo_codec defaultPodSpecPath) [] =
    (Returned (Inr (demo_spec, bundles)), t)" using demo_boot by blast
  have c: "sp_Containers demo_spec = [demo_container]" "c_ID demo_container = ''app''"
    by (simp_all add: demo_spec_def demo_container_def new_container_def)
  have b: "boot demo_kernel (\<lambda>_ _. None) demo_codec defaultPodSpecPath [] = Returned (Inr ([demo_container], bundles, initial t))"
    using p c by (simp add: boot_def)
  have "map_of bundles ''app'' = Some (path_join [BundlesRoot, ''app''])"
    using prepare_ready(4) [OF p] c by simp
  then have "\<exists>y' es. run_acts demo_kernel (crun_runtime demo_kernel crun_New) bundles [demo_container] (replicate 3 AMain) (initial t) = Some y' \<and>
    y_trace y' = t @ es \<and> length es = 3"
    using c(2) by (simp add: numeral_eq_Suc initial_def New_def add_state_def main_start_def os_open_def crun_runtime_def
      crun_Create_def crun_Start_def combinedRun_def exec_run_def demo_kernel_def kernel_with_def)
  then obtain y' es where y': "run_acts demo_kernel (crun_runtime demo_kernel crun_New) bundles [demo_container]
      (replicate 3 AMain) (initial t) = Some y'" "y_trace y' = t @ es" "length es = 3" by blast
  note s = run_acts_steps [OF y'(1)]
  from runtime_protocol [OF b s] obtain l where l: "y_trace y' = y_trace (initial t) @ map (event_of (crun_argv crun_New)) l"
    "list_all (own_item bundles [demo_container]) l" "in_order l" by blast
  have "y_trace (initial t) = t" by (simp add: initial_def)
  with l(1) y'(2) have "map (event_of (crun_argv crun_New)) l = es" by simp
  with y'(3) have "length l = 3" by (metis length_map)
  with b s l show ?thesis by blast
qed

end
