(* ===== verification/Stop_Protocol.thy ===== *)
theory Stop_Protocol
  imports Init_Entry Runtime_Protocol
begin

text \<open>
  What a shutdown signal leads to, in every fair execution: the signals \<open>Stop\<close> sends, in their order,
  the return of \<open>Run\<close> and the power-off; and when no container is ever killed.
\<close>

subsection \<open>The signals Stop sends\<close>

abbreviation terms :: "string list \<Rightarrow> (string \<times> string) list" where
  "terms ids \<equiv> map (\<lambda>i. (i, ''TERM'')) ids"

abbreviation killed :: "string list \<Rightarrow> (string \<times> string) list" where
  "killed ids \<equiv> map (\<lambda>i. (i, ''KILL'')) ids"

text \<open>
  The signals \<open>ks\<close> sent since \<open>Stop\<close> took the list \<open>ids\<close>, at each of its program counters: \<open>e\<close> says that
  every container had exited at some moment since, \<open>d\<close> that the deadline has passed.
\<close>

fun stop_sent :: "string list \<Rightarrow> bool \<Rightarrow> bool \<Rightarrow> stop_pc \<Rightarrow> (string \<times> string) list \<Rightarrow> bool" where
  "stop_sent ids e d PIdle ks = False"
| "stop_sent ids e d (PTerm is all) ks = (all = ids \<and> (\<exists>sent. ids = sent @ is \<and> ks = terms sent))"
| "stop_sent ids e d (PPoll all) ks = (all = ids \<and> ks = terms ids)"
| "stop_sent ids e d (PSleep all) ks = (all = ids \<and> ks = terms ids)"
| "stop_sent ids e d (PKill is) ks = (d \<and> (\<exists>sent. ids = sent @ is \<and> ks = terms ids @ killed sent))"
| "stop_sent ids e d _ ks = (ks = terms ids \<and> e \<or> ks = terms ids @ killed ids \<and> d)"

lemma stop_sent_prefix: "stop_sent ids e d pc ks \<Longrightarrow> prefix ks (terms ids @ killed ids)"
  by (cases pc) auto

lemma stop_sent_mono: "stop_sent ids e d pc ks \<Longrightarrow> (e \<Longrightarrow> e') \<Longrightarrow> (d \<Longrightarrow> d') \<Longrightarrow> stop_sent ids e' d' pc ks"
  by (cases pc) auto

lemma stop_sent_act:
  assumes s: "stop_sent ids e d (y_stop y) ks" and a: "sys_act K rt bundles cs a y = Some y'"
  shows "stop_sent ids (e \<or> allExited (y_sup y)) (d \<or> a = ADeadline) (y_stop y')
    (ks @ (if a = AStop then stop_kill (y_stop y) else []))"
proof (cases "a \<in> {ASignal, AStop, ADeadline}")
  case False
  with act_keeps(1) [OF a] stop_sent_mono [OF s] show ?thesis by auto
next
  case True
  then consider "a = ASignal" | "a = AStop" | "a = ADeadline" by blast
  then show ?thesis
  proof cases
    case 1
    with s a show ?thesis by (cases "y_stop y") (auto simp: sys_act_def split: if_splits)
  next
    case 2
    with a have "stop_step rt (y_stop y) y = Some y'" by (simp add: sys_act_def split: if_splits)
    with s 2 show ?thesis
      by (cases "(rt, y_stop y, y)" rule: stop_step.cases) (auto split: if_splits)
  next
    case 3
    with s a show ?thesis by (cases "y_stop y") (auto simp: sys_act_def split: if_splits)
  qed
qed

subsection \<open>Containers marked as stopped\<close>

definition stopped_at :: "Supervisor \<Rightarrow> string \<Rightarrow> bool" where
  "stopped_at s i \<longleftrightarrow> (\<exists>st. state_of s i = Some st \<and> st_stopped st)"

lemma stopped_index: "stopped_at (s\<lparr>s_pidIndex := ix\<rparr>) i = stopped_at s i"
  and stopped_panic: "stopped_at (s\<lparr>s_panic := b\<rparr>) i = stopped_at s i"
  by (simp_all add: stopped_at_def)

lemma stopped_with:
  assumes "stopped_at s i" "\<And>st. st_stopped (f st) = st_stopped st"
  shows "stopped_at (with_state j f s) i"
proof (cases "state_of s j")
  case None
  then have "with_state j f s = s\<lparr>s_panic := True\<rparr>" by (simp add: with_state_def state_of_def)
  with assms(1) show ?thesis by (simp add: stopped_panic)
next
  case (Some st)
  then have w: "state_of (with_state j f s) i = (if i = j then Some (f st) else state_of s i)" by simp
  show ?thesis
  proof (cases "i = j")
    case True
    with assms(1) Some have "st_stopped st" by (simp add: stopped_at_def)
    with w True assms(2) [of st] show ?thesis unfolding stopped_at_def by simp
  next
    case False
    with w assms(1) show ?thesis unfolding stopped_at_def by simp
  qed
qed

lemma stopped_views:
  assumes "stopped_at s i"
  shows "stopped_at (register_start j pid s) i" "stopped_at (register_exit j ev s) i" "stopped_at (close_done j s) i"
    "stopped_at (mark_stopped s) i" "c_ID c \<noteq> i \<Longrightarrow> stopped_at (add_state c s) i"
proof -
  show "stopped_at (register_start j pid s) i"
    using stopped_with [OF assms, of "\<lambda>st. st\<lparr>st_pid := pid, st_starts := Suc (st_starts st)\<rparr>" j]
    by (simp add: register_start_def Let_def stopped_index)
  show "stopped_at (register_exit j ev s) i"
    using assms stopped_with [of "s\<lparr>s_pidIndex := AList.delete (rp_PID ev) (s_pidIndex s)\<rparr>" i "\<lambda>st. st\<lparr>st_lastExit := Some ev\<rparr>" j]
    by (simp add: register_exit_def stopped_index)
  show "stopped_at (close_done j s) i"
    using assms stopped_with [OF assms, of "\<lambda>st. st\<lparr>st_done := True\<rparr>" j]
    by (simp add: close_done_def stopped_panic split: option.split)
  show "stopped_at (mark_stopped s) i" using assms by (auto simp: stopped_at_def)
  show "c_ID c \<noteq> i \<Longrightarrow> stopped_at (add_state c s) i" using assms by (simp add: stopped_at_def)
qed

lemma stopped_start_step:
  assumes "run_state (start_step K rt bundles c pc s) tr = ((pc', s'), tr')" "stopped_at s i"
  shows "stopped_at s' i"
proof (cases "\<exists>e. pc = SPEnd e")
  case False
  then have "\<forall>e. pc \<noteq> SPEnd e" by simp
  from assms(1) this show ?thesis
    by (cases rule: start_step_cases) (use assms(2) stopped_views(1) in auto)
qed (use assms in auto)

text \<open>Once a container is marked as stopped, it stays so.\<close>

lemma stopped_step:
  assumes d: "distinct (map c_ID cs)" and inv: "sys_inv cs y" and i: "stopped_at (y_sup y) i"
    and st: "step K rt bundles cs a y = Some y'"
  shows "stopped_at (y_sup y') i"
proof (cases a)
  case AMain
  show ?thesis
  proof (cases "y_main y")
    case (MInsert k)
    show ?thesis
    proof (cases "k < length cs")
      case True
      from i have "i \<in> dom (state_of (y_sup y))" by (auto simp: stopped_at_def)
      with inv MInsert have "i \<in> c_ID ` set (take k cs)" by (simp add: sys_inv_def main_inv_def)
      moreover have "c_ID (cs ! k) \<notin> c_ID ` set (take k cs)"
        using d by (subst (asm) id_take_nth_drop [OF True]) auto
      ultimately have "c_ID (cs ! k) \<noteq> i" by blast
      with AMain st MInsert True stopped_views(5) [OF i] show ?thesis by auto
    qed (use AMain st MInsert i in auto)
  next
    case (MStart k pc)
    obtain pc' s' tr' where r: "run_state (start_step K rt bundles (cs ! k) pc (y_sup y)) (y_trace y) = ((pc', s'), tr')"
      by (metis prod.exhaust_sel)
    from stopped_start_step [OF r i] AMain st MStart r i show ?thesis
      by (cases pc) (auto simp: main_start_def split: option.splits)
  qed (use AMain st i in \<open>auto simp: stopped_panic split: if_splits option.splits\<close>)
next
  case ACons
  show ?thesis
  proof (cases "y_cons y")
    case (CStart c pc)
    obtain pc' s' tr' where r: "run_state (start_step K rt bundles c pc (y_sup y)) (y_trace y) = ((pc', s'), tr')"
      by (metis prod.exhaust_sel)
    from stopped_start_step [OF r i] ACons st CStart r i show ?thesis
      by (cases pc) (auto simp: cons_start_def finish_def intro: stopped_views split: if_splits)
  qed (use ACons st i in \<open>auto simp: stopped_panic finish_def intro!: stopped_views split: if_splits option.splits list.splits\<close>)
next
  case AMainCtx
  with st i show ?thesis by (auto elim!: main_cancelledE split: if_splits)
next
  case ASignal
  with st i show ?thesis by (auto elim!: stop_signalE intro: stopped_views)
next
  case AStop
  with st i show ?thesis by (auto elim!: stop_stepE)
next
  case ADeadline
  with st i show ?thesis by (auto elim!: stop_deadlineE)
qed (use st i in \<open>auto split: if_splits\<close>)

lemma stopped_act:
  assumes "distinct (map c_ID cs)" "sys_inv cs y \<and> stopped_at (y_sup y) i" "sys_act K rt bundles cs a y = Some y'"
  shows "sys_inv cs y' \<and> stopped_at (y_sup y') i"
proof -
  have "step K rt bundles cs a y = Some y'" using assms(3) by (simp add: sys_act_def split: if_splits)
  with stopped_step [OF assms(1)] inv_step [OF assms(1)] assms(2) show ?thesis by blast
qed

lemma stopped_marked: "i \<in> set (stop_ids s) \<Longrightarrow> stopped_at (mark_stopped s) i"
  using stop_ids_known [of s] by (auto simp: stopped_at_def)

subsection \<open>After the signal\<close>

lemma signal_act: "sys_act K rt bundles cs ASignal y = Some y' \<Longrightarrow> y_stop y = PIdle \<and> \<not> s_panic (y_sup y) \<and>
    y' = y\<lparr>y_sup := mark_stopped (y_sup y), y_stop := PTerm (stop_ids (y_sup y)) (stop_ids (y_sup y))\<rparr>"
  by (auto simp: sys_act_def elim!: stop_signalE split: if_splits)

context oci_runtime begin

text \<open>What every moment after the signal looks like.\<close>

lemma after_signal:
  assumes d: "distinct (map c_ID cs)" and fr: "fair_run K rt bundles cs \<sigma> \<alpha>" and n: "\<alpha> n = Some ASignal"
    and m: "n < m"
  shows "\<exists>l. y_trace (\<sigma> m) = y_trace (\<sigma> n) @ map (event_of argv) l \<and>
    stop_sent (stop_ids (y_sup (\<sigma> n))) (\<exists>p. n < p \<and> p < m \<and> allExited (y_sup (\<sigma> p)))
      (\<exists>p. n < p \<and> p < m \<and> \<alpha> p = Some ADeadline) (y_stop (\<sigma> m)) (kills l) \<and>
    (\<forall>i \<in> set (stop_ids (y_sup (\<sigma> n))). stopped_at (y_sup (\<sigma> m)) i)"
proof -
  let ?f = "sys_act K rt bundles cs" let ?ids = "stop_ids (y_sup (\<sigma> n))"
  let ?e = "\<lambda>m. \<exists>p. n < p \<and> p < m \<and> allExited (y_sup (\<sigma> p))"
  let ?d = "\<lambda>m. \<exists>p. n < p \<and> p < m \<and> \<alpha> p = Some ADeadline"
  from fr have ex: "execution ?f \<sigma> \<alpha>" by (simp add: fair_run_def)
  note sig = signal_act [OF execution_step [OF ex n]]
  obtain tr where "steps K rt bundles cs (initial tr) (\<sigma> n)"
    using fair_reachable [OF fr, of n] by (auto simp: reachable_def)
  from log_steps [OF this log_initial inv_initial d] obtain l0 where l0: "log_inv bundles cs l0 (\<sigma> n)" by auto
  have inv1: "log_inv bundles cs (l0 @ []) (\<sigma> (Suc n))"
    using l0 sig stop_ids_known [of "y_sup (\<sigma> n)"]
    by (auto simp: log_inv_def tracked_run_cong [OF tracked_mark(1)] mark_views(1))
  have sent1: "stop_sent ?ids (?e (Suc n)) (?d (Suc n)) (y_stop (\<sigma> (Suc n))) []" using sig by simp
  have stopped1: "\<forall>i \<in> set ?ids. stopped_at (y_sup (\<sigma> (Suc n))) i" using sig by (simp add: stopped_marked)
  have "\<exists>l. y_trace (\<sigma> m) = y_trace (\<sigma> n) @ map (event_of argv) l \<and> log_inv bundles cs (l0 @ l) (\<sigma> m) \<and>
    stop_sent ?ids (?e m) (?d m) (y_stop (\<sigma> m)) (kills l) \<and> (\<forall>i \<in> set ?ids. stopped_at (y_sup (\<sigma> m)) i)"
    if "Suc n \<le> m" for m
    using that
  proof (induction m rule: dec_induct)
    case base
    from sig inv1 sent1 stopped1 show ?case by (intro exI [of _ "[]"]) simp
  next
    case (step m)
    then obtain l where l: "y_trace (\<sigma> m) = y_trace (\<sigma> n) @ map (event_of argv) l" "log_inv bundles cs (l0 @ l) (\<sigma> m)"
      "stop_sent ?ids (?e m) (?d m) (y_stop (\<sigma> m)) (kills l)" "\<forall>i \<in> set ?ids. stopped_at (y_sup (\<sigma> m)) i" by blast
    have mono: "stop_sent ?ids (?e (Suc m)) (?d (Suc m)) pc ks"
      if "stop_sent ?ids (?e m \<or> e) (?d m \<or> d) pc ks" "e \<Longrightarrow> allExited (y_sup (\<sigma> m))" "d \<Longrightarrow> \<alpha> m = Some ADeadline"
      for pc ks e d
      using that(1) by (rule stop_sent_mono) (use that(2,3) step.hyps in \<open>auto simp: less_Suc_eq Suc_le_eq\<close>)
    show ?case
    proof (rule execution_cases [OF ex, of m])
      assume "\<sigma> (Suc m) = \<sigma> m"
      with l mono [of False False] show ?case by (intro exI [of _ l]) simp
    next
      fix a assume a: "\<alpha> m = Some a" "?f a (\<sigma> m) = Some (\<sigma> (Suc m))"
      then have st: "step K rt bundles cs a (\<sigma> m) = Some (\<sigma> (Suc m))" by (simp add: sys_act_def split: if_splits)
      note inv = fair_inv [OF d fr, of m]
      from log_step [OF l(2) inv d st] obtain "is" where i: "y_trace (\<sigma> (Suc m)) = y_trace (\<sigma> m) @ map (event_of argv) is"
        "log_inv bundles cs ((l0 @ l) @ is) (\<sigma> (Suc m))" "kills is = (if a = AStop then stop_kill (y_stop (\<sigma> m)) else [])"
        by blast
      have "stop_sent ?ids (?e (Suc m)) (?d (Suc m)) (y_stop (\<sigma> (Suc m))) (kills (l @ is))"
        by (rule mono [OF stop_sent_act [OF l(3) a(2), folded i(3), folded kills_append]]) (use a(1) in auto)
      moreover have "\<forall>i \<in> set ?ids. stopped_at (y_sup (\<sigma> (Suc m))) i" using stopped_step [OF d inv _ st] l(4) by blast
      ultimately show ?case using l(1) i(1,2) by (intro exI [of _ "l @ is"]) simp
    qed
  qed
  from this [of m] m show ?thesis by auto
qed

end

lemma stop_sent_done: "stop_sent ids e d PDone ks \<Longrightarrow> ks = terms ids \<and> e \<or> ks = terms ids @ killed ids \<and> d"
  by simp

lemma main_end_events:
  "\<exists>q rest. snd (run_state (main_end K r) tr) =
    tr @ (if r = None then [] else [ESleep 3000]) @ [ESync, EReboot q] @ rest"
proof (cases r)
  case None
  then show ?thesis by (simp add: main_end_def poweroff_def)
next
  case (Some e)
  with main_end_failed [of K e tr] show ?thesis by auto
qed


subsection \<open>A Stop that kills nobody\<close>

lemma set_update_subset: "set (AList.update k v al) \<subseteq> insert (k, v) (set al)"
  by (induction al) auto

lemma exited_with:
  assumes "allExited s" "\<And>st. st_lastExit st \<noteq> None \<Longrightarrow> st_lastExit (f st) \<noteq> None"
  shows "allExited (with_state i f s)"
proof (cases "map_of (s_states s) i")
  case None
  with assms(1) show ?thesis by (simp add: with_state_def allExited_def)
next
  case (Some st)
  then have "st_lastExit st \<noteq> None" using assms(1) map_of_SomeD [OF Some] by (auto simp: allExited_def list_all_iff)
  with assms(1) assms(2) [of st] set_update_subset [of i "f st" "s_states s"] Some show ?thesis
    by (fastforce simp: with_state_def allExited_def list_all_iff)
qed

lemma exited_fields: "allExited (s\<lparr>s_pidIndex := ix\<rparr>) = allExited s" "allExited (s\<lparr>s_panic := b\<rparr>) = allExited s"
  by (simp_all add: allExited_def)

lemma exited_views:
  assumes "allExited s"
  shows "allExited (register_start i pid s)" "allExited (register_exit i ev s)" "allExited (close_done i s)"
    "allExited (mark_stopped s)"
proof -
  show "allExited (register_start i pid s)"
    using exited_with [OF assms, of "\<lambda>st. st\<lparr>st_pid := pid, st_starts := Suc (st_starts st)\<rparr>" i]
    by (simp add: register_start_def Let_def exited_fields)
  show "allExited (register_exit i ev s)"
    using exited_with [of "s\<lparr>s_pidIndex := AList.delete (rp_PID ev) (s_pidIndex s)\<rparr>" "\<lambda>st. st\<lparr>st_lastExit := Some ev\<rparr>" i]
      assms by (simp add: register_exit_def exited_fields)
  show "allExited (close_done i s)"
    using assms exited_with [OF assms, of "\<lambda>st. st\<lparr>st_done := True\<rparr>" i]
    by (simp add: close_done_def exited_fields split: option.split)
  show "allExited (mark_stopped s)" using assms by (simp add: allExited_mark)
qed

lemma exited_start_step:
  assumes "run_state (start_step K rt bundles c pc s) tr = ((pc', s'), tr')" "allExited s"
  shows "allExited s'"
proof (cases "\<exists>e. pc = SPEnd e")
  case False
  then have "\<forall>e. pc \<noteq> SPEnd e" by simp
  from assms(1) this show ?thesis
    by (cases rule: start_step_cases) (use assms(2) exited_views(1) in auto)
qed (use assms in auto)

text \<open>Once every container has exited, and \<open>Run\<close> stores no further one, that stays so, restarts included.\<close>

lemma exited_step:
  assumes "(\<exists>k. y_main y = MWait k) \<or> (\<exists>r. y_main y = MReturned r)" "allExited (y_sup y)"
    and st: "step K rt bundles cs a y = Some y'"
  shows "allExited (y_sup y')"
proof (cases a)
  case AMain
  with st assms(1,2) show ?thesis by (auto simp: exited_fields split: if_splits option.splits)
next
  case ACons
  show ?thesis
  proof (cases "y_cons y")
    case (CStart c pc)
    obtain pc' s' tr' where r: "run_state (start_step K rt bundles c pc (y_sup y)) (y_trace y) = ((pc', s'), tr')"
      by (metis prod.exhaust_sel)
    from exited_start_step [OF r assms(2)] ACons st CStart r assms(2) show ?thesis
      by (cases pc) (auto simp: cons_start_def finish_def intro: exited_views split: if_splits)
  qed (use ACons st assms(2) in \<open>auto simp: exited_fields finish_def intro!: exited_views split: if_splits option.splits list.splits\<close>)
next
  case AMainCtx
  with st assms(2) show ?thesis by (auto elim!: main_cancelledE split: if_splits)
next
  case ASignal
  with st assms(2) show ?thesis by (auto elim!: stop_signalE intro: exited_views)
next
  case AStop
  with st assms(2) show ?thesis by (auto elim!: stop_stepE)
next
  case ADeadline
  with st assms(2) show ?thesis by (auto elim!: stop_deadlineE)
qed (use st assms(2) in \<open>auto split: if_splits\<close>)

lemma no_deadline: "stop_sent ids e False pc ks \<Longrightarrow> prefix ks (terms ids) \<and> (\<forall>is. pc \<noteq> PKill is)"
  by (cases pc) auto

context oci_runtime begin

lemma never_kills:
  assumes d: "distinct (map c_ID cs)" and re: "reachable K rt bundles cs y" and w: "y_main y = MWait k"
    and e: "allExited (y_sup y)" and sig: "sys_act K rt bundles cs ASignal y = Some y1"
    and st: "steps K rt bundles cs y1 y'"
  shows "\<exists>l. y_trace y' = y_trace y @ map (event_of argv) l \<and>
    stop_sent (stop_ids (y_sup y)) True False (y_stop y') (kills l) \<and> (\<forall>is. y_stop y' \<noteq> PSleep is)"
proof -
  let ?ids = "stop_ids (y_sup y)" let ?f = "sys_act K rt bundles cs"
  let ?w = "\<lambda>y. (\<exists>k \<le> length cs. y_main y = MWait k) \<or> (\<exists>r. y_main y = MReturned r)"
  note s = signal_act [OF sig] note inv = inv_reachable [OF d re]
  obtain tr where "steps K rt bundles cs (initial tr) y" using re by (auto simp: reachable_def)
  from log_steps [OF this log_initial inv_initial d] obtain l0 where l0: "log_inv bundles cs l0 y" by auto
  have "log_inv bundles cs (l0 @ []) y1"
    using l0 s stop_ids_known [of "y_sup y"]
    by (auto simp: log_inv_def tracked_run_cong [OF tracked_mark(1)] mark_views(1))
  moreover have "sys_inv cs y1"
    by (rule inv_step [OF d inv, of K rt bundles ASignal]) (use sig in \<open>simp add: sys_act_def split: if_splits\<close>)
  moreover have "?w y1" using s w inv by (simp add: sys_inv_def main_inv_def)
  moreover have "allExited (y_sup y1)" using s e exited_views(4) by simp
  moreover have "stop_sent ?ids True False (y_stop y1) [] \<and> (\<forall>is. y_stop y1 \<noteq> PSleep is)" using s by simp
  moreover have "y_trace y1 = y_trace y @ map (event_of argv) []" using s by simp
  ultimately have init: "\<exists>l. y_trace y1 = y_trace y @ map (event_of argv) l \<and> log_inv bundles cs (l0 @ l) y1 \<and>
    stop_sent ?ids True False (y_stop y1) (kills l) \<and> (\<forall>is. y_stop y1 \<noteq> PSleep is) \<and>
    sys_inv cs y1 \<and> ?w y1 \<and> allExited (y_sup y1)" by (intro exI [of _ "[]"]) simp
  have "\<exists>l. y_trace y' = y_trace y @ map (event_of argv) l \<and> log_inv bundles cs (l0 @ l) y' \<and>
    stop_sent ?ids True False (y_stop y') (kills l) \<and> (\<forall>is. y_stop y' \<noteq> PSleep is) \<and>
    sys_inv cs y' \<and> ?w y' \<and> allExited (y_sup y')"
    using st unfolding steps_def
  proof (induction rule: rtranclp_induct)
    case base
    show ?case by (rule init)
  next
    case (step u v)
    then obtain l where l: "y_trace u = y_trace y @ map (event_of argv) l" "log_inv bundles cs (l0 @ l) u"
      "stop_sent ?ids True False (y_stop u) (kills l)" "\<forall>is. y_stop u \<noteq> PSleep is" "sys_inv cs u" "?w u" "allExited (y_sup u)"
      by blast
    from step.hyps(2) obtain a where a: "\<not> s_panic (y_sup u)" "step K rt bundles cs a u = Some v" by (auto elim: sys_stepE)
    then have f: "?f a u = Some v" by (simp add: sys_act_def)
    from log_step [OF l(2,5) d a(2)] obtain "is" where i: "y_trace v = y_trace u @ map (event_of argv) is"
      "log_inv bundles cs ((l0 @ l) @ is) v" "kills is = (if a = AStop then stop_kill (y_stop u) else [])" by blast
    have "a \<noteq> ADeadline" using a(2) l(4) by (auto elim!: stop_deadlineE)
    with stop_sent_act [OF l(3) f] i(3) have "stop_sent ?ids True False (y_stop v) (kills (l @ is))" by simp
    moreover have "\<forall>is. y_stop v \<noteq> PSleep is"
    proof (cases "a = AStop")
      case True
      with a(2) have "stop_step rt (y_stop u) u = Some v" by simp
      with l(3,4,7) show ?thesis
        by (cases "(rt, y_stop u, u)" rule: stop_step.cases) auto
    next
      case False
      with act_keeps(1) [OF f] f l(4) \<open>a \<noteq> ADeadline\<close> show ?thesis
        by (cases "a = ASignal") (auto dest: signal_act)
    qed
    moreover have "?w v" by (rule waiting_act [OF l(6) f])
    moreover have "allExited (y_sup v)" by (rule exited_step [OF _ l(7) a(2)]) (use l(6) in blast)
    moreover have "sys_inv cs v" by (rule inv_step [OF d l(5) a(2)])
    ultimately show ?case using l(1) i(1,2) by (intro exI [of _ "l @ is"]) simp
  qed
  then show ?thesis by blast
qed

end

text \<open>
  C32. \<open>Stop\<close> returns while a container runs, without having waited and without having sent a SIGKILL:
  \<open>allExited\<close> looks at the last exit, which a restart does not reset, so a container that has exited
  once counts as exited ever after.  Once \<open>Run\<close> waits and every container has exited at least once,
  a shutdown signal makes \<open>Stop\<close> send its SIGTERMs and nothing more in every interleaving that
  follows; it never comes to sleep or to kill.  And with no other goroutine acting it returns with
  every tracked container, one that was restarted included, still tracked and not done.
\<close>

theorem stop_returns_while_running:
  assumes "distinct (map c_ID cs)" "reachable K (crun_runtime K rc) bundles cs y" "y_main y = MWait k"
    and "y_stop y = PIdle" "allExited (y_sup y)" "ids = stop_ids (y_sup y)"
  shows "(\<forall>y1 y'. step K (crun_runtime K rc) bundles cs ASignal y = Some y1 \<longrightarrow>
      steps K (crun_runtime K rc) bundles cs y1 y' \<longrightarrow>
      (\<exists>l. y_trace y' = y_trace y @ map (event_of (crun_argv rc)) l \<and> prefix (kills l) (map (\<lambda>i. (i, ''TERM'')) ids)) \<and>
      (\<forall>is. y_stop y' \<noteq> PSleep is \<and> y_stop y' \<noteq> PKill is)) \<and>
    (\<exists>as y'. set as \<subseteq> {AStop, ADeadline} \<and>
      run_acts K (crun_runtime K rc) bundles cs (ASignal # as) y = Some y' \<and> y_stop y' = PDone \<and>
      tracked (y_sup y') = tracked (y_sup y) \<and> (\<forall>i. is_done (y_sup y') i = is_done (y_sup y) i))"
proof
  have p: "\<not> s_panic (y_sup y)" using inv_reachable [OF assms(1,2)] by (simp add: sys_inv_def sup_ok_def)
  show "\<forall>y1 y'. step K (crun_runtime K rc) bundles cs ASignal y = Some y1 \<longrightarrow>
      steps K (crun_runtime K rc) bundles cs y1 y' \<longrightarrow>
      (\<exists>l. y_trace y' = y_trace y @ map (event_of (crun_argv rc)) l \<and> prefix (kills l) (map (\<lambda>i. (i, ''TERM'')) ids)) \<and>
      (\<forall>is. y_stop y' \<noteq> PSleep is \<and> y_stop y' \<noteq> PKill is)"
  proof (intro allI impI)
    fix y1 y' assume "step K (crun_runtime K rc) bundles cs ASignal y = Some y1"
      and st: "steps K (crun_runtime K rc) bundles cs y1 y'"
    with p have "sys_act K (crun_runtime K rc) bundles cs ASignal y = Some y1" by (simp add: sys_act_def)
    from crun.never_kills [OF assms(1-3,5) this st] no_deadline
    show "(\<exists>l. y_trace y' = y_trace y @ map (event_of (crun_argv rc)) l \<and> prefix (kills l) (map (\<lambda>i. (i, ''TERM'')) ids)) \<and>
      (\<forall>is. y_stop y' \<noteq> PSleep is \<and> y_stop y' \<noteq> PKill is)" unfolding assms(6) by blast
  qed
  let ?y = "y\<lparr>y_sup := mark_stopped (y_sup y), y_stop := PTerm ids ids\<rparr>"
  have "\<not> s_panic (y_sup ?y)" "y_stop ?y = PTerm ids ids" using p by simp_all
  from crun.stop_run [OF this] obtain as y' where "set as \<subseteq> {AStop, ADeadline}"
    "run_acts K (crun_runtime K rc) bundles cs as ?y = Some y'" "y_stop y' = PDone" "y_sup y' = y_sup ?y" by blast
  then show "\<exists>as y'. set as \<subseteq> {AStop, ADeadline} \<and>
      run_acts K (crun_runtime K rc) bundles cs (ASignal # as) y = Some y' \<and> y_stop y' = PDone \<and>
      tracked (y_sup y') = tracked (y_sup y) \<and> (\<forall>i. is_done (y_sup y') i = is_done (y_sup y) i)"
    using p assms(4,6) by (intro exI [of _ as] exI [of _ y']) (simp add: mark_views(2))
qed

subsection \<open>Examples\<close>

text \<open>A kernel on which every run of crun succeeds and every container has the pid 7.\<close>

definition pid7_kernel :: kernel where
  "pid7_kernel = (kernel_with (\<lambda>_. None))\<lparr>k_exec := (\<lambda>_ _. (None, ''{\"pid\":7,\"status\":\"running\"}''))\<rparr>"

lemma pid7_crun:
  "run_state (rt_Create (crun_runtime pid7_kernel r) i b sio) tr = (None, tr @ [EExec (crun_argv r (CallCreate i b)) None])"
  "run_state (rt_Start (crun_runtime pid7_kernel r) i) tr = (None, tr @ [EExec (crun_argv r (CallStart i)) None])"
  "run_state (rt_Kill (crun_runtime pid7_kernel r) i sig) tr = (None, tr @ [EExec (crun_argv r (CallKill i sig)) None])"
  "run_state (rt_Delete (crun_runtime pid7_kernel r) i) tr = (None, tr @ [EExec (crun_argv r (CallDelete i)) None])"
  "run_state (rt_State (crun_runtime pid7_kernel r) i) tr = ((''running'', 7, None), tr @ [EExec (crun_argv r (CallState i)) None])"
proof -
  have "parseState ''{\"pid\":7,\"status\":\"running\"}'' = (''running'', int 7)"
  proof (rule parseState_compact)
    show "''{\"pid\":7,\"status\":\"running\"}'' = ''{'' @ pid_key @ show_nat 7 @ '',\"status\":\"running\"}''"
      by (simp add: pid_key_def show_nat.simps digit_char_def)
    show "''{\"pid\":7,\"status\":\"running\"}'' = ''{\"pid\":7,'' @ status_key @ ''running'' @ CHR 34 # ''}''"
      by (simp add: status_key_def)
  qed (simp_all add: pid_key_def status_key_def sublist_Cons_right is_digit_def)
  then show "run_state (rt_State (crun_runtime pid7_kernel r) i) tr = ((''running'', 7, None), tr @ [EExec (crun_argv r (CallState i)) None])"
    by (simp add: crun_runtime_def crun_State_def combinedRun_def no_stdio_def exec_run_def pid7_kernel_def crun_argv_def)
qed (simp_all add: crun_runtime_def crun_Create_def crun_Start_def crun_Kill_def crun_Delete_def combinedRun_def
    exec_run_def pid7_kernel_def crun_argv_def)

lemma pid7_console: "run_state (os_open pid7_kernel p) tr = (None, tr @ [EOpen p None])"
  by (simp add: os_open_def pid7_kernel_def kernel_with_def)

abbreviation run7 :: "RestartPolicy \<Rightarrow> act list \<Rightarrow> sys option" where
  "run7 pol as \<equiv> run_acts pid7_kernel (crun_runtime pid7_kernel crun_New) [(''web'', ''/b/web'')] [web pol] as (initial [])"

lemma run7_started: "\<exists>tr. run7 pol start_acts =
  Some \<lparr>y_sup = one_running pol, y_chan = [], y_closed = False, y_cancelled = False,
    y_trace = tr, y_main = MWait 0, y_cons = CRecv, y_stop = PIdle\<rparr>"
  by (simp add: start_acts_def numeral_eq_Suc initial_def New_def web_def add_state_def new_container_def
      main_start_def pid7_console pid7_crun register_start_def with_state_def new_state_def one_running_def)

text \<open>The container that exits, is restarted and then left behind by \<open>Stop\<close>.\<close>

lemma run7_restarted: "\<exists>tr. run7 RestartAlways (start_acts @ AReap (exit_of 7) # replicate 8 ACons) =
  Some \<lparr>y_sup = \<lparr>s_states = [(''web'', \<lparr>st_restart = RestartAlways, st_starts = 2, st_lastExit = Some (exit_of 7), st_pid = 7,
      st_stopped = False, st_done = False\<rparr>)], s_pidIndex = [(7, ''web'')], s_panic = False\<rparr>,
    y_chan = [], y_closed = False, y_cancelled = False, y_trace = tr, y_main = MWait 0, y_cons = CRecv, y_stop = PIdle\<rparr>"
proof -
  obtain tr where "run7 RestartAlways start_acts = Some \<lparr>y_sup = one_running RestartAlways, y_chan = [], y_closed = False,
    y_cancelled = False, y_trace = tr, y_main = MWait 0, y_cons = CRecv, y_stop = PIdle\<rparr>" using run7_started by blast
  then show ?thesis
    by (simp add: run_acts_append)
      (simp add: numeral_eq_Suc one_running_def exit_of_def tracked_def register_exit_def
        register_start_def with_state_def state_of_def shouldRestart_def web_def new_container_def
        publish_def chan_cap_def cons_start_def pid7_console pid7_crun)
qed

theorem stop_returns_while_running_witness:
  "\<exists>y as y' l. run7 RestartAlways (start_acts @ AReap (exit_of 7) # replicate 8 ACons) = Some y \<and>
    starts (y_sup y) ''web'' = Some 2 \<and>
    run_acts pid7_kernel (crun_runtime pid7_kernel crun_New) [(''web'', ''/b/web'')] [web RestartAlways] (ASignal # as) y = Some y' \<and>
    y_stop y' = PDone \<and> tracked (y_sup y') 7 = Some ''web'' \<and> \<not> is_done (y_sup y') ''web'' \<and>
    y_trace y' = y_trace y @ map (event_of (crun_argv crun_New)) l \<and> prefix (kills l) [(''web'', ''TERM'')]"
proof -
  let ?rt = "crun_runtime pid7_kernel crun_New" let ?cs = "[web RestartAlways]" let ?b = "[(''web'', ''/b/web'')]"
  obtain y where y: "run7 RestartAlways (start_acts @ AReap (exit_of 7) # replicate 8 ACons) = Some y"
    "y_main y = MWait 0" "y_stop y = PIdle" "allExited (y_sup y)" "[''web''] = stop_ids (y_sup y)"
    "starts (y_sup y) ''web'' = Some 2" "tracked (y_sup y) 7 = Some ''web''" "\<not> is_done (y_sup y) ''web''" "\<not> s_panic (y_sup y)"
    using run7_restarted
    by (auto simp: allExited_def stop_ids_def starts_def state_of_def tracked_def is_done_def)
  have d: "distinct (map c_ID ?cs)" by simp
  have re: "reachable pid7_kernel ?rt ?b ?cs y" using run_acts_steps [OF y(1)] unfolding reachable_def by blast
  note s = stop_returns_while_running [OF d re y(2-5)]
  from s [THEN conjunct2] obtain as y' where a: "run_acts pid7_kernel ?rt ?b ?cs (ASignal # as) y = Some y'" "y_stop y' = PDone"
    "tracked (y_sup y') = tracked (y_sup y)" "\<forall>i. is_done (y_sup y') i = is_done (y_sup y) i" by blast
  from a(1) obtain y1 where y1: "step pid7_kernel ?rt ?b ?cs ASignal y = Some y1" "run_acts pid7_kernel ?rt ?b ?cs as y1 = Some y'"
    using y(9) by (auto split: option.splits)
  from s [THEN conjunct1, rule_format, OF y1(1) run_acts_steps [OF y1(2)]] obtain l where
    "y_trace y' = y_trace y @ map (event_of (crun_argv crun_New)) l" "prefix (kills l) [(''web'', ''TERM'')]" by auto
  with y(1,6-8) a show ?thesis by (intro exI conjI) (assumption | simp)+
qed


end
