(* ===== verification/Lost_Exit.thy ===== *)
theory Lost_Exit
  imports Fair_Shutdown
begin

text \<open>
  What a full event channel costs.  The reaper drops the exits it cannot queue (reaper.go), and the
  consumer learns of the end of a container from its queued exit alone.
\<close>

subsection \<open>A container whose exit is lost\<close>

text \<open>
  Container \<open>i\<close> is registered and not done, at most its pid \<open>p\<close> leads to it, no waiting event carries that
  pid, and no goroutine is at work on it.
\<close>

definition lost :: "Container list \<Rightarrow> string \<Rightarrow> int \<Rightarrow> sys \<Rightarrow> bool" where
  "lost cs i p y \<longleftrightarrow>
     (\<exists>st. state_of (y_sup y) i = Some st \<and> \<not> st_done st) \<and>
     (\<forall>q. tracked (y_sup y) q = Some i \<longrightarrow> q = p) \<and>
     p \<notin> rp_PID ` set (y_chan y) \<and>
     active (y_cons y) \<noteq> Some i \<and>
     (\<forall>k pc. y_main y = MStart k pc \<longrightarrow> pc \<noteq> SPEnd None \<longrightarrow> c_ID (cs ! k) \<noteq> i)"

lemma lost_cong:
  assumes "lost cs i p y" "state_of (y_sup y') i = state_of (y_sup y) i" "tracked (y_sup y') = tracked (y_sup y)"
    "y_cons y' = y_cons y" "y_main y' = y_main y" "p \<notin> rp_PID ` set (y_chan y')"
  shows "lost cs i p y'"
  using assms by (simp add: lost_def)

lemma lost_register:
  assumes "lost cs i p y" "j \<noteq> i" "state_of (y_sup y) j \<noteq> None"
  shows "lost cs i p (y\<lparr>y_sup := register_start j pid (y_sup y)\<rparr>)"
  using assms by (auto simp: lost_def split: if_splits)

lemma lost_finish:
  assumes "lost cs i p y" "active (y_cons y) = Some j" "cons_inv cs y"
  shows "lost cs i p (finish j y)"
proof -
  from assms(2,3) obtain st where st: "state_of (y_sup y) j = Some st" "\<not> st_done st"
    by (auto simp: cons_inv_def exited_pending_def)
  from assms(1,2) have "j \<noteq> i" by (auto simp: lost_def)
  with assms(1) close_done_simps [OF st] show ?thesis by (simp add: lost_def finish_def)
qed

lemma lost_start:
  assumes "lost cs i p y" "j \<noteq> i" "state_of (y_sup y) j \<noteq> None" "c_ID c = j"
    and "run_state (start_step K rt bundles c pc (y_sup y)) (y_trace y) = ((pc', s'), tr')" "\<forall>e. pc \<noteq> SPEnd e"
  shows "lost cs i p (y\<lparr>y_sup := s', y_trace := tr'\<rparr>)"
  using assms(5,6)
proof (cases rule: start_step_cases)
  case 1
  with assms(1) show ?thesis by (simp add: lost_def)
next
  case (2 pid)
  with lost_register [OF assms(1-3), of pid] assms(4) show ?thesis by (simp add: lost_def)
qed

lemma lost_main:
  assumes l: "lost cs i p y" and inv: "sys_inv cs y" and d: "distinct (map c_ID cs)"
    and st: "main_step K rt bundles cs (y_main y) y = Some y'"
  shows "lost cs i p y'"
proof (cases "y_main y")
  case (MInsert k)
  show ?thesis
  proof (cases "k < length cs")
    case True
    have "i \<in> dom (state_of (y_sup y))" using l by (auto simp: lost_def)
    with inv MInsert have "i \<in> c_ID ` set (take k cs)" by (simp add: sys_inv_def main_inv_def)
    with fresh_id [OF d True] have "c_ID (cs ! k) \<noteq> i" by auto
    with l st MInsert True show ?thesis by (auto simp: lost_def)
  qed (use l st MInsert in \<open>auto simp: lost_def\<close>)
next
  case (MStart k pc)
  show ?thesis
  proof (cases "\<exists>e. pc = SPEnd e")
    case True
    with st MStart l show ?thesis by (auto simp: lost_def split: option.splits)
  next
    case False
    then have y': "y' = main_start K rt bundles cs k pc y" using st MStart by (cases pc) auto
    obtain pc' s' tr' where r: "run_state (start_step K rt bundles (cs ! k) pc (y_sup y)) (y_trace y) = ((pc', s'), tr')"
      by (metis prod.exhaust_sel)
    have j: "c_ID (cs ! k) \<noteq> i" using l MStart False by (auto simp: lost_def)
    have "c_ID (cs ! k) \<in> dom (state_of (y_sup y))"
      using inv MStart by (auto simp: sys_inv_def main_inv_def take_Suc_conv_app_nth)
    with lost_start [OF l j _ refl r] False have "lost cs i p (y\<lparr>y_sup := s', y_trace := tr'\<rparr>)" by blast
    with y' r j show ?thesis by (simp add: main_start_def lost_def)
  qed
next
  case (MWait k)
  with st l show ?thesis by (auto simp: lost_def split: if_splits option.splits)
qed (use st in simp)

lemma lost_recv:
  assumes l: "lost cs i p y" and inv: "sys_inv cs y" and c: "y_chan y = ev # evs"
    and st: "cons_step K rt bundles cs CRecv y = Some y'"
  shows "lost cs i p y'"
proof (cases "tracked (y_sup y) (rp_PID ev)")
  case None
  with st c l show ?thesis by (auto simp: lost_def)
next
  case (Some j)
  then obtain t where "state_of (y_sup y) j = Some t" using inv unfolding sys_inv_def sup_ok_def by blast
  moreover from Some c l have "j \<noteq> i" by (auto simp: lost_def)
  ultimately show ?thesis using st c Some l by (auto simp: lost_def split: if_splits)
qed

lemma lost_cons_start:
  assumes l: "lost cs i p y" and c: "cons_inv cs y" and CStart: "y_cons y = CStart c pc"
    and st: "cons_step K rt bundles cs (CStart c pc) y = Some y'"
  shows "lost cs i p y'"
proof (cases "\<exists>e. pc = SPEnd e")
  case True
  then obtain e where e: "pc = SPEnd e" by blast
  with lost_finish [OF l _ c, of "c_ID c"] st CStart l show ?thesis by (cases e) (auto simp: lost_def)
next
  case False
  then have a: "active (y_cons y) = Some (c_ID c)" using CStart by auto
  have y': "y' = cons_start K rt bundles c pc y" using st False by (cases pc) auto
  obtain pc' s' tr' where r: "run_state (start_step K rt bundles c pc (y_sup y)) (y_trace y) = ((pc', s'), tr')"
    by (metis prod.exhaust_sel)
  have j: "c_ID c \<noteq> i" "state_of (y_sup y) (c_ID c) \<noteq> None"
    using l a c by (auto simp: lost_def cons_inv_def exited_pending_def)
  with lost_start [OF l j refl r] False have "lost cs i p (y\<lparr>y_sup := s', y_trace := tr'\<rparr>)" by blast
  with y' r j show ?thesis by (simp add: cons_start_def lost_def)
qed

lemma lost_cons:
  assumes l: "lost cs i p y" and inv: "sys_inv cs y"
    and st: "cons_step K rt bundles cs (y_cons y) y = Some y'"
  shows "lost cs i p y'"
proof (cases "y_cons y")
  case CRecv
  with lost_recv [OF l inv] st l show ?thesis by (cases "y_chan y") (auto simp: lost_def split: if_splits)
next
  case (CDecide j ev)
  have c: "cons_inv cs y" using inv by (simp add: sys_inv_def)
  then obtain t where t: "state_of (y_sup y) j = Some t"
    using CDecide by (auto simp: cons_inv_def exited_pending_def)
  have "y' = finish j y \<or> (\<exists>c. c_ID c = j \<and> y' = y\<lparr>y_cons := CStart c SPCreate\<rparr>)"
    using st CDecide t by (auto split: if_splits option.splits dest: findSpec_Some)
  with lost_finish [OF l _ c, of j] CDecide l show ?thesis by (auto simp: lost_def)
next
  case (CStart c pc)
  have "cons_inv cs y" using inv by (simp add: sys_inv_def)
  from lost_cons_start [OF l this CStart] st CStart show ?thesis by simp
qed (use st l in \<open>auto simp: lost_def\<close>)

lemma lost_act:
  assumes l: "lost cs i p y" and inv: "sys_inv cs y" and d: "distinct (map c_ID cs)"
    and st: "sys_act K rt bundles cs a y = Some y'" and a: "\<And>ev. a = AReap ev \<Longrightarrow> rp_PID ev \<noteq> p"
  shows "lost cs i p y'"
proof (cases a)
  case AMain
  with lost_main [OF l inv d] st show ?thesis by (auto simp: sys_act_def split: if_splits)
next
  case ACons
  with lost_cons [OF l inv] st show ?thesis by (auto simp: sys_act_def split: if_splits)
next
  case (AReap ev)
  with st l a show ?thesis by (auto simp: sys_act_def lost_def publish_def split: if_splits)
next
  case ASignal
  with st l show ?thesis by (auto simp: sys_act_def lost_def elim!: stop_signalE split: if_splits)
next
  case AMainCtx
  with st l show ?thesis by (auto simp: sys_act_def lost_def elim!: main_cancelledE split: if_splits)
qed (use st l in \<open>auto simp: sys_act_def lost_def elim!: stop_stepE stop_deadlineE split: if_splits\<close>)

text \<open>The exit of a registered container arrives while the channel is full of other exits.\<close>

lemma lost_when_full:
  assumes inv: "sys_inv cs y" and t: "tracked (y_sup y) (rp_PID ev) = Some i"
    and full: "chan_cap \<le> length (y_chan y)" "rp_PID ev \<notin> rp_PID ` set (y_chan y)"
    and st: "step K rt bundles cs (AReap ev) y = Some y'"
  shows "lost cs i (rp_PID ev) y'"
proof -
  have y': "y' = y" using st full(1) by (auto simp: publish_def split: if_splits)
  have ok: "sup_ok (y_sup y)" using inv by (simp add: sys_inv_def)
  have "active (y_cons y) \<noteq> Some i"
    using inv t by (auto simp: sys_inv_def cons_inv_def exited_pending_def untracked_def)
  moreover have "c_ID (cs ! k) \<noteq> i" if "y_main y = MStart k pc" "pc \<noteq> SPEnd None" for k pc
    using inv t that by (auto simp: sys_inv_def main_inv_def untracked_def)
  moreover have "\<exists>st. state_of (y_sup y) i = Some st \<and> \<not> st_done st" "\<forall>q. tracked (y_sup y) q = Some i \<longrightarrow> q = rp_PID ev"
    using ok t unfolding sup_ok_def by blast+
  ultimately show ?thesis unfolding y' lost_def using full(2) by blast
qed

text \<open>
  C31. What a dropped exit costs: when the exit of a registered container is reaped while the channel is
  full of the exits of other processes, then in every execution that follows, in which no other child
  of the same pid exits, the container is never done and \<open>Run\<close> never returns nil: the pod hangs until it is
  shut down, whatever its restart policy, and however fair the scheduler is.
\<close>

theorem lost_exit_hangs:
  assumes "distinct (map c_ID cs)" "reachable K rt bundles cs y" "c \<in> set cs"
    and "tracked (y_sup y) (rp_PID ev) = Some (c_ID c)"
    and "chan_cap \<le> length (y_chan y)" "rp_PID ev \<notin> rp_PID ` set (y_chan y)"
    and "sys_act K rt bundles cs (AReap ev) y = Some (\<sigma> 0)" "execution (sys_act K rt bundles cs) \<sigma> \<alpha>"
    and "\<forall>n e. \<alpha> n = Some (AReap e) \<longrightarrow> rp_PID e \<noteq> rp_PID ev"
  shows "\<not> is_done (y_sup (\<sigma> n)) (c_ID c) \<and> y_main (\<sigma> n) \<noteq> MReturned None"
proof -
  let ?P = "\<lambda>y. lost cs (c_ID c) (rp_PID ev) y \<and> reachable K rt bundles cs y"
  have "step K rt bundles cs (AReap ev) y = Some (\<sigma> 0)" using assms(7) by (simp add: sys_act_def split: if_splits)
  with lost_when_full [OF inv_reachable [OF assms(1,2)] assms(4-6)] reachable_act [OF assms(2,7)]
  have 0: "?P (\<sigma> 0)" by blast
  have P: "?P (\<sigma> n)"
  proof (induction n)
    case (Suc n)
    show ?case
    proof (rule execution_cases [OF assms(8), of n])
      fix a assume a: "\<alpha> n = Some a" "sys_act K rt bundles cs a (\<sigma> n) = Some (\<sigma> (Suc n))"
      have "lost cs (c_ID c) (rp_PID ev) (\<sigma> (Suc n))"
        by (rule lost_act [OF _ inv_reachable [OF assms(1)] assms(1) a(2)]) (use Suc.IH a(1) assms(9) in auto)
      with Suc.IH reachable_act a(2) show ?thesis by blast
    qed (use Suc.IH in simp)
  qed (rule 0)
  then have nd: "\<not> is_done (y_sup (\<sigma> n)) (c_ID c)" by (auto simp: lost_def is_done_def)
  obtain j where j: "j < length cs" "cs ! j = c" using assms(3) by (auto simp: in_set_conv_nth)
  have "sys_inv cs (\<sigma> n)" using inv_reachable [OF assms(1)] P by blast
  with nd j show ?thesis by (auto simp: sys_inv_def main_inv_def)
qed

lemma reap_run:
  "\<not> s_panic (y_sup y) \<Longrightarrow> \<not> y_closed y \<Longrightarrow> list_all (\<lambda>ev. 0 < rp_PID ev) evs \<Longrightarrow>
   length (y_chan y) + length evs \<le> chan_cap \<Longrightarrow>
   run_acts K rt bundles cs (map AReap evs) y = Some (y\<lparr>y_chan := y_chan y @ evs\<rparr>)"
  by (induction evs arbitrary: y) (simp_all add: publish_def)

lemma skip_run:
  "\<not> s_panic (y_sup y) \<Longrightarrow> y_cons y = CRecv \<Longrightarrow> y_chan y = evs \<Longrightarrow>
   list_all (\<lambda>ev. tracked (y_sup y) (rp_PID ev) = None) evs \<Longrightarrow>
   run_acts K rt bundles cs (replicate (length evs) ACons) y = Some (y\<lparr>y_chan := []\<rparr>)"
  by (induction evs arbitrary: y) simp_all

text \<open>Sixty-four exits of other processes fill the channel, the consumer takes them all, and the pod hangs.\<close>

theorem lost_exit_hangs_witness:
  "\<exists>y y' \<sigma> \<alpha>. run_web RestartNever (start_acts @ map AReap (map exit_of [101..164])) = Some y \<and>
    sys_act (kernel_with (\<lambda>_. None)) (rt_fixed 7) [(''web'', ''/b/web'')] [web RestartNever] (AReap (exit_of 7)) y = Some y' \<and>
    \<sigma> 0 = y' \<and> execution (sys_act (kernel_with (\<lambda>_. None)) (rt_fixed 7) [(''web'', ''/b/web'')] [web RestartNever]) \<sigma> \<alpha> \<and>
    y_chan (\<sigma> 64) = [] \<and> y_cons (\<sigma> 64) = CRecv \<and> (\<nexists>n. y_main (\<sigma> n) = MReturned None)"
proof -
  let ?K = "kernel_with (\<lambda>_. None)" let ?b = "[(''web'', ''/b/web'')]" let ?cs = "[web RestartNever]"
  let ?f = "sys_act ?K (rt_fixed 7) ?b ?cs"
  obtain z where z: "run_web RestartNever start_acts = Some z" "y_chan z = []" "y_closed z = False" "y_cons z = CRecv"
    "y_sup z = one_running RestartNever" by (simp add: web_started)
  define evs where "evs = map exit_of [101..164]"
  have evs: "length evs = 64" "list_all (\<lambda>ev. 7 < rp_PID ev) evs"
    unfolding evs_def by (simp, simp add: list_all_iff exit_of_def del: upto_rec_numeral)
  define y where "y = z\<lparr>y_chan := evs\<rparr>"
  have np: "\<not> s_panic (one_running RestartNever)" by (simp add: one_running_def)
  have "run_acts ?K (rt_fixed 7) ?b ?cs (map AReap evs) z = Some y"
    using reap_run [of z evs ?K "rt_fixed 7" ?b ?cs] z np evs by (fastforce simp: y_def chan_cap_def list_all_iff)
  with z(1) have y: "run_web RestartNever (start_acts @ map AReap evs) = Some y"
    unfolding run_acts_append by simp
  have full: "chan_cap \<le> length (y_chan y)" "rp_PID (exit_of 7) \<notin> rp_PID ` set (y_chan y)"
    using evs by (auto simp: y_def chan_cap_def exit_of_def list_all_iff)
  have s: "?f (AReap (exit_of 7)) y = Some y"
    using full(1) np z(3,5) by (simp add: sys_act_def y_def publish_def) (simp add: exit_of_def)
  have "list_all (\<lambda>ev. tracked (y_sup y) (rp_PID ev) = None) evs"
    using z(5) evs(2) by (auto simp: y_def list_all_iff one_running_def tracked_def)
  then have r: "run_acts ?K (rt_fixed 7) ?b ?cs (replicate 64 ACons) y = Some (y\<lparr>y_chan := []\<rparr>)"
    using skip_run [of y evs ?K "rt_fixed 7" ?b ?cs] np z(4,5) evs(1) by (simp add: y_def)
  let ?\<sigma> = "list_states (\<lambda>as. run_acts ?K (rt_fixed 7) ?b ?cs as y) (replicate 64 ACons)"
  note e = list_execution [OF r]
  have 0: "?\<sigma> 0 = y" by (simp add: list_states_def)
  have d: "distinct (map c_ID ?cs)" and c: "web RestartNever \<in> set ?cs" by simp_all
  have t: "tracked (y_sup y) (rp_PID (exit_of 7)) = Some (c_ID (web RestartNever))"
    using z(5) by (simp add: y_def exit_of_def one_running_def tracked_def web_def new_container_def)
  have s0: "?f (AReap (exit_of 7)) y = Some (?\<sigma> 0)" using s 0 by simp
  have a: "\<forall>n ev. list_acts (replicate 64 ACons) n = Some (AReap ev) \<longrightarrow> rp_PID ev \<noteq> rp_PID (exit_of 7)"
    by (simp add: list_acts_def)
  note h = lost_exit_hangs [OF d web_reachable [OF y] c t full s0 e(1) a]
  have "?\<sigma> 64 = y\<lparr>y_chan := []\<rparr>" by (rule e(2)) simp
  with y s 0 e(1) h z(4) show ?thesis unfolding evs_def
    by (intro exI [of _ y] exI [of _ y] exI [of _ ?\<sigma>] exI [of _ "list_acts (replicate 64 ACons)"])
      (simp add: y_def)
qed

end
