(* ===== verification/Pod_Init_Build.thy ===== *)
theory Pod_Init_Build
  imports Go_Flags
begin

text \<open>
  The command pod-init-build of cmd/pod-init-build/main.go, which packs the initramfs of a pod on the build
  host.  \<open>initbuild.PodInitrd\<close> is a third-party function: a parameter from its five arguments to its error.
  A run is the list of what the process did, in order, and the exit status it ended with.
\<close>

datatype tool_event =
    TPrint goerr
  | TUsage
  | TPodInitrd string string string string string
  | TWritten string

type_synonym tool_run = "tool_event list \<times> nat"

definition build_flags :: flag_set where
  "build_flags = [(''init'', VStr ''''), (''crun'', VStr ''''), (''cfs-client'', VStr ''''),
     (''agent'', VStr ''''), (''o'', VStr ''''), (''output'', VStr '''')]"

text \<open>What package flag does with the error of a parse before it exits: its message, then the usage.\<close>

fun flag_complaint :: "flag_error \<Rightarrow> tool_event list" where
  "flag_complaint Help = [TUsage]"
| "flag_complaint (Fail e) = [TPrint e, TUsage]"

text \<open>\<open>main\<close>; \<open>log.Fatalf\<close> prints and exits with status 1.\<close>

definition pod_init_build :: "(string \<Rightarrow> string \<Rightarrow> string \<Rightarrow> string \<Rightarrow> string \<Rightarrow> goerr option) \<Rightarrow>
    string list \<Rightarrow> tool_run" where
  "pod_init_build PodInitrd args =
     (case flags_parse build_flags args of
        Inl e \<Rightarrow> (flag_complaint e, flag_exit e)
      | Inr (F, _) \<Rightarrow>
          let initBin = flag_str F ''init''; crunBin = flag_str F ''crun'';
              cfsBin = flag_str F ''cfs-client''; agentBin = flag_str F ''agent'';
              out = (if flag_str F ''o'' = [] then flag_str F ''output'' else flag_str F ''o'')
          in if initBin = [] then ([TPrint (Errorf ''--init is required'' []), TUsage], 2)
             else if out = [] then ([TPrint (Errorf ''--output is required'' []), TUsage], 2)
             else (case PodInitrd out initBin crunBin cfsBin agentBin of
                     Some e \<Rightarrow> ([TPodInitrd out initBin crunBin cfsBin agentBin,
                                 TPrint (Wrapf ''pod-init-build: %v'' [] e)], 1)
                   | None \<Rightarrow> ([TPodInitrd out initBin crunBin cfsBin agentBin, TWritten out], 0)))"

subsection \<open>What a command line packs\<close>

definition setting_str :: "(string \<times> flag_value) list \<Rightarrow> string \<Rightarrow> string" where
  "setting_str ss n = (case last_set build_flags ss n of Some (VStr v) \<Rightarrow> v | _ \<Rightarrow> [])"

definition packed :: "tool_event list \<Rightarrow> tool_event list" where
  "packed es = filter (\<lambda>e. case e of TPodInitrd _ _ _ _ _ \<Rightarrow> True | _ \<Rightarrow> False) es"

lemma flag_str_settings:
  "flag_str (fold apply_setting ss build_flags) n = setting_str ss n"
  by (simp add: flag_str_def setting_str_def map_of_settings)

lemma packed_simps [simp]:
  "packed [] = []" "packed (TPrint e # es) = packed es" "packed (TUsage # es) = packed es"
  "packed (TWritten p # es) = packed es" "packed (TPodInitrd a b c d f # es) = TPodInitrd a b c d f # packed es"
  by (simp_all add: packed_def)

text \<open>
  C34. pod-init-build: for every way to write its settings, the archive is packed exactly once, from the last
  value of each flag and to the path of -o, or of --output when -o is empty, and the status is 0 or 1 as
  the packer returned; without --init or an output path nothing is packed and the status is 2.  No
  command line at all ends with status 0 before the archive was written, unless it asked for the help.
\<close>

theorem pod_init_build_correct:
  fixes P :: "string \<Rightarrow> string \<Rightarrow> string \<Rightarrow> string \<Rightarrow> string \<Rightarrow> goerr option"
  assumes "list_all (setting_ok build_flags) (map snd ss)" "operands rest"
  defines "v \<equiv> setting_str (map snd ss)"
  defines "out \<equiv> (if v ''o'' = [] then v ''output'' else v ''o'')"
  shows "(let r = pod_init_build P (concat (map (\<lambda>(st, s). render st s) ss) @ rest) in
      if v ''init'' = [] \<or> out = [] then packed (fst r) = [] \<and> snd r = 2
      else packed (fst r) = [TPodInitrd out (v ''init'') (v ''crun'') (v ''cfs-client'') (v ''agent'')] \<and>
        snd r = (if P out (v ''init'') (v ''crun'') (v ''cfs-client'') (v ''agent'') = None then 0 else 1)) \<and>
    (\<forall>args. snd (pod_init_build P args) = 0 \<longrightarrow> flags_parse build_flags args = Inl Help \<or>
      (\<exists>p a b c d. fst (pod_init_build P args) = [TPodInitrd p a b c d, TWritten p] \<and>
        P p a b c d = None \<and> p \<noteq> [] \<and> a \<noteq> []))"
proof -
  have "flags_parse build_flags (concat (map (\<lambda>(st, s). render st s) ss) @ rest) =
      Inr (fold apply_setting (map snd ss) build_flags, rest)"
    using assms(1,2) by (simp add: flags_parse_render flags_parse_operands)
  then have "let r = pod_init_build P (concat (map (\<lambda>(st, s). render st s) ss) @ rest) in
      if v ''init'' = [] \<or> out = [] then packed (fst r) = [] \<and> snd r = 2
      else packed (fst r) = [TPodInitrd out (v ''init'') (v ''crun'') (v ''cfs-client'') (v ''agent'')] \<and>
        snd r = (if P out (v ''init'') (v ''crun'') (v ''cfs-client'') (v ''agent'') = None then 0 else 1)"
    by (simp add: pod_init_build_def flag_str_settings v_def out_def Let_def split: option.splits)
  moreover have "flags_parse build_flags args = Inl Help \<or>
      (\<exists>p a b c d. fst (pod_init_build P args) = [TPodInitrd p a b c d, TWritten p] \<and>
        P p a b c d = None \<and> p \<noteq> [] \<and> a \<noteq> [])" if "snd (pod_init_build P args) = 0" for args
    using that by (auto simp: pod_init_build_def Let_def split: sum.splits option.splits if_splits elim: flag_exit.elims)
  ultimately show ?thesis by blast
qed

theorem pod_init_build_correct_witness:
  "packed (fst (pod_init_build (\<lambda>_ _ _ _ _. None) [''--init'', ''w'', ''-output=x'', ''-o'', ''y''])) =
      [TPodInitrd ''y'' ''w'' '''' '''' ''''] \<and>
    snd (pod_init_build (\<lambda>_ _ _ _ _. None) [''--init'', ''w'', ''-output=x'', ''-o'', ''y'']) = 0"
proof -
  let ?ss = "[((True, False), ''init'', VStr ''w''), ((False, True), ''output'', VStr ''x''), ((False, False), ''o'', VStr ''y'')]"
  have "list_all (setting_ok build_flags) (map snd ?ss)" "operands []" by code_simp+
  note c = conjunct1 [OF pod_init_build_correct [OF this, of "\<lambda>_ _ _ _ _. None"]]
  have "concat (map (\<lambda>(st, s). render st s) ?ss) @ [] = [''--init'', ''w'', ''-output=x'', ''-o'', ''y'']"
    by (simp add: dashes_def)
  with c show ?thesis by (simp add: setting_str_def last_set_def build_flags_def Let_def dashes_def)
qed

end
