(* ===== verification/Mutex_Pool.thy ===== *)
theory Mutex_Pool
  imports Go_Prelude
begin

text \<open>
  Functions that begin with \<open>mu.Lock()\<close> and \<open>defer mu.Unlock()\<close>, called by any number of goroutines at once:
  pkg/network/firewall_linux.go (\<open>firewallMu\<close>) and pkg/cubefs/mount.go (\<open>Registry.mu\<close>).  A call is made of
  atomic steps over the shared state, which other calls may follow in any order the mutex allows.  The locale
  \<open>critical_section\<close> says what the steps of a call add up to, and its lemmas that every interleaving is
  one of the serial executions, that no two calls are inside together and that every call returns.
\<close>

subsection \<open>Goroutines and their mutex\<close>

text \<open>A call waits for the mutex, is inside, has its result and is about to unlock, or has returned.\<close>

datatype ('l, 'r) phase = Awaiting | Inside 'l | Leaving 'r | Ended 'r

record ('l, 'r, 's) pool =
  pl_shared :: 's
  pl_owner :: "nat option"
  pl_phase :: "nat \<Rightarrow> ('l, 'r) phase"
  pl_order :: "nat list"

text \<open>
  One step of goroutine \<open>i\<close>; a goroutine that waits for a mutex another one owns stays where it is.
  \<open>pl_order\<close> records the order in which the mutex was taken.
\<close>

definition pool_step ::
    "(nat \<Rightarrow> 'l) \<Rightarrow> (nat \<Rightarrow> 'l \<Rightarrow> 's \<Rightarrow> ('l + 'r) \<times> 's) \<Rightarrow> nat \<Rightarrow> ('l, 'r, 's) pool \<Rightarrow> ('l, 'r, 's) pool" where
  "pool_step start body i p =
     (case pl_phase p i of
        Awaiting \<Rightarrow>
          if pl_owner p = None
          then p\<lparr>pl_owner := Some i, pl_phase := (pl_phase p)(i := Inside (start i)), pl_order := pl_order p @ [i]\<rparr>
          else p
      | Inside l \<Rightarrow>
          (case body i l (pl_shared p) of
             (Inl l', s) \<Rightarrow> p\<lparr>pl_shared := s, pl_phase := (pl_phase p)(i := Inside l')\<rparr>
           | (Inr r, s) \<Rightarrow> p\<lparr>pl_shared := s, pl_phase := (pl_phase p)(i := Leaving r)\<rparr>)
      | Leaving r \<Rightarrow> p\<lparr>pl_owner := None, pl_phase := (pl_phase p)(i := Ended r)\<rparr>
      | Ended r \<Rightarrow> p)"

definition pool_init :: "'s \<Rightarrow> ('l, 'r, 's) pool" where
  "pool_init s = \<lparr>pl_shared = s, pl_owner = None, pl_phase = (\<lambda>_. Awaiting), pl_order = []\<rparr>"

definition pool_run ::
    "(nat \<Rightarrow> 'l) \<Rightarrow> (nat \<Rightarrow> 'l \<Rightarrow> 's \<Rightarrow> ('l + 'r) \<times> 's) \<Rightarrow> nat list \<Rightarrow> ('l, 'r, 's) pool \<Rightarrow> ('l, 'r, 's) pool" where
  "pool_run start body sched p = fold (pool_step start body) sched p"

lemma pool_run_simps [simp]:
  "pool_run start body [] p = p"
  "pool_run start body (i # sched) p = pool_run start body sched (pool_step start body i p)"
  "pool_run start body (xs @ ys) p = pool_run start body ys (pool_run start body xs p)"
  by (simp_all add: pool_run_def)

lemma pool_init_simps [simp]:
  "pl_shared (pool_init s) = s" "pl_owner (pool_init s) = None" "pl_phase (pool_init s) i = Awaiting"
  "pl_order (pool_init s) = []"
  by (simp_all add: pool_init_def)

text \<open>The calls one after the other, with the result of each.\<close>

definition serial :: "(nat \<Rightarrow> 's \<Rightarrow> 'r \<times> 's) \<Rightarrow> nat list \<Rightarrow> 's \<Rightarrow> (nat \<Rightarrow> 'r option) \<times> 's" where
  "serial call is s = fold (\<lambda>i (rs, s). case call i s of (r, s') \<Rightarrow> (rs(i := Some r), s')) is (\<lambda>_. None, s)"

lemma serial_Nil [simp]: "serial call [] s = (\<lambda>_. None, s)"
  by (simp add: serial_def)

lemma serial_snoc: "serial call (is @ [i]) s =
  (case serial call is s of (rs, s1) \<Rightarrow> case call i s1 of (r, s') \<Rightarrow> (rs(i := Some r), s'))"
  by (simp add: serial_def)

lemma serial_dom: "serial call is s = (rs, s') \<Longrightarrow> rs i \<noteq> None \<longleftrightarrow> i \<in> set is"
  by (induction "is" arbitrary: rs s' rule: rev_induct) (auto simp: serial_snoc split: prod.splits if_splits)

lemma serial_invariant:
  assumes "P s" "\<And>i s r s'. P s \<Longrightarrow> call i s = (r, s') \<Longrightarrow> P s'"
  shows "P (snd (serial call is s))"
  by (induction "is" rule: rev_induct) (auto simp: serial_snoc assms(1) intro: assms(2) split: prod.splits)

definition results :: "('l, 'r, 's) pool \<Rightarrow> nat \<Rightarrow> 'r option" where
  "results p i = (case pl_phase p i of Ended r \<Rightarrow> Some r | _ \<Rightarrow> None)"

lemma results_Some [simp]: "results p i = Some r \<longleftrightarrow> pl_phase p i = Ended r"
  by (simp add: results_def split: phase.split)

text \<open>A scheduler of \<open>n\<close> goroutines that always comes back to each of them.\<close>

definition fair_for :: "nat \<Rightarrow> (nat \<Rightarrow> nat) \<Rightarrow> bool" where
  "fair_for n \<sigma> \<longleftrightarrow> (\<forall>m. \<sigma> m < n) \<and> (\<forall>i < n. \<forall>m. \<exists>m' \<ge> m. \<sigma> m' = i)"

lemma round_robin_fair: "0 < n \<Longrightarrow> fair_for n (\<lambda>m. m mod n)"
  unfolding fair_for_def
proof (intro conjI allI impI)
  fix i m assume "i < n"
  then have "i + n * m \<ge> m" "(i + n * m) mod n = i" by (simp_all add: trans_le_add2)
  then show "\<exists>m' \<ge> m. m' mod n = i" by blast
qed simp

subsection \<open>What a critical section promises\<close>

fun critical :: "('l, 'r) phase \<Rightarrow> bool" where
  "critical (Inside l) = True"
| "critical (Leaving r) = True"
| "critical _ = False"

text \<open>
  The calls that took the mutex before have run one after the other, and what the owner still has to do
  makes its call complete.
\<close>

definition pool_inv ::
    "(nat \<Rightarrow> 'l \<Rightarrow> 's \<Rightarrow> 'r \<times> 's) \<Rightarrow> (nat \<Rightarrow> 's \<Rightarrow> 'r \<times> 's) \<Rightarrow> 's \<Rightarrow> ('l, 'r, 's) pool \<Rightarrow> bool" where
  "pool_inv rest call s0 p \<longleftrightarrow>
     distinct (pl_order p) \<and> (\<forall>j. j \<notin> set (pl_order p) \<longrightarrow> pl_phase p j = Awaiting) \<and>
     (case pl_owner p of
        None \<Rightarrow> serial call (pl_order p) s0 = (results p, pl_shared p)
      | Some i \<Rightarrow> \<exists>os s1. pl_order p = os @ [i] \<and> serial call os s0 = (results p, s1) \<and>
          (case pl_phase p i of
             Inside l \<Rightarrow> rest i l (pl_shared p) = call i s1
           | Leaving r \<Rightarrow> (r, pl_shared p) = call i s1
           | _ \<Rightarrow> False))"

lemma pool_inv_critical: "pool_inv rest call s0 p \<Longrightarrow> critical (pl_phase p i) \<longleftrightarrow> pl_owner p = Some i"
proof
  assume inv: "pool_inv rest call s0 p" and c: "critical (pl_phase p i)"
  then have i: "i \<in> set (pl_order p)" "results p i = None"
    by (auto simp: pool_inv_def results_def split: phase.splits)
  with inv show "pl_owner p = Some i"
    by (cases "pl_owner p") (auto simp: pool_inv_def dest: serial_dom [of call _ s0 _ _ i])
qed (cases "pl_phase p i"; auto simp: pool_inv_def)

lemma pool_inv_idle: "pool_inv rest call s0 p \<Longrightarrow> pl_phase p i = Awaiting \<Longrightarrow> i \<notin> set (pl_order p)"
  by (cases "pl_owner p") (auto simp: pool_inv_def results_def dest: serial_dom [of call _ s0 _ _ i])

lemma results_update: "results (p\<lparr>pl_phase := (pl_phase p)(i := ph)\<rparr>) =
  (results p)(i := (case ph of Ended r \<Rightarrow> Some r | _ \<Rightarrow> None))"
  by (auto simp: results_def fun_eq_iff)

lemma results_cong: "pl_phase p = pl_phase q \<Longrightarrow> results p = results q"
  by (simp add: results_def fun_eq_iff)

locale critical_section =
  fixes start :: "nat \<Rightarrow> 'l" and body :: "nat \<Rightarrow> 'l \<Rightarrow> 's \<Rightarrow> ('l + 'r) \<times> 's"
    and rest :: "nat \<Rightarrow> 'l \<Rightarrow> 's \<Rightarrow> 'r \<times> 's" and call :: "nat \<Rightarrow> 's \<Rightarrow> 'r \<times> 's"
    and rank :: "nat \<Rightarrow> 'l \<Rightarrow> 's \<Rightarrow> nat"
  assumes rest_start: "rest i (start i) s = call i s"
    and rest_step: "body i l s = (Inl l', s') \<Longrightarrow> rest i l' s' = rest i l s"
    and rest_done: "body i l s = (Inr r, s') \<Longrightarrow> rest i l s = (r, s')"
    and rank_step: "body i l s = (Inl l', s') \<Longrightarrow> rank i l' s' < rank i l s"
begin

abbreviation "step \<equiv> pool_step start body"
abbreviation "run \<equiv> pool_run start body"

lemma pool_inv_init: "pool_inv rest call s0 (pool_init s0)"
  by (simp add: pool_inv_def results_def fun_eq_iff)

lemma inv_enter:
  assumes "pool_inv rest call s0 p" "pl_phase p i = Awaiting" "pl_owner p = None"
  shows "pool_inv rest call s0 (step i p)"
proof -
  have r: "results (step i p) = results p"
    using assms(2,3) by (auto simp: pool_step_def results_def fun_eq_iff)
  have p: "step i p = p\<lparr>pl_owner := Some i, pl_phase := (pl_phase p)(i := Inside (start i)), pl_order := pl_order p @ [i]\<rparr>"
    using assms(2,3) by (simp add: pool_step_def)
  from assms pool_inv_idle [OF assms(1,2)] show ?thesis
    unfolding pool_inv_def r by (auto simp: p rest_start)
qed

lemma inv_inside:
  assumes inv: "pool_inv rest call s0 p" and l: "pl_phase p i = Inside l"
  shows "pool_inv rest call s0 (step i p)"
proof -
  have o: "pl_owner p = Some i" using pool_inv_critical [OF inv, of i] l by simp
  obtain x s where b: "body i l (pl_shared p) = (x, s)" by fastforce
  have r: "results (step i p) = results p"
    using l b by (auto simp: pool_step_def results_def fun_eq_iff split: sum.splits)
  from inv o l b r show ?thesis
    by (cases x) (auto simp: pool_inv_def pool_step_def dest: rest_step rest_done)
qed

lemma inv_leave:
  assumes inv: "pool_inv rest call s0 p" and l: "pl_phase p i = Leaving v"
  shows "pool_inv rest call s0 (step i p)"
proof -
  have o: "pl_owner p = Some i" using pool_inv_critical [OF inv, of i] l by simp
  have r: "results (step i p) = (results p)(i := Some v)"
    using l by (auto simp: pool_step_def results_def fun_eq_iff)
  from inv o l obtain os s1 where os: "pl_order p = os @ [i]" "serial call os s0 = (results p, s1)"
    "(v, pl_shared p) = call i s1"
    by (auto simp: pool_inv_def)
  then have "serial call (os @ [i]) s0 = ((results p)(i := Some v), pl_shared p)"
    by (simp add: serial_snoc flip: os(3))
  with inv l os r show ?thesis by (auto simp: pool_inv_def pool_step_def)
qed

lemma pool_inv_step: "pool_inv rest call s0 p \<Longrightarrow> pool_inv rest call s0 (step i p)"
  using inv_enter inv_inside inv_leave
  by (cases "pl_phase p i"; cases "pl_owner p") (auto simp: pool_step_def)

lemma pool_inv_run: "pool_inv rest call s0 p \<Longrightarrow> pool_inv rest call s0 (run sched p)"
  by (induction sched arbitrary: p) (simp_all add: pool_inv_step)

end

context critical_section begin

lemma run_distinct: "distinct (pl_order (run sched (pool_init s0)))"
  using pool_inv_run [OF pool_inv_init, of s0 sched] by (simp add: pool_inv_def)

text \<open>Every interleaving is one of the serial executions: the one in the order the mutex was taken in.\<close>

lemma serialisable:
  assumes "pl_owner (run sched (pool_init s0)) = None"
  shows "serial call (pl_order (run sched (pool_init s0))) s0 =
    (results (run sched (pool_init s0)), pl_shared (run sched (pool_init s0)))"
  using pool_inv_run [OF pool_inv_init, of s0 sched] assms by (simp add: pool_inv_def)

lemma mutual_exclusion:
  assumes "critical (pl_phase (run sched (pool_init s0)) i)" "critical (pl_phase (run sched (pool_init s0)) j)"
  shows "i = j"
  using assms pool_inv_critical [OF pool_inv_run [OF pool_inv_init]] by (metis option.inject)

text \<open>What every call keeps holds whenever the mutex is free.\<close>

lemma free_invariant:
  assumes "pl_owner (run sched (pool_init s0)) = None" "P s0" "\<And>i s r s'. P s \<Longrightarrow> call i s = (r, s') \<Longrightarrow> P s'"
  shows "P (pl_shared (run sched (pool_init s0)))"
proof -
  have "P (snd (serial call (pl_order (run sched (pool_init s0))) s0))"
    by (rule serial_invariant) (use assms(2,3) in blast)+
  then show ?thesis by (simp add: serialisable [OF assms(1)])
qed

text \<open>Progress: the calls still waiting, and what the owner has left to do.\<close>

definition left :: "('l, 'r, 's) pool \<Rightarrow> nat" where
  "left p = (case pl_owner p of None \<Rightarrow> 0 | Some i \<Rightarrow>
     (case pl_phase p i of Inside l \<Rightarrow> 2 + rank i l (pl_shared p) | _ \<Rightarrow> 1))"

definition waiting :: "nat \<Rightarrow> ('l, 'r, 's) pool \<Rightarrow> nat set" where
  "waiting n p = {i. i < n \<and> pl_phase p i = Awaiting}"

definition order_of :: "nat \<Rightarrow> (('l, 'r, 's) pool \<times> ('l, 'r, 's) pool) set" where
  "order_of n = inv_image (less_than <*lex*> less_than) (\<lambda>p. (card (waiting n p), left p))"

lemma wf_order: "wf (order_of n)"
  by (simp add: order_of_def wf_lex_prod)

lemma step_decreases:
  assumes inv: "pool_inv rest call s0 p" and i: "i < n"
  shows "step i p = p \<or> (step i p, p) \<in> order_of n"
proof (cases "pl_phase p i")
  case Awaiting
  show ?thesis
  proof (cases "pl_owner p")
    case None
    have f: "finite (waiting n p)" by (simp add: waiting_def)
    have "waiting n (step i p) = waiting n p - {i}" "i \<in> waiting n p"
      using Awaiting None i by (auto simp: waiting_def pool_step_def)
    with f have "card (waiting n (step i p)) < card (waiting n p)"
      by (metis card_Diff1_less)
    then show ?thesis by (simp add: order_of_def)
  qed (simp add: pool_step_def Awaiting)
next
  case (Inside l)
  then have o: "pl_owner p = Some i" using pool_inv_critical [OF inv, of i] by simp
  obtain x s where b: "body i l (pl_shared p) = (x, s)" by fastforce
  from Inside b have "waiting n (step i p) = waiting n p" by (auto simp: waiting_def pool_step_def split: sum.splits)
  moreover have "left (step i p) < left p"
    using Inside o b rank_step [of i l "pl_shared p"] by (cases x) (auto simp: left_def pool_step_def)
  ultimately show ?thesis by (simp add: order_of_def)
next
  case (Leaving v)
  then have o: "pl_owner p = Some i" using pool_inv_critical [OF inv, of i] by simp
  from Leaving have "waiting n (step i p) = waiting n p" by (auto simp: waiting_def pool_step_def)
  moreover have "left (step i p) < left p" using Leaving o by (simp add: left_def pool_step_def)
  ultimately show ?thesis by (simp add: order_of_def)
qed (simp add: pool_step_def)

end

context critical_section begin

lemma owner_moves:
  assumes inv: "pool_inv rest call s0 p" and o: "pl_owner p = Some i"
  shows "step i p \<noteq> p"
proof
  assume eq: "step i p = p"
  have "critical (pl_phase p i)" using pool_inv_critical [OF inv] o by blast
  then show False
  proof (cases "pl_phase p i")
    case (Inside l)
    obtain x s where b: "body i l (pl_shared p) = (x, s)" by fastforce
    have ph: "pl_phase (step i p) i = (case x of Inl l' \<Rightarrow> Inside l' | Inr r \<Rightarrow> Leaving r)" "pl_shared (step i p) = s"
      by (simp_all add: pool_step_def Inside b split: sum.split)
    with eq Inside have "x = Inl l" "s = pl_shared p" by (auto split: sum.splits)
    with rank_step b show False by blast
  next
    case (Leaving r)
    have "pl_owner (step i p) = None" by (simp add: pool_step_def Leaving)
    with eq o show False by simp
  qed simp_all
qed

definition unfinished :: "nat \<Rightarrow> ('l, 'r, 's) pool \<Rightarrow> bool" where
  "unfinished n p \<longleftrightarrow> (\<exists>i < n. results p i = None)"

lemma some_moves:
  assumes inv: "pool_inv rest call s0 p" and n: "set (pl_order p) \<subseteq> {..<n}" and u: "unfinished n p"
  shows "\<exists>i < n. step i p \<noteq> p"
proof (cases "pl_owner p")
  case (Some i)
  with inv have "i \<in> set (pl_order p)" by (auto simp: pool_inv_def)
  with n owner_moves [OF inv Some] show ?thesis by blast
next
  case None
  from u obtain i where i: "i < n" "results p i = None" by (auto simp: unfinished_def)
  have "\<not> critical (pl_phase p i)" using pool_inv_critical [OF inv] None by simp
  with i(2) have a: "pl_phase p i = Awaiting" by (cases "pl_phase p i") (auto simp: results_def)
  have "pl_owner (step i p) = Some i" by (simp add: pool_step_def a None)
  with None i(1) show ?thesis by (metis option.distinct(1))
qed

lemma order_step: "set (pl_order (step i p)) \<subseteq> insert i (set (pl_order p))"
  by (auto simp: pool_step_def split: phase.splits prod.splits sum.splits if_splits)

text \<open>Under a fair scheduler every call returns.\<close>

lemma fair_finishes:
  assumes fair: "fair_for n \<sigma>" and st: "\<And>m. st (Suc m) = step (\<sigma> m) (st m)"
  shows "pool_inv rest call s0 p \<Longrightarrow> set (pl_order p) \<subseteq> {..<n} \<Longrightarrow> p = st m \<Longrightarrow> \<exists>m' \<ge> m. \<not> unfinished n (st m')"
proof (induction p arbitrary: m rule: wf_induct_rule [OF wf_order [of n]])
  case (1 p)
  show ?case
  proof (cases "unfinished n p")
    case False
    with 1 show ?thesis by blast
  next
    case True
    from some_moves [OF 1(2,3) True] obtain i where i: "i < n" "step i p \<noteq> p" by blast
    from fair i(1) obtain k where k: "k \<ge> m" "\<sigma> k = i" unfolding fair_for_def by blast
    have "\<exists>j \<ge> m. st j = p \<and> st (Suc j) \<noteq> p"
    proof (rule ccontr)
      assume "\<not> ?thesis"
      then have same: "st j = p \<Longrightarrow> st (Suc j) = p" if "j \<ge> m" for j using that by blast
      have "st (m + d) = p" for d by (induction d) (simp_all add: 1(4) same)
      from this [of "k - m"] this [of "Suc (k - m)"] k i show False by (simp add: st)
    qed
    then obtain j where j: "j \<ge> m" "st j = p" "st (Suc j) \<noteq> p" by blast
    have s: "\<sigma> j < n" using fair by (simp add: fair_for_def)
    have "(st (Suc j), p) \<in> order_of n" using step_decreases [OF 1(2) s] j(2,3) by (auto simp: st)
    moreover have "pool_inv rest call s0 (st (Suc j))" using pool_inv_step [OF 1(2)] j(2) by (simp add: st)
    moreover have "set (pl_order (st (Suc j))) \<subseteq> {..<n}" using order_step [of "\<sigma> j" p] 1(3) s j(2) by (auto simp: st)
    ultimately obtain m' where "m' \<ge> Suc j" "\<not> unfinished n (st m')" using 1(1) by blast
    with j(1) show ?thesis by (meson Suc_leD le_trans)
  qed
qed

lemma every_call_returns:
  assumes "fair_for n \<sigma>"
  shows "\<exists>m. \<forall>i < n. \<exists>r. pl_phase (run (map \<sigma> [0..<m]) (pool_init s0)) i = Ended r"
proof -
  have "\<exists>m \<ge> 0. \<not> unfinished n (run (map \<sigma> [0..<m]) (pool_init s0))"
    by (rule fair_finishes [OF assms, where st = "\<lambda>m. run (map \<sigma> [0..<m]) (pool_init s0)"])
      (simp, rule pool_inv_init, simp_all)
  then show ?thesis unfolding unfinished_def by (metis not_None_eq results_Some)
qed

end

subsection \<open>Sections with a single effect\<close>

text \<open>The results that are certain, also of a call that has yet to unlock.\<close>

definition outcomes :: "('l, 'r, 's) pool \<Rightarrow> nat \<Rightarrow> 'r option" where
  "outcomes p i = (case pl_phase p i of Ended r \<Rightarrow> Some r | Leaving r \<Rightarrow> Some r | _ \<Rightarrow> None)"

definition concluded :: "('l, 'r, 's) pool \<Rightarrow> nat list" where
  "concluded p = filter (\<lambda>i. outcomes p i \<noteq> None) (pl_order p)"

text \<open>
  When only the last step of a call changes the shared state, the state is serial at every moment, also
  while a call is inside, and so for readers that do not take the mutex.
\<close>

locale atomic_section = critical_section start body rest call rank
  for start :: "nat \<Rightarrow> 'l" and body :: "nat \<Rightarrow> 'l \<Rightarrow> 's \<Rightarrow> ('l + 'r) \<times> 's"
    and rest :: "nat \<Rightarrow> 'l \<Rightarrow> 's \<Rightarrow> 'r \<times> 's" and call :: "nat \<Rightarrow> 's \<Rightarrow> 'r \<times> 's"
    and rank :: "nat \<Rightarrow> 'l \<Rightarrow> 's \<Rightarrow> nat" +
  assumes silent: "body i l s = (Inl l', s') \<Longrightarrow> s' = s"
begin

definition untouched :: "'s \<Rightarrow> ('l, 'r, 's) pool \<Rightarrow> bool" where
  "untouched s0 p \<longleftrightarrow> (\<forall>i l. pl_phase p i = Inside l \<longrightarrow> snd (serial call (butlast (pl_order p)) s0) = pl_shared p)"

lemma untouched_step:
  assumes inv: "pool_inv rest call s0 p" and u: "untouched s0 p"
  shows "untouched s0 (step i p)"
proof (cases "pl_phase p i")
  case Awaiting
  with u pool_inv_critical [OF inv] inv show ?thesis
    by (auto simp: untouched_def pool_step_def pool_inv_def)
next
  case (Inside l)
  then have o: "pl_owner p = Some i" using pool_inv_critical [OF inv, of i] by simp
  obtain x s where b: "body i l (pl_shared p) = (x, s)" by fastforce
  have other: "pl_phase p j \<noteq> Inside l'" if "j \<noteq> i" for j l'
    using pool_inv_critical [OF inv, of j] o that by (metis critical.simps(1) option.inject)
  show ?thesis
    using Inside b silent [of i l "pl_shared p"] u other
    by (cases x) (fastforce simp: untouched_def pool_step_def)+
next
  case (Leaving v)
  with u show ?thesis by (auto simp: untouched_def pool_step_def)
qed (use u in \<open>simp add: pool_step_def\<close>)

lemma untouched_run: "pool_inv rest call s0 p \<Longrightarrow> untouched s0 p \<Longrightarrow> untouched s0 (run sched p)"
  by (induction sched arbitrary: p) (simp_all add: pool_inv_step untouched_step)

lemma outcomes_settled: "\<not> critical (pl_phase p j) \<Longrightarrow> outcomes p j = results p j"
  by (cases "pl_phase p j") (auto simp: outcomes_def results_def)

lemma outcomes_owner:
  assumes inv: "pool_inv rest call s0 p" and o: "pl_owner p = Some i"
  obtains os s1 where "pl_order p = os @ [i]" "serial call os s0 = (results p, s1)"
    "filter (\<lambda>j. outcomes p j \<noteq> None) os = os" "outcomes p = (results p)(i := outcomes p i)" "results p i = None"
proof -
  from inv o obtain os s1 where os: "pl_order p = os @ [i]" "serial call os s0 = (results p, s1)" "i \<notin> set os"
    by (auto simp: pool_inv_def)
  have r: "outcomes p j = results p j" if "j \<noteq> i" for j
    using outcomes_settled pool_inv_critical [OF inv, of j] o that by simp
  have "results p j \<noteq> None" if "j \<in> set os" for j using serial_dom [OF os(2)] that by blast
  then have "filter (\<lambda>j. outcomes p j \<noteq> None) os = os"
    using r os(3) by (intro filter_True) metis
  moreover have "outcomes p = (results p)(i := outcomes p i)" using r by (auto simp: fun_eq_iff)
  moreover have "results p i = None" using serial_dom [OF os(2), of i] os(3) by blast
  ultimately show thesis using that [OF os(1,2)] by blast
qed

lemma serial_always:
  fixes sched s0
  defines "p \<equiv> run sched (pool_init s0)"
  shows "serial call (concluded p) s0 = (outcomes p, pl_shared p)"
proof -
  have inv: "pool_inv rest call s0 p" unfolding p_def by (rule pool_inv_run [OF pool_inv_init])
  have u: "untouched s0 p"
    unfolding p_def by (rule untouched_run [OF pool_inv_init]) (simp add: untouched_def)
  show ?thesis
  proof (cases "pl_owner p")
    case None
    then have r: "outcomes p = results p" using outcomes_settled pool_inv_critical [OF inv] by (metis ext option.distinct(1))
    from inv None have s: "serial call (pl_order p) s0 = (results p, pl_shared p)" by (simp add: pool_inv_def)
    have "results p j \<noteq> None" if "j \<in> set (pl_order p)" for j using serial_dom [OF s] that by blast
    then have "concluded p = pl_order p" by (simp add: concluded_def r)
    with s r show ?thesis by simp
  next
    case (Some i)
    obtain os s1 where os: "pl_order p = os @ [i]" "serial call os s0 = (results p, s1)"
      "filter (\<lambda>j. outcomes p j \<noteq> None) os = os" "outcomes p = (results p)(i := outcomes p i)" "results p i = None"
      by (rule outcomes_owner [OF inv Some])
    have "critical (pl_phase p i)" using pool_inv_critical [OF inv] Some by blast
    then show ?thesis
    proof (cases "pl_phase p i")
      case (Inside l)
      then have i: "outcomes p i = None" by (simp add: outcomes_def)
      with os(4,5) have "outcomes p = results p" by (metis fun_upd_triv)
      moreover have "concluded p = os" using os(1,3) i by (simp add: concluded_def)
      moreover have "s1 = pl_shared p" using u Inside os(1,2) by (auto simp: untouched_def)
      ultimately show ?thesis using os(2) by simp
    next
      case (Leaving v)
      then have i: "outcomes p i = Some v" by (simp add: outcomes_def)
      then have "concluded p = os @ [i]" using os(1,3) by (simp add: concluded_def)
      moreover have c: "(v, pl_shared p) = call i s1" using inv Some os Leaving by (auto simp: pool_inv_def)
      ultimately show ?thesis using os(2,4) i by (simp add: serial_snoc flip: c)
    qed simp_all
  qed
qed

end

subsection \<open>What a result comes from\<close>

lemma serial_result: "serial call is s = (rs, s') \<Longrightarrow> rs i = Some r \<Longrightarrow> \<exists>s1. r = fst (call i s1)"
proof (induction "is" arbitrary: rs s' rule: rev_induct)
  case (snoc j "is")
  obtain rs1 s1 where s: "serial call is s = (rs1, s1)" by fastforce
  obtain v s2 where c: "call j s1 = (v, s2)" by fastforce
  from snoc.prems s c have "rs = rs1(j := Some v)" by (simp add: serial_snoc)
  with snoc.IH [OF s] snoc.prems(2) c show ?case by (metis fst_conv fun_upd_apply option.inject)
qed simp

context critical_section begin

lemma ended_result:
  assumes "pl_phase (run sched (pool_init s0)) i = Ended r"
  shows "\<exists>s. r = fst (call i s)"
proof -
  let ?p = "run sched (pool_init s0)"
  have "pool_inv rest call s0 ?p" by (rule pool_inv_run [OF pool_inv_init])
  then obtain os s where "serial call os s0 = (results ?p, s)"
    by (cases "pl_owner ?p") (auto simp: pool_inv_def)
  from serial_result [OF this] assms show ?thesis by simp
qed

end

end
