(* ===== verification/Nftables.thy ===== *)
theory Nftables
  imports Net_Addr
begin

text \<open>
  What the firewall code uses of nftables.  The expressions, chains and batch operations are the data
  it hands to the client library (github.com/google/nftables) and, through it, to the kernel.  The
  kernel itself is no code of the repository: the machine that runs the expressions of a rule on a
  packet, and the effect of a batch on the tables, are parameters, whose documented behaviour the
  locales below state; a reference implementation of each shows the laws can hold.
\<close>

subsection \<open>Expressions\<close>

datatype meta_key = MetaNFPROTO | MetaL4PROTO | MetaIIFNAME
datatype payload_base = NetworkHeader | TransportHeader
datatype cmp_op = CmpEq | CmpNeq
datatype verdict = VerdictAccept | VerdictDrop

datatype expr =
    XMeta meta_key nat
  | XCtState nat
  | XCmp cmp_op nat bytes
  | XPayload nat payload_base nat nat
  | XBitwise nat nat bytes bytes
  | XRange cmp_op nat bytes bytes
  | XCounter "64 word" "64 word"
  | XVerdict verdict

record packet =
  pk_nfproto :: "8 word"
  pk_l4 :: "8 word"
  pk_iif :: bytes
  pk_ct :: bytes
  pk_nh :: bytes
  pk_th :: bytes

type_synonym regs = "nat \<Rightarrow> bytes"

text \<open>An expression changes the registers, ends the rule without a match, or ends it with a verdict.\<close>

datatype outcome = Cont regs | Break | Done verdict

definition slice :: "nat \<Rightarrow> nat \<Rightarrow> bytes \<Rightarrow> bytes option" where
  "slice off len b = (if off + len \<le> length b then Some (take len (drop off b)) else None)"

fun big_endian :: "bytes \<Rightarrow> nat" where
  "big_endian [] = 0"
| "big_endian (b # bs) = unat b * 256 ^ length bs + big_endian bs"

text \<open>
  The machine, as the nftables documentation describes it: \<open>meta\<close>, \<open>ct state\<close> and \<open>payload\<close> load a
  register (a payload beyond the end of the header ends the rule), \<open>bitwise\<close> computes
  \<open>(src & mask) ^ xor\<close>, \<open>cmp\<close> and \<open>range\<close> compare a register of the length of the operands.
\<close>

locale nft_vm =
  fixes exec :: "expr \<Rightarrow> packet \<Rightarrow> regs \<Rightarrow> outcome"
  assumes exec_nfproto: "exec (XMeta MetaNFPROTO r) p R = Cont (R(r := [pk_nfproto p]))"
    and exec_l4proto: "exec (XMeta MetaL4PROTO r) p R = Cont (R(r := [pk_l4 p]))"
    and exec_iifname: "exec (XMeta MetaIIFNAME r) p R = Cont (R(r := pk_iif p))"
    and exec_ct: "exec (XCtState r) p R = Cont (R(r := pk_ct p))"
    and exec_payload_nh: "exec (XPayload r NetworkHeader off len) p R =
      (case slice off len (pk_nh p) of None \<Rightarrow> Break | Some b \<Rightarrow> Cont (R(r := b)))"
    and exec_payload_th: "exec (XPayload r TransportHeader off len) p R =
      (case slice off len (pk_th p) of None \<Rightarrow> Break | Some b \<Rightarrow> Cont (R(r := b)))"
    and exec_bitwise: "length (R s) = length m \<Longrightarrow> length x = length m \<Longrightarrow>
      exec (XBitwise s d m x) p R = Cont (R(d := map2 (XOR) (map2 (AND) (R s) m) x))"
    and exec_eq: "length (R r) = length b \<Longrightarrow>
      exec (XCmp CmpEq r b) p R = (if R r = b then Cont R else Break)"
    and exec_neq: "length (R r) = length b \<Longrightarrow>
      exec (XCmp CmpNeq r b) p R = (if R r \<noteq> b then Cont R else Break)"
    and exec_range: "length (R r) = length lo \<Longrightarrow> length (R r) = length hi \<Longrightarrow>
      exec (XRange CmpEq r lo hi) p R =
        (if big_endian lo \<le> big_endian (R r) \<and> big_endian (R r) \<le> big_endian hi then Cont R else Break)"
    and exec_counter: "exec (XCounter pkts bts) p R = Cont R"
    and exec_verdict: "exec (XVerdict v) p R = Done v"

text \<open>A rule runs its expressions in order; a chain takes the first verdict of its rules, else its policy.\<close>

fun run_rule :: "(expr \<Rightarrow> packet \<Rightarrow> regs \<Rightarrow> outcome) \<Rightarrow> packet \<Rightarrow> regs \<Rightarrow> expr list \<Rightarrow> verdict option" where
  "run_rule exec p R [] = None"
| "run_rule exec p R (e # es) =
     (case exec e p R of Cont R' \<Rightarrow> run_rule exec p R' es | Break \<Rightarrow> None | Done v \<Rightarrow> Some v)"

fun run_chain :: "(expr \<Rightarrow> packet \<Rightarrow> regs \<Rightarrow> outcome) \<Rightarrow> packet \<Rightarrow> verdict \<Rightarrow> expr list list \<Rightarrow> verdict" where
  "run_chain exec p policy [] = policy"
| "run_chain exec p policy (r # rs) =
     (case run_rule exec p (\<lambda>_. []) r of Some v \<Rightarrow> v | None \<Rightarrow> run_chain exec p policy rs)"

fun nft_exec :: "expr \<Rightarrow> packet \<Rightarrow> regs \<Rightarrow> outcome" where
  "nft_exec (XMeta k r) p R = Cont (R(r := (case k of MetaNFPROTO \<Rightarrow> [pk_nfproto p]
     | MetaL4PROTO \<Rightarrow> [pk_l4 p] | MetaIIFNAME \<Rightarrow> pk_iif p)))"
| "nft_exec (XCtState r) p R = Cont (R(r := pk_ct p))"
| "nft_exec (XPayload r base off len) p R =
     (case slice off len (case base of NetworkHeader \<Rightarrow> pk_nh p | TransportHeader \<Rightarrow> pk_th p) of
        None \<Rightarrow> Break | Some b \<Rightarrow> Cont (R(r := b)))"
| "nft_exec (XBitwise s d m x) p R = Cont (R(d := map2 (XOR) (map2 (AND) (R s) m) x))"
| "nft_exec (XCmp CmpEq r b) p R = (if R r = b then Cont R else Break)"
| "nft_exec (XCmp CmpNeq r b) p R = (if R r \<noteq> b then Cont R else Break)"
| "nft_exec (XRange op r lo hi) p R =
     (if (big_endian lo \<le> big_endian (R r) \<and> big_endian (R r) \<le> big_endian hi) = (op = CmpEq)
      then Cont R else Break)"
| "nft_exec (XCounter n b) p R = Cont R"
| "nft_exec (XVerdict v) p R = Done v"

interpretation nft_ref: nft_vm nft_exec
  by unfold_locales simp_all

context nft_vm begin

lemma run_chain_append: "run_chain exec p policy (rs @ ss) = run_chain exec p (run_chain exec p policy ss) rs"
  by (induction rs) (simp_all split: option.split)

lemma run_chain_map:
  assumes "\<And>r. r \<in> set rs \<Longrightarrow> run_rule exec p (\<lambda>_. []) (g r) = (if m r then Some VerdictAccept else None)"
  shows "run_chain exec p policy (map g rs) = (if \<exists>r \<in> set rs. m r then VerdictAccept else policy)"
  using assms by (induction rs) auto

end

subsection \<open>Tables and batches\<close>

record nft_chain =
  ch_Name :: string
  ch_Hook :: string
  ch_Policy :: verdict
  ch_Rules :: "expr list list"

datatype nft_op =
    DelTable string
  | AddTable string
  | AddChain string string string verdict
  | AddRule string string "expr list"

text \<open>
  The tables of the \<open>inet\<close> family and the effect of one operation on them: adding a table that exists
  keeps it, a chain and a rule are appended, and no operation touches another table.
\<close>

definition add_rule_to :: "string \<Rightarrow> expr list \<Rightarrow> nft_chain list \<Rightarrow> nft_chain list" where
  "add_rule_to c es = map (\<lambda>ch. if ch_Name ch = c then ch\<lparr>ch_Rules := ch_Rules ch @ [es]\<rparr> else ch)"

locale nft_tables =
  fixes tables :: "'k \<Rightarrow> string \<Rightarrow> nft_chain list option" and commit1 :: "nft_op \<Rightarrow> 'k \<Rightarrow> 'k"
  assumes del_table: "tables (commit1 (DelTable t) k) = (tables k)(t := None)"
    and add_table: "tables (commit1 (AddTable t) k) =
      (tables k)(t := Some (case tables k t of None \<Rightarrow> [] | Some cs \<Rightarrow> cs))"
    and add_chain: "tables k t = Some cs \<Longrightarrow> n \<notin> ch_Name ` set cs \<Longrightarrow>
      tables (commit1 (AddChain t n hook pol) k) = (tables k)(t :=
        Some (cs @ [\<lparr>ch_Name = n, ch_Hook = hook, ch_Policy = pol, ch_Rules = []\<rparr>]))"
    and add_rule: "tables k t = Some cs \<Longrightarrow> c \<in> ch_Name ` set cs \<Longrightarrow>
      tables (commit1 (AddRule t c es) k) = (tables k)(t := Some (add_rule_to c es cs))"

definition commit :: "(nft_op \<Rightarrow> 'k \<Rightarrow> 'k) \<Rightarrow> nft_op list \<Rightarrow> 'k \<Rightarrow> 'k" where
  "commit commit1 ops k = foldl (\<lambda>k op. commit1 op k) k ops"

fun ref_commit1 :: "nft_op \<Rightarrow> (string \<Rightarrow> nft_chain list option) \<Rightarrow> string \<Rightarrow> nft_chain list option" where
  "ref_commit1 (DelTable t) k = k(t := None)"
| "ref_commit1 (AddTable t) k = k(t := Some (case k t of None \<Rightarrow> [] | Some cs \<Rightarrow> cs))"
| "ref_commit1 (AddChain t n hook pol) k = k(t := map_option (\<lambda>cs. if n \<in> ch_Name ` set cs then cs
     else cs @ [\<lparr>ch_Name = n, ch_Hook = hook, ch_Policy = pol, ch_Rules = []\<rparr>]) (k t))"
| "ref_commit1 (AddRule t c es) k = k(t := map_option (add_rule_to c es) (k t))"

interpretation nft_ref_tables: nft_tables "\<lambda>k. k" ref_commit1
  by unfold_locales simp_all

context nft_tables begin

lemma commit_Nil: "commit commit1 [] k = k"
  by (simp add: commit_def)

lemma commit_append: "commit commit1 (xs @ ys) k = commit commit1 ys (commit commit1 xs k)"
  by (simp add: commit_def)

lemma commit_Cons: "commit commit1 (x # xs) k = commit commit1 xs (commit1 x k)"
  by (simp add: commit_def)

lemma add_rules:
  assumes "tables k t = Some cs" "\<forall>(c, es) \<in> set rs. c \<in> ch_Name ` set cs"
  shows "tables (commit commit1 (map (\<lambda>(c, es). AddRule t c es) rs) k) = (tables k)(t :=
    Some (foldl (\<lambda>cs (c, es). add_rule_to c es cs) cs rs))"
  using assms
proof (induction rs arbitrary: k cs)
  case Nil
  then show ?case by (simp add: commit_Nil fun_upd_idem)
next
  case (Cons r rs)
  obtain c es where r: "r = (c, es)" by (cases r)
  have "map ch_Name (add_rule_to c es cs) = map ch_Name cs"
    by (simp add: add_rule_to_def)
  then have n: "ch_Name ` set (add_rule_to c es cs) = ch_Name ` set cs"
    by (metis list.set_map)
  from Cons.prems r have "tables (commit1 (AddRule t c es) k) = (tables k)(t := Some (add_rule_to c es cs))"
    by (intro add_rule) auto
  with Cons.IH [of "commit1 (AddRule t c es) k" "add_rule_to c es cs"] Cons.prems r n
  show ?case by (simp add: commit_Cons) (rule ext, simp)
qed

end

end
