(* ===== verification/Packet_Filter.thy ===== *)
theory Packet_Filter
  imports Nftables Firewall_Rules
begin

text \<open>
  The firewall reconciler (src/pkg/network/firewall_linux.go): the translation of a rule into nftables
  expressions, and the batch that replaces the table the init owns.  The client library is a
  parameter: whether it opens, what tables it lists and whether it accepts a batch.
\<close>

subsection \<open>Bytes\<close>

definition portBytes :: "16 word \<Rightarrow> bytes" where
  "portBytes p = [ucast (drop_bit 8 p), ucast p]"

definition zeroBytes :: "nat \<Rightarrow> bytes" where
  "zeroBytes n = replicate n 0"

definition nftIfname :: "string \<Rightarrow> bytes" where
  "nftIfname name = take 16 (map of_char name) @ replicate (16 - length name) 0"

definition binaryUint32 :: "32 word \<Rightarrow> bytes" where
  "binaryUint32 v = [ucast v, ucast (drop_bit 8 v), ucast (drop_bit 16 v), ucast (drop_bit 24 v)]"

subsection \<open>Rules\<close>

definition firewallTableName :: string where "firewallTableName = ''weft-fw''"

definition CtStateBitESTABLISHED :: "32 word" where "CtStateBitESTABLISHED = 2"
definition CtStateBitRELATED :: "32 word" where "CtStateBitRELATED = 4"
definition NFPROTO_IPV4 :: "8 word" where "NFPROTO_IPV4 = 2"
definition NFPROTO_IPV6 :: "8 word" where "NFPROTO_IPV6 = 10"
definition IPPROTO_ICMP :: "8 word" where "IPPROTO_ICMP = 1"
definition IPPROTO_TCP :: "8 word" where "IPPROTO_TCP = 6"
definition IPPROTO_UDP :: "8 word" where "IPPROTO_UDP = 17"

lemmas proto_defs = NFPROTO_IPV4_def NFPROTO_IPV6_def IPPROTO_ICMP_def IPPROTO_TCP_def IPPROTO_UDP_def

definition ctEstablishedAccept :: "expr list" where
  "ctEstablishedAccept =
     [XCtState 1,
      XBitwise 1 1 (binaryUint32 (CtStateBitESTABLISHED OR CtStateBitRELATED)) [0, 0, 0, 0],
      XCmp CmpNeq 1 [0, 0, 0, 0],
      XVerdict VerdictAccept]"

definition iifAccept :: "string \<Rightarrow> expr list" where
  "iifAccept name =
     [XMeta MetaIIFNAME 1, XCmp CmpEq 1 (nftIfname name), XVerdict VerdictAccept]"

definition addrOffset :: "bytes \<Rightarrow> string \<Rightarrow> (nat \<times> 8 word) result" where
  "addrOffset ip dir =
     (let v4 = (To4 ip \<noteq> None)
      in if v4 \<and> dir = ''ingress'' then Inr (12, NFPROTO_IPV4)
         else if v4 \<and> dir = ''egress'' then Inr (16, NFPROTO_IPV4)
         else if \<not> v4 \<and> dir = ''ingress'' then Inr (8, NFPROTO_IPV6)
         else if \<not> v4 \<and> dir = ''egress'' then Inr (24, NFPROTO_IPV6)
         else Inl (Errorf ''unknown direction %q'' [AStr dir]))"

text \<open>The three parts of a rule: peer, protocol, ports.\<close>

definition cidr_exprs :: "FirewallRule \<Rightarrow> expr list result" where
  "cidr_exprs r =
     (if fr_RemoteCIDR r = [] then Inr []
      else (case ParseCIDR (fr_RemoteCIDR r) of
          None \<Rightarrow> Inl (Wrapf ''parse cidr: %w'' [] (Errorf ''invalid CIDR address'' [AStr (fr_RemoteCIDR r)]))
        | Some (ip, m) \<Rightarrow>
            (case addrOffset ip (fr_Direction r) of
               Inl e \<Rightarrow> Inl e
             | Inr (offset, family) \<Rightarrow> Inr
                 [XMeta MetaNFPROTO 1,
                  XCmp CmpEq 1 [family],
                  XPayload 1 NetworkHeader offset (length ip),
                  XBitwise 1 1 m (zeroBytes (length m)),
                  XCmp CmpEq 1 (mask_bytes ip m)])))"

definition protocol_exprs :: "FirewallRule \<Rightarrow> expr list result" where
  "protocol_exprs r =
     (let l4 = (\<lambda>n. Inr [XMeta MetaL4PROTO 1, XCmp CmpEq 1 [n]])
      in if fr_Protocol r = '''' then Inr []
         else if fr_Protocol r = ''tcp'' then l4 IPPROTO_TCP
         else if fr_Protocol r = ''udp'' then l4 IPPROTO_UDP
         else if fr_Protocol r = ''icmp'' then l4 IPPROTO_ICMP
         else Inl (Errorf ''unknown protocol %q'' [AStr (fr_Protocol r)]))"

definition port_exprs :: "FirewallRule \<Rightarrow> expr list" where
  "port_exprs r =
     (if fr_PortMin r \<noteq> 0 \<or> fr_PortMax r \<noteq> 0
      then XPayload 1 TransportHeader 2 2 #
        (if fr_PortMin r = fr_PortMax r then [XCmp CmpEq 1 (portBytes (fr_PortMin r))]
         else [XRange CmpEq 1 (portBytes (fr_PortMin r)) (portBytes (fr_PortMax r))])
      else [])"

definition buildRuleExprs :: "FirewallRule \<Rightarrow> expr list result" where
  "buildRuleExprs r =
     (case cidr_exprs r of
        Inl e \<Rightarrow> Inl e
      | Inr cidr \<Rightarrow>
          (case protocol_exprs r of
             Inl e \<Rightarrow> Inl e
           | Inr proto \<Rightarrow> Inr (cidr @ proto @ port_exprs r @ [XVerdict VerdictAccept])))"

subsection \<open>The batch\<close>

record nft_env =
  nv_open :: "goerr option"
  nv_tables :: "string list result"
  nv_flush :: "nft_op list \<Rightarrow> goerr option"

fun rule_ops :: "FirewallRule list \<Rightarrow> (string \<times> expr list) list result" where
  "rule_ops [] = Inr []"
| "rule_ops (r # rs) =
     (case buildRuleExprs r of
        Inl e \<Rightarrow> Inl (Wrapf ''build rule (%+v): %w'' [] e)
      | Inr es \<Rightarrow>
          (case rule_ops rs of
             Inl e \<Rightarrow> Inl e
           | Inr ops \<Rightarrow> Inr ((if fr_Direction r = ''ingress'' then [(''input'', es)]
                            else if fr_Direction r = ''egress'' then [(''output'', es)] else []) @ ops)))"

definition tail_rule :: "expr list" where
  "tail_rule = [XCounter 0 0, XVerdict VerdictDrop]"

definition table_ops :: "string list \<Rightarrow> (string \<times> expr list) list \<Rightarrow> nft_op list" where
  "table_ops existing rs =
     (let t = firewallTableName
      in map DelTable (filter (\<lambda>n. n = t) existing) @
         [AddTable t,
          AddChain t ''input'' ''input'' VerdictDrop,
          AddRule t ''input'' ctEstablishedAccept,
          AddRule t ''input'' (iifAccept ''lo''),
          AddChain t ''output'' ''output'' VerdictAccept] @
         map (\<lambda>(c, es). AddRule t c es) (rs @ [(''input'', tail_rule)]))"

text \<open>
  The result, and the batch that was handed to the kernel with \<open>Flush\<close>: the empty one when the function
  returned before it.  A batch the kernel refuses is handed all the same; it is the kernel that then
  takes none of it.
\<close>

definition ApplyFirewall :: "nft_env \<Rightarrow> Firewall \<Rightarrow> goerr option \<times> nft_op list" where
  "ApplyFirewall env fw =
     (case nv_open env of
        Some e \<Rightarrow> (Some (Wrapf ''nftables: %w'' [] e), [])
      | None \<Rightarrow>
          (case nv_tables env of
             Inl e \<Rightarrow> (Some (Wrapf ''list tables: %w'' [] e), [])
           | Inr existing \<Rightarrow>
               (case rule_ops (fw_Rules fw) of
                  Inl e \<Rightarrow> (Some e, [])
                | Inr rs \<Rightarrow>
                    (let ops = table_ops existing rs
                     in case nv_flush env ops of
                          Some e \<Rightarrow> (Some (Wrapf ''nftables flush: %w'' [] e), ops)
                        | None \<Rightarrow> (None, ops)))))"

subsection \<open>Packets\<close>

text \<open>
  What a rule is about: a packet of a flow.  \<open>wire\<close> lays it out as the kernel sees it: in an IPv4
  header the addresses follow 12 bytes, in an IPv6 header 8.
\<close>

record flow =
  fl_v6 :: bool
  fl_hdr :: bytes
  fl_src :: bytes
  fl_dst :: bytes
  fl_l4 :: "8 word"
  fl_th :: bytes
  fl_iif :: string
  fl_ct :: "32 word"

definition wire :: "flow \<Rightarrow> packet" where
  "wire f = \<lparr>pk_nfproto = (if fl_v6 f then NFPROTO_IPV6 else NFPROTO_IPV4), pk_l4 = fl_l4 f,
     pk_iif = nftIfname (fl_iif f), pk_ct = binaryUint32 (fl_ct f),
     pk_nh = fl_hdr f @ fl_src f @ fl_dst f, pk_th = fl_th f\<rparr>"

definition flow_ok :: "flow \<Rightarrow> bool" where
  "flow_ok f \<longleftrightarrow> length (fl_hdr f) = (if fl_v6 f then 8 else 12) \<and>
     length (fl_src f) = (if fl_v6 f then 16 else 4) \<and> length (fl_dst f) = (if fl_v6 f then 16 else 4) \<and>
     (fl_l4 f \<in> {IPPROTO_TCP, IPPROTO_UDP} \<longrightarrow> 4 \<le> length (fl_th f)) \<and> length (fl_iif f) < 16 \<and> CHR 0x00 \<notin> set (fl_iif f)"

definition dport :: "flow \<Rightarrow> nat" where
  "dport f = big_endian (take 2 (drop 2 (fl_th f)))"

definition peer :: "string \<Rightarrow> flow \<Rightarrow> bytes" where
  "peer dir f = (if dir = ''ingress'' then fl_src f else fl_dst f)"

definition protocol_number :: "string \<Rightarrow> 8 word" where
  "protocol_number s = (if s = ''tcp'' then IPPROTO_TCP else if s = ''udp'' then IPPROTO_UDP else IPPROTO_ICMP)"

fun is_v6 :: "addr \<Rightarrow> bool" where
  "is_v6 (V4 _) = False"
| "is_v6 (V6 _ _) = True"

definition rule_matches :: "FirewallRule \<Rightarrow> flow \<Rightarrow> bool" where
  "rule_matches r f \<longleftrightarrow>
     (fr_RemoteCIDR r = [] \<or>
        (case ParsePrefix (fr_RemoteCIDR r) of
           None \<Rightarrow> False
         | Some (ip, n) \<Rightarrow> (is_v6 ip \<longleftrightarrow> fl_v6 f) \<and> same_prefix n (peer (fr_Direction r) f) (addr_bytes ip))) \<and>
     (fr_Protocol r = [] \<or> fl_l4 f = protocol_number (fr_Protocol r)) \<and>
     (fr_PortMin r = 0 \<and> fr_PortMax r = 0 \<or>
        unat (fr_PortMin r) \<le> dport f \<and> dport f \<le> unat (fr_PortMax r))"

text \<open>A prefix of IPv4-mapped IPv6 addresses, such as \<open>::ffff:10.0.0.0/104\<close>.\<close>

definition mapped_prefix :: "string \<Rightarrow> bool" where
  "mapped_prefix s = (case ParsePrefix s of
     Some (V6 b z, n) \<Rightarrow> To4 (mask_bytes b (CIDRMask n 16)) \<noteq> None | _ \<Rightarrow> False)"

subsection \<open>Lemmas\<close>

lemma xor_zero: "length a = n \<Longrightarrow> map2 (XOR) a (replicate n 0) = (a :: bytes)"
  by (induction n arbitrary: a) (auto simp: length_Suc_conv)

lemma length_portBytes [simp]: "length (portBytes p) = 2"
  by (simp add: portBytes_def)

lemma big_endian_port: "big_endian (portBytes p) = unat p"
proof -
  have l: "unat p < 2 ^ 16" using unsigned_less [of p, where ?'a = nat] by simp
  have hi: "unat (ucast (drop_bit 8 p) :: 8 word) = unat p div 256"
    using l by (simp add: unsigned_ucast_eq unsigned_drop_bit_eq drop_bit_eq_div take_bit_eq_mod unat_div_distrib)
  have lo: "unat (ucast p :: 8 word) = unat p mod 256"
    by (simp add: unsigned_ucast_eq take_bit_eq_mod)
  show ?thesis unfolding portBytes_def by (simp add: hi lo)
qed

lemma big_endian_two: "length b = 2 \<Longrightarrow> big_endian b = unat (b ! 0) * 256 + unat (b ! 1)"
  by (auto simp: length_Suc_conv numeral_eq_Suc)

lemma big_endian_inj2:
  assumes "length a = 2" "length b = 2" "big_endian a = big_endian b"
  shows "a = b"
proof -
  from assms(1,2) obtain x y u v where ab: "a = [x, y]" "b = [u, v]" by (auto simp: length_Suc_conv numeral_eq_Suc)
  have e: "unat x * 256 + unat y = unat u * 256 + unat v" using assms(3) ab by simp
  have "(unat x * 256 + unat y) mod 256 = unat y" "(unat u * 256 + unat v) mod 256 = unat v"
    using unat_byte [of y] unat_byte [of v] by simp_all
  with e have "unat y = unat v" by metis
  with e have "unat x = unat u" "unat y = unat v" by simp_all
  with ab show ?thesis by (simp add: word_eq_iff_unsigned [where ?'a = nat])
qed

lemma To4_V4: "length b = 4 \<Longrightarrow> To4 b = Some b"
  by (simp add: To4_def)

text \<open>Loading the peer's address from the header of a packet on the wire.\<close>

lemma slice_peer:
  assumes "flow_ok f" "dir = ''ingress'' \<or> dir = ''egress''"
  shows "slice (if fl_v6 f then (if dir = ''ingress'' then 8 else 24) else (if dir = ''ingress'' then 12 else 16))
    (if fl_v6 f then 16 else 4) (pk_nh (wire f)) = Some (peer dir f)"
  using assms by (auto simp: slice_def wire_def flow_ok_def peer_def split: if_splits)

lemma rule_ok_build:
  assumes "rule_ok r"
  shows "\<exists>es. buildRuleExprs r = Inr es"
proof -
  have "\<exists>es. cidr_exprs r = Inr es"
  proof (cases "fr_RemoteCIDR r = []")
    case False
    with assms obtain ip n where p: "ParsePrefix (fr_RemoteCIDR r) = Some (ip, n)" by (auto simp: rule_ok_def)
    from ParsePrefix_ParseCIDR(1) [OF p] assms False show ?thesis
      by (auto simp: cidr_exprs_def addrOffset_def Let_def rule_ok_def split: sum.split)
  qed (simp add: cidr_exprs_def)
  moreover have "\<exists>es. protocol_exprs r = Inr es"
    using assms by (auto simp: protocol_exprs_def Let_def rule_ok_def)
  ultimately show ?thesis by (auto simp: buildRuleExprs_def)
qed

lemma rule_ops_ok: "list_all rule_ok rs \<Longrightarrow> \<exists>ops. rule_ops rs = Inr ops"
proof (induction rs)
  case (Cons r rs)
  then obtain es ops where "buildRuleExprs r = Inr es" "rule_ops rs = Inr ops"
    using rule_ok_build by fastforce
  then show ?case by simp
qed simp

context nft_vm begin

lemma run_append_cont:
  "run_rule exec p R (e # es) = (case exec e p R of Cont R' \<Rightarrow> run_rule exec p R' es | Break \<Rightarrow> None | Done v \<Rightarrow> Some v)"
  by simp

text \<open>Each part of a rule either ends it or hands over to the rest, with registers that do not matter.\<close>

definition gate :: "bool \<Rightarrow> packet \<Rightarrow> expr list \<Rightarrow> bool" where
  "gate b p es \<longleftrightarrow> (\<forall>R rest.
     if b then (\<forall>v. (\<forall>R'. run_rule exec p R' rest = v) \<longrightarrow> run_rule exec p R (es @ rest) = v)
     else run_rule exec p R (es @ rest) = None)"

lemma gateD: "gate b p es \<Longrightarrow> (\<And>R'. run_rule exec p R' rest = v) \<Longrightarrow>
    run_rule exec p R (es @ rest) = (if b then v else None)"
  by (simp add: gate_def)

lemma gate_Nil: "gate True p []"
  by (simp add: gate_def)

lemma gate_trueD: "gate True p es \<Longrightarrow> (\<And>R'. run_rule exec p R' rest = v) \<Longrightarrow> run_rule exec p R (es @ rest) = v"
  by (simp add: gate_def)

lemma gate_falseD: "gate False p es \<Longrightarrow> run_rule exec p R (es @ rest) = None"
  by (simp add: gate_def)

lemma gate_append:
  assumes "gate a p xs" "gate b p ys"
  shows "gate (a \<and> b) p (xs @ ys)"
proof -
  have 1: "gate False p (xs @ ys)" if "\<not> (a \<and> b)"
  proof (cases a)
    case True
    with that assms(2) have "gate False p ys" by simp
    then have "run_rule exec p R' (ys @ rest) = None" for R' rest by (rule gate_falseD)
    moreover have "gate True p xs" using assms(1) True by simp
    ultimately have "run_rule exec p R (xs @ ys @ rest) = None" for R rest
      using gate_trueD [of p xs "ys @ rest" None] by blast
    then show ?thesis by (simp add: gate_def)
  next
    case False
    with assms(1) have "gate False p xs" by simp
    then have "run_rule exec p R (xs @ ys @ rest) = None" for R rest by (rule gate_falseD)
    then show ?thesis by (simp add: gate_def)
  qed
  have 2: "gate True p (xs @ ys)" if "a" "b"
  proof -
    have "run_rule exec p R (xs @ ys @ rest) = v" if "\<And>R'. run_rule exec p R' rest = v" for R rest v
      using assms \<open>a\<close> \<open>b\<close> that gate_trueD [of p xs "ys @ rest" v] gate_trueD [of p ys rest v] by simp
    then show ?thesis by (simp add: gate_def)
  qed
  show ?thesis using 1 2 by (cases a; cases b) simp_all
qed

lemma gate_byte:
  "gate (pk_l4 p = n) p [XMeta MetaL4PROTO 1, XCmp CmpEq 1 [n]]"
  "gate (pk_nfproto p = n) p [XMeta MetaNFPROTO 1, XCmp CmpEq 1 [n]]"
  by (simp_all add: gate_def exec_l4proto exec_nfproto exec_eq)

lemma gate_protocol:
  assumes "protocol_exprs r = Inr es" "rule_ok r"
  shows "gate (fr_Protocol r = [] \<or> pk_l4 p = protocol_number (fr_Protocol r)) p es"
  using assms gate_byte(1) gate_Nil
  by (auto simp: protocol_exprs_def Let_def rule_ok_def protocol_number_def split: if_splits)

lemma gate_ports:
  assumes ok: "flow_ok f" and l4: "fr_PortMin r \<noteq> 0 \<or> fr_PortMax r \<noteq> 0 \<Longrightarrow> 4 \<le> length (fl_th f)"
  shows "gate (fr_PortMin r = 0 \<and> fr_PortMax r = 0 \<or>
    unat (fr_PortMin r) \<le> dport f \<and> dport f \<le> unat (fr_PortMax r)) (wire f) (port_exprs r)"
proof (cases "fr_PortMin r = 0 \<and> fr_PortMax r = 0")
  case True
  then show ?thesis by (simp add: port_exprs_def gate_Nil)
next
  case False
  let ?d = "take 2 (drop 2 (fl_th f))"
  have s: "slice 2 2 (pk_th (wire f)) = Some ?d" "length ?d = 2"
    using l4 False by (auto simp: slice_def wire_def)
  show ?thesis
  proof (cases "fr_PortMin r = fr_PortMax r")
    case True
    have "?d = portBytes (fr_PortMin r) \<longleftrightarrow> dport f = unat (fr_PortMin r)"
      using big_endian_inj2 [OF s(2), of "portBytes (fr_PortMin r)"]
      by (auto simp: dport_def big_endian_port)
    with False True s show ?thesis
      by (auto simp: port_exprs_def gate_def exec_payload_th exec_eq)
  next
    case ne: False
    with False s show ?thesis
      by (auto simp: port_exprs_def gate_def exec_payload_th exec_range big_endian_port dport_def)
  qed
qed

text \<open>The place of the peer address in the packet, and the expressions that compare it.\<close>

definition peer_offset :: "bool \<Rightarrow> string \<Rightarrow> nat" where
  "peer_offset v6 dir = (if v6 then (if dir = ''ingress'' then 8 else 24) else (if dir = ''ingress'' then 12 else 16))"

lemma cidr_exprs_shape:
  assumes r: "rule_ok r" and nm: "\<not> mapped_prefix (fr_RemoteCIDR r)" and es: "cidr_exprs r = Inr es"
    and ne: "fr_RemoteCIDR r \<noteq> []" and p: "ParsePrefix (fr_RemoteCIDR r) = Some (ip, n)"
  defines "l \<equiv> addr_bits ip div 8"
  shows "es = [XMeta MetaNFPROTO 1, XCmp CmpEq 1 [if is_v6 ip then NFPROTO_IPV6 else NFPROTO_IPV4],
      XPayload 1 NetworkHeader (peer_offset (is_v6 ip) (fr_Direction r)) l,
      XBitwise 1 1 (CIDRMask n l) (zeroBytes l), XCmp CmpEq 1 (mask_bytes (addr_bytes ip) (CIDRMask n l))]"
proof -
  note q = ParsePrefix_ParseCIDR [OF p]
  let ?m = "CIDRMask n l" let ?net = "mask_bytes (addr_bytes ip) ?m" let ?dir = "fr_Direction r"
  have dir: "?dir = ''ingress'' \<or> ?dir = ''egress''" using r by (simp add: rule_ok_def)
  have net: "length ?net = l" using q(3) by (simp add: l_def)
  have "To4 ?net \<noteq> None \<longleftrightarrow> \<not> is_v6 ip"
  proof (cases ip)
    case (V4 b)
    with net show ?thesis by (simp add: To4_def l_def)
  next
    case (V6 b z)
    with nm p show ?thesis by (simp add: mapped_prefix_def l_def)
  qed
  then have "addrOffset ?net ?dir = Inr (peer_offset (is_v6 ip) ?dir, if is_v6 ip then NFPROTO_IPV6 else NFPROTO_IPV4)"
    using dir by (auto simp: addrOffset_def peer_offset_def Let_def)
  with es ne q(1) net mask_idem [of "addr_bytes ip" ?m] q(3) show ?thesis
    by (simp add: cidr_exprs_def l_def)
qed

lemma gate_cidr:
  assumes ok: "flow_ok f" and r: "rule_ok r" and nm: "\<not> mapped_prefix (fr_RemoteCIDR r)"
    and es: "cidr_exprs r = Inr es"
  shows "gate (fr_RemoteCIDR r = [] \<or>
        (case ParsePrefix (fr_RemoteCIDR r) of
           None \<Rightarrow> False
         | Some (ip, n) \<Rightarrow> (is_v6 ip \<longleftrightarrow> fl_v6 f) \<and> same_prefix n (peer (fr_Direction r) f) (addr_bytes ip)))
    (wire f) es"
proof (cases "fr_RemoteCIDR r = []")
  case True
  with es show ?thesis by (auto simp: cidr_exprs_def gate_Nil)
next
  case False
  with r obtain ip n where p: "ParsePrefix (fr_RemoteCIDR r) = Some (ip, n)" by (auto simp: rule_ok_def)
  note q = ParsePrefix_ParseCIDR [OF p]
  let ?l = "addr_bits ip div 8" let ?m = "CIDRMask n ?l" let ?net = "mask_bytes (addr_bytes ip) ?m"
  let ?dir = "fr_Direction r" let ?peer = "peer ?dir f" let ?offset = "peer_offset (is_v6 ip) ?dir"
  have dir: "?dir = ''ingress'' \<or> ?dir = ''egress''" using r by (simp add: rule_ok_def)
  have l: "?l = (if is_v6 ip then 16 else 4)" by (cases ip) simp_all
  have net: "length ?net = ?l" using q(3) by simp
  note es' = cidr_exprs_shape [OF r nm es False p]
  have eight: "8 * ?l = addr_bits ip" by (cases ip) simp_all
  show ?thesis
  proof (cases "is_v6 ip = fl_v6 f")
    case False
    then have "pk_nfproto (wire f) \<noteq> (if is_v6 ip then NFPROTO_IPV6 else NFPROTO_IPV4)"
      by (auto simp: wire_def proto_defs)
    with False p \<open>fr_RemoteCIDR r \<noteq> []\<close> show ?thesis
      unfolding es' gate_def by (simp add: exec_nfproto exec_eq)
  next
    case True
    have fam2: "pk_nfproto (wire f) = (if is_v6 ip then NFPROTO_IPV6 else NFPROTO_IPV4)"
      using True by (simp add: wire_def)
    have s: "slice ?offset ?l (pk_nh (wire f)) = Some ?peer"
      using slice_peer [OF ok dir] True l by (simp add: peer_offset_def)
    have lp: "length ?peer = ?l" using ok True l by (auto simp: peer_def flow_ok_def)
    have "map2 (XOR) (map2 (AND) ?peer ?m) (zeroBytes ?l) = mask_bytes ?peer ?m"
      using xor_zero [of "mask_bytes ?peer ?m" ?l] lp by (simp add: zeroBytes_def mask_bytes_def)
    moreover have "mask_bytes ?peer ?m = ?net \<longleftrightarrow> same_prefix n ?peer (addr_bytes ip)"
      using mask_same_prefix [OF lp q(3)] q(2) eight by simp
    ultimately have "run_rule exec (wire f) R (es @ rest) =
        (if same_prefix n ?peer (addr_bytes ip) then run_rule exec (wire f) (R(1 := ?net)) rest else None)" for R rest
      unfolding es' using fam2 s lp net
      by (cases "same_prefix n ?peer (addr_bytes ip)")
        (simp_all add: exec_nfproto exec_eq exec_payload_nh exec_bitwise zeroBytes_def)
    with p \<open>fr_RemoteCIDR r \<noteq> []\<close> True show ?thesis by (simp add: gate_def)
  qed
qed

lemma rule_accepts:
  assumes "flow_ok f" "rule_ok r" "\<not> mapped_prefix (fr_RemoteCIDR r)" "buildRuleExprs r = Inr es"
  shows "run_rule exec (wire f) R es = (if rule_matches r f then Some VerdictAccept else None)"
proof -
  from assms(4) obtain xs ys where xs: "cidr_exprs r = Inr xs" "protocol_exprs r = Inr ys"
    "es = xs @ ys @ port_exprs r @ [XVerdict VerdictAccept]"
    by (auto simp: buildRuleExprs_def split: sum.splits)
  have l4: "pk_l4 (wire f) = fl_l4 f" by (simp add: wire_def)
  note c = gate_cidr [OF assms(1-3) xs(1)] and p = gate_protocol [OF xs(2) assms(2), of "wire f", unfolded l4]
  show ?thesis
  proof (cases "fr_Protocol r = [] \<or> fl_l4 f = protocol_number (fr_Protocol r)")
    case True
    have "4 \<le> length (fl_th f)" if "fr_PortMin r \<noteq> 0 \<or> fr_PortMax r \<noteq> 0"
      using that True assms(1,2) by (auto simp: rule_ok_def flow_ok_def protocol_number_def)
    from gate_append [OF c gate_append [OF p gate_ports [OF assms(1) this]]]
    have "run_rule exec (wire f) R ((xs @ ys @ port_exprs r) @ [XVerdict VerdictAccept]) =
        (if rule_matches r f then Some VerdictAccept else None)"
      unfolding rule_matches_def by (intro gateD) (simp_all add: exec_verdict)
    then show ?thesis by (simp add: xs(3))
  next
    case False
    with gate_append [OF c p] have "gate False (wire f) (xs @ ys)" by (simp only: simp_thms)
    then have "run_rule exec (wire f) R ((xs @ ys) @ port_exprs r @ [XVerdict VerdictAccept]) = None"
      unfolding gate_def if_False by blast
    with False show ?thesis unfolding xs(3) rule_matches_def by simp
  qed
qed

end

subsection \<open>The rules every table starts with\<close>

text \<open>The connection a packet belongs to is established, or related to one that is.\<close>

definition established :: "flow \<Rightarrow> bool" where
  "established f \<longleftrightarrow> bit (fl_ct f) 1 \<or> bit (fl_ct f) 2"

lemma ct_byte: "(ucast (v :: 32 word) :: 8 word) AND 6 = 0 \<longleftrightarrow> \<not> bit v 1 \<and> \<not> bit v 2"
  by (simp add: byte_eq_iff bit_simps)

lemma of_char_byte: "(of_char c :: 8 word) = b \<longleftrightarrow> c = char_of (unat b)"
proof -
  have l: "(of_char c :: nat) < 256" by simp
  have u: "unat (of_char c :: 8 word) = (of_char c :: nat)"
  proof -
    have "(of_char c :: 8 word) = of_nat (of_char c)" by (rule of_nat_of_char [symmetric])
    then show ?thesis by (simp only: unat_of_nat take_bit_eq_mod) (use l in simp)
  qed
  show ?thesis
  proof
    assume "of_char c = b"
    then have "char_of (unat b) = char_of (of_char c :: nat)" using u by simp
    then show "c = char_of (unat b)" by simp
  next
    assume c: "c = char_of (unat b)"
    have "(of_char c :: nat) = unat b" using unat_byte [of b] by (simp add: c)
    with u show "of_char c = b" by (simp add: word_eq_iff_unsigned [where ?'a = nat])
  qed
qed

lemma nftIfname_lo:
  assumes "CHR 0x00 \<notin> set n" "length n < 16"
  shows "nftIfname n = nftIfname ''lo'' \<longleftrightarrow> n = ''lo''"
proof
  assume e: "nftIfname n = nftIfname ''lo''"
  have t: "nftIfname n = map of_char n @ replicate (16 - length n) 0" using assms(2) by (simp add: nftIfname_def)
  have m: "map of_char n @ replicate (16 - length n) 0 = [108, 111] @ replicate 14 (0 :: 8 word)"
    using e unfolding t by (simp add: nftIfname_def)
  have nz: "\<And>c. c \<in> set n \<Longrightarrow> (of_char c :: 8 word) \<noteq> 0" using assms(1) by (auto simp: of_char_byte char_of_def)
  have len: "length n = 2"
  proof -
    have "filter (\<lambda>x. x \<noteq> 0) (map of_char n @ replicate (16 - length n) (0 :: 8 word)) = map of_char n"
      using nz by (simp add: filter_id_conv)
    then have "map of_char n = [108, 111 :: 8 word]" unfolding m by simp
    then show ?thesis by (metis length_map length_Cons list.size(3) numeral_2_eq_2)
  qed
  then obtain a b where n: "n = [a, b]" by (auto simp: length_Suc_conv numeral_eq_Suc)
  with m have "(of_char a :: 8 word) = 108" "(of_char b :: 8 word) = 111" by simp_all
  with n show "n = ''lo''" by (simp add: of_char_byte char_of_def bit_0)
qed simp

context nft_vm begin

lemma established_accepts:
  "run_rule exec (wire f) R ctEstablishedAccept =
     (if established f then Some VerdictAccept else None)"
proof -
  have m: "binaryUint32 (CtStateBitESTABLISHED OR CtStateBitRELATED) = [6, 0, 0, 0]"
    by (simp add: binaryUint32_def CtStateBitESTABLISHED_def CtStateBitRELATED_def)
  show ?thesis
    unfolding ctEstablishedAccept_def m using ct_byte [of "fl_ct f"]
    by (simp add: exec_ct exec_bitwise exec_neq exec_verdict wire_def binaryUint32_def established_def)
qed

lemma length_nftIfname: "length (nftIfname n) = 16"
  by (simp add: nftIfname_def)

lemma loopback_accepts:
  assumes "flow_ok f"
  shows "run_rule exec (wire f) R (iifAccept ''lo'') = (if fl_iif f = ''lo'' then Some VerdictAccept else None)"
proof -
  have "nftIfname (fl_iif f) = nftIfname ''lo'' \<longleftrightarrow> fl_iif f = ''lo''"
    using assms by (intro nftIfname_lo) (simp_all add: flow_ok_def)
  then show ?thesis
    by (simp add: iifAccept_def exec_iifname exec_eq exec_verdict wire_def length_nftIfname)
qed

end

subsection \<open>The table the batch leaves\<close>

text \<open>The expressions of the rules of one direction, and the table as it should be.\<close>

definition rule_exprs :: "FirewallRule \<Rightarrow> expr list" where
  "rule_exprs r = (case buildRuleExprs r of Inl _ \<Rightarrow> [] | Inr es \<Rightarrow> es)"

definition rules_for :: "string \<Rightarrow> Firewall \<Rightarrow> FirewallRule list" where
  "rules_for dir fw = filter (\<lambda>r. fr_Direction r = dir) (fw_Rules fw)"

definition desired_chains :: "Firewall \<Rightarrow> nft_chain list" where
  "desired_chains fw =
     [\<lparr>ch_Name = ''input'', ch_Hook = ''input'', ch_Policy = VerdictDrop,
        ch_Rules = [ctEstablishedAccept, iifAccept ''lo''] @ map rule_exprs (rules_for ''ingress'' fw) @ [tail_rule]\<rparr>,
      \<lparr>ch_Name = ''output'', ch_Hook = ''output'', ch_Policy = VerdictAccept,
        ch_Rules = map rule_exprs (rules_for ''egress'' fw)\<rparr>]"

lemma rule_ops_Inr:
  "rule_ops rs = Inr ops \<Longrightarrow>
   map snd (filter (\<lambda>(c, es). c = ''input'') ops) = map rule_exprs (filter (\<lambda>r. fr_Direction r = ''ingress'') rs) \<and>
   map snd (filter (\<lambda>(c, es). c = ''output'') ops) = map rule_exprs (filter (\<lambda>r. fr_Direction r = ''egress'') rs) \<and>
   (\<forall>(c, es) \<in> set ops. c = ''input'' \<or> c = ''output'')"
proof (induction rs arbitrary: ops)
  case (Cons r rs)
  then obtain es ops' where "buildRuleExprs r = Inr es" "rule_ops rs = Inr ops'"
    "ops = (if fr_Direction r = ''ingress'' then [(''input'', es)]
            else if fr_Direction r = ''egress'' then [(''output'', es)] else []) @ ops'"
    by (auto split: sum.splits)
  with Cons.IH [of ops'] show ?case by (auto simp: rule_exprs_def)
qed simp

lemma foldl_add_rules:
  assumes "ch_Name ci = ''input''" "ch_Name co = ''output''"
  shows "\<forall>(c, es) \<in> set ops. c = ''input'' \<or> c = ''output'' \<Longrightarrow>
    foldl (\<lambda>cs (c, es). add_rule_to c es cs) [ci, co] ops =
      [ci\<lparr>ch_Rules := ch_Rules ci @ map snd (filter (\<lambda>(c, es). c = ''input'') ops)\<rparr>,
       co\<lparr>ch_Rules := ch_Rules co @ map snd (filter (\<lambda>(c, es). c = ''output'') ops)\<rparr>]"
  using assms
proof (induction ops arbitrary: ci co)
  case (Cons op ops)
  obtain c es where op: "op = (c, es)" by (cases op)
  then have "c = ''input'' \<or> c = ''output''" using Cons.prems by auto
  then show ?case
  proof
    assume c: "c = ''input''"
    with Cons.IH [of "ci\<lparr>ch_Rules := ch_Rules ci @ [es]\<rparr>" co] Cons.prems op show ?thesis
      by (simp add: add_rule_to_def)
  next
    assume c: "c = ''output''"
    with Cons.IH [of ci "co\<lparr>ch_Rules := ch_Rules co @ [es]\<rparr>"] Cons.prems op show ?thesis
      by (simp add: add_rule_to_def)
  qed
qed simp

lemma ApplyFirewall_ok:
  "ApplyFirewall env fw = (None, ops) \<Longrightarrow> nv_tables env = Inr existing \<Longrightarrow>
    \<exists>rs. rule_ops (fw_Rules fw) = Inr rs \<and> ops = table_ops existing rs \<and> nv_flush env ops = None"
  by (auto simp: ApplyFirewall_def Let_def split: option.splits sum.splits)

context nft_tables begin

lemma commit_deletes:
  "tables (commit commit1 (map DelTable (filter (\<lambda>n. n = t) ts)) k) =
     (if t \<in> set ts then (tables k)(t := None) else tables k)"
  by (induction ts arbitrary: k) (auto simp: commit_Nil commit_Cons del_table)

end

text \<open>The table with its two chains and the fixed rules of the input chain.\<close>

definition base_input :: nft_chain where
  "base_input = \<lparr>ch_Name = ''input'', ch_Hook = ''input'', ch_Policy = VerdictDrop,
     ch_Rules = [ctEstablishedAccept, iifAccept ''lo'']\<rparr>"

definition base_output :: nft_chain where
  "base_output = \<lparr>ch_Name = ''output'', ch_Hook = ''output'', ch_Policy = VerdictAccept, ch_Rules = []\<rparr>"

definition base_ops :: "string \<Rightarrow> nft_op list" where
  "base_ops t = [AddTable t, AddChain t ''input'' ''input'' VerdictDrop, AddRule t ''input'' ctEstablishedAccept,
     AddRule t ''input'' (iifAccept ''lo''), AddChain t ''output'' ''output'' VerdictAccept]"

context nft_tables begin

lemma commit_base:
  assumes "tables k t = None"
  shows "tables (commit commit1 (base_ops t) k) = (tables k)(t := Some [base_input, base_output])"
proof -
  let ?ci = "base_input\<lparr>ch_Rules := []\<rparr>" let ?r1 = "ctEstablishedAccept" let ?r2 = "iifAccept ''lo''"
  note chain = base_input_def base_output_def add_rule_to_def
  define k1 where "k1 = commit1 (AddTable t) k"
  have k1: "tables k1 = (tables k)(t := Some [])" by (simp add: k1_def add_table assms)
  define k2 where "k2 = commit1 (AddChain t ''input'' ''input'' VerdictDrop) k1"
  have k2: "tables k2 = (tables k)(t := Some [?ci])"
    using add_chain [of k1 t "[]" "''input''"] by (simp add: k2_def k1 chain)
  define k3 where "k3 = commit1 (AddRule t ''input'' ?r1) k2"
  have k3: "tables k3 = (tables k)(t := Some [?ci\<lparr>ch_Rules := [?r1]\<rparr>])"
    using add_rule [of k2 t "[?ci]" "''input''"] by (simp add: k3_def k2 chain)
  define k4 where "k4 = commit1 (AddRule t ''input'' ?r2) k3"
  have k4: "tables k4 = (tables k)(t := Some [base_input])"
    using add_rule [of k3 t "[?ci\<lparr>ch_Rules := [?r1]\<rparr>]" "''input''"] by (simp add: k4_def k3 chain)
  have "commit commit1 (base_ops t) k = commit1 (AddChain t ''output'' ''output'' VerdictAccept) k4"
    by (simp only: base_ops_def commit_Cons commit_Nil k1_def k2_def k3_def k4_def)
  then show ?thesis
    using add_chain [of k4 t "[base_input]" "''output''"] by (simp add: k4 chain)
qed

lemma commit_table:
  assumes ex: "t \<in> set ts \<or> tables k t = None" and t: "t = firewallTableName"
    and rs: "rule_ops (fw_Rules fw) = Inr rs"
  shows "tables (commit commit1 (table_ops ts rs) k) = (tables k)(t := Some (desired_chains fw))"
proof -
  let ?rs = "rs @ [(''input'', tail_rule)]" and ?cs = "[base_input, base_output]"
  define k0 where "k0 = commit commit1 (map DelTable (filter (\<lambda>n. n = t) ts)) k"
  have k0: "tables k0 = (tables k)(t := None)"
    using ex commit_deletes [of t ts k] by (auto simp: k0_def fun_eq_iff)
  define k5 where "k5 = commit commit1 (base_ops t) k0"
  have k5: "tables k5 = (tables k)(t := Some ?cs)" by (simp add: k5_def commit_base k0)
  have k: "commit commit1 (table_ops ts rs) k = commit commit1 (map (\<lambda>(c, es). AddRule t c es) ?rs) k5"
    unfolding table_ops_def Let_def t [symmetric] base_ops_def [symmetric]
    by (simp only: commit_append k0_def k5_def)
  note ops = rule_ops_Inr [OF rs] and names = base_input_def base_output_def
  have n: "\<forall>(c, es) \<in> set ?rs. c = ''input'' \<or> c = ''output''" using ops by auto
  then have "\<forall>(c, es) \<in> set ?rs. c \<in> ch_Name ` set ?cs" by (auto simp: names)
  then have "tables (commit commit1 (table_ops ts rs) k) =
      (tables k5)(t := Some (foldl (\<lambda>cs (c, es). add_rule_to c es cs) ?cs ?rs))"
    unfolding k by (intro add_rules) (simp add: k5)
  also have "foldl (\<lambda>cs (c, es). add_rule_to c es cs) ?cs ?rs = desired_chains fw"
    by (subst foldl_add_rules [OF _ _ n]) (use ops in \<open>simp_all add: desired_chains_def rules_for_def names\<close>)
  finally show ?thesis unfolding k5 fun_upd_upd .
qed

end

text \<open>A library and a kernel that grant everything, for the witnesses.\<close>

definition nft_ok :: "string list \<Rightarrow> nft_env" where
  "nft_ok ts = \<lparr>nv_open = None, nv_tables = Inr ts, nv_flush = (\<lambda>_. None)\<rparr>"

definition ssh_rule :: FirewallRule where
  "ssh_rule = \<lparr>fr_Direction = ''ingress'', fr_Protocol = ''tcp'', fr_PortMin = 22, fr_PortMax = 22,
     fr_RemoteCIDR = ''10.0.0.0/8''\<rparr>"

text \<open>
  C7. \<open>ApplyFirewall\<close> is a whole-state replacement: when it succeeds, the table \<open>weft-fw\<close> is exactly
  the one the ruleset asks for, whatever it held before, every other table is as it was, and applying
  the same ruleset again changes nothing.
\<close>

theorem ApplyFirewall_replaces:
  assumes "nft_tables tables commit1" "nv_tables env = Inr existing"
    and "firewallTableName \<in> set existing \<or> tables k firewallTableName = None"
    and "ApplyFirewall env fw = (None, ops)"
  shows "tables (commit commit1 ops k) = (tables k)(firewallTableName := Some (desired_chains fw)) \<and>
    (\<forall>existing' ops'. firewallTableName \<in> set existing' \<longrightarrow>
       ApplyFirewall (env\<lparr>nv_tables := Inr existing'\<rparr>) fw = (None, ops') \<longrightarrow>
       tables (commit commit1 ops' (commit commit1 ops k)) = tables (commit commit1 ops k))"
proof -
  from ApplyFirewall_ok [OF assms(4,2)] obtain rs where
    rs: "rule_ops (fw_Rules fw) = Inr rs" "ops = table_ops existing rs" by blast
  have 1: "tables (commit commit1 ops k) = (tables k)(firewallTableName := Some (desired_chains fw))"
    unfolding rs(2) by (rule nft_tables.commit_table [OF assms(1,3) refl rs(1)])
  have "tables (commit commit1 ops' (commit commit1 ops k)) = tables (commit commit1 ops k)"
    if "firewallTableName \<in> set existing'" "ApplyFirewall (env\<lparr>nv_tables := Inr existing'\<rparr>) fw = (None, ops')"
    for existing' ops'
  proof -
    from ApplyFirewall_ok [OF that(2)] rs(1) have ops': "ops' = table_ops existing' rs" by simp
    have "tables (commit commit1 ops' (commit commit1 ops k)) =
        (tables (commit commit1 ops k))(firewallTableName := Some (desired_chains fw))"
      unfolding ops' using that(1) by (intro nft_tables.commit_table [OF assms(1) _ refl rs(1)]) simp
    then show ?thesis by (simp add: 1)
  qed
  with 1 show ?thesis by blast
qed

theorem ApplyFirewall_replaces_witness:
  "\<exists>ops. ApplyFirewall (nft_ok [''filter'', firewallTableName]) \<lparr>fw_Rules = []\<rparr> = (None, ops) \<and>
    commit ref_commit1 ops [''filter'' \<mapsto> [], firewallTableName \<mapsto> []] =
      [''filter'' \<mapsto> [], firewallTableName \<mapsto> desired_chains \<lparr>fw_Rules = []\<rparr>]"
proof -
  obtain ops where ops: "ApplyFirewall (nft_ok [''filter'', firewallTableName]) \<lparr>fw_Rules = []\<rparr> = (None, ops)"
    by (simp add: ApplyFirewall_def nft_ok_def)
  have t: "nv_tables (nft_ok [''filter'', firewallTableName]) = Inr [''filter'', firewallTableName]"
    by (simp add: nft_ok_def)
  let ?k = "[''filter'' \<mapsto> [], firewallTableName \<mapsto> []] :: string \<rightharpoonup> nft_chain list"
  have "firewallTableName \<in> set [''filter'', firewallTableName] \<or> ?k firewallTableName = None" by simp
  with ApplyFirewall_replaces [of "\<lambda>k. k" ref_commit1 _ _ ?k, OF nft_ref_tables.nft_tables_axioms t _ ops]
  have "commit ref_commit1 ops ?k = ?k(firewallTableName \<mapsto> desired_chains \<lparr>fw_Rules = []\<rparr>)" by blast
  with ops show ?thesis by (intro exI [of _ ops]) (simp only: fun_upd_upd simp_thms)
qed

text \<open>What a ruleset asks for, rule by rule: the chain of its direction and its expressions.\<close>

definition chain_entries :: "Firewall \<Rightarrow> (string \<times> expr list) list" where
  "chain_entries fw = concat (map (\<lambda>r.
     if fr_Direction r = ''ingress'' then [(''input'', rule_exprs r)]
     else if fr_Direction r = ''egress'' then [(''output'', rule_exprs r)] else []) (fw_Rules fw))"

lemma rule_ops_iff:
  "(case rule_ops rs of
      Inl e \<Rightarrow> \<exists>r \<in> set rs. \<exists>e. buildRuleExprs r = Inl e
    | Inr ops \<Rightarrow> (\<forall>r \<in> set rs. \<exists>es. buildRuleExprs r = Inr es) \<and> ops = chain_entries \<lparr>fw_Rules = rs\<rparr>)"
proof (induction rs)
  case (Cons r rs)
  show ?case
  proof (cases "buildRuleExprs r")
    case (Inr es)
    with Cons show ?thesis by (cases "rule_ops rs") (auto simp: chain_entries_def rule_exprs_def)
  qed auto
qed (simp add: chain_entries_def)

lemma entries_of: "chain_entries \<lparr>fw_Rules = fw_Rules fw\<rparr> = chain_entries fw"
  by (simp add: chain_entries_def)

text \<open>
  C27. All or nothing.  Unless the library opens, lists the tables and every rule of the set can be
  translated, \<open>ApplyFirewall\<close> fails and has handed the kernel nothing: no ruleset is ever installed in
  part.  Otherwise it hands over one batch, the table with the entry of each rule in order, and
  succeeds exactly when the kernel accepts that batch.  A ruleset that passes validation is never
  refused by the translation, although the two use different prefix parsers.
\<close>

theorem apply_all_or_nothing:
  "(if nv_open env = None \<and> (\<exists>ts. nv_tables env = Inr ts) \<and> (\<forall>r \<in> set (fw_Rules fw). \<exists>es. buildRuleExprs r = Inr es)
    then \<exists>ts. nv_tables env = Inr ts \<and> snd (ApplyFirewall env fw) = table_ops ts (chain_entries fw) \<and>
      (fst (ApplyFirewall env fw) = None \<longleftrightarrow> nv_flush env (table_ops ts (chain_entries fw)) = None)
    else fst (ApplyFirewall env fw) \<noteq> None \<and> snd (ApplyFirewall env fw) = []) \<and>
   (Firewall_Validate fw = None \<longrightarrow> (\<forall>r \<in> set (fw_Rules fw). \<exists>es. buildRuleExprs r = Inr es))"
proof
  note ops = rule_ops_iff [of "fw_Rules fw", unfolded entries_of]
  show "if nv_open env = None \<and> (\<exists>ts. nv_tables env = Inr ts) \<and> (\<forall>r \<in> set (fw_Rules fw). \<exists>es. buildRuleExprs r = Inr es)
    then \<exists>ts. nv_tables env = Inr ts \<and> snd (ApplyFirewall env fw) = table_ops ts (chain_entries fw) \<and>
      (fst (ApplyFirewall env fw) = None \<longleftrightarrow> nv_flush env (table_ops ts (chain_entries fw)) = None)
    else fst (ApplyFirewall env fw) \<noteq> None \<and> snd (ApplyFirewall env fw) = []"
  proof (cases "rule_ops (fw_Rules fw)")
    case (Inl e)
    with ops have "\<not> (\<forall>r \<in> set (fw_Rules fw). \<exists>es. buildRuleExprs r = Inr es)"
      by simp (metis sum.distinct(1))
    with Inl show ?thesis by (auto simp: ApplyFirewall_def split: option.splits sum.splits)
  next
    case (Inr rs)
    with ops have "\<forall>r \<in> set (fw_Rules fw). \<exists>es. buildRuleExprs r = Inr es" "rs = chain_entries fw" by simp_all
    with Inr show ?thesis by (auto simp: ApplyFirewall_def Let_def split: option.splits sum.splits)
  qed
  show "Firewall_Validate fw = None \<longrightarrow> (\<forall>r \<in> set (fw_Rules fw). \<exists>es. buildRuleExprs r = Inr es)"
    using rule_ok_build by (auto simp: Firewall_Validate_None_iff list_all_iff)
qed

lemma ssh_prefix: "ParsePrefix ''10.0.0.0/8'' = Some (V4 [10, 0, 0, 0], 8)"
  by (simp add: ParsePrefix_def cut_last_def cut_def ParseAddr_def parse_v4_def is_digit_def digit_val_def
      prefix_len_def parse_uint_def)

lemma rule_ok_ssh: "rule_ok ssh_rule"
  by (simp add: rule_ok_def ssh_rule_def ssh_prefix)

text \<open>One rule of two that cannot be translated, and a ruleset that is valid.\<close>

definition bad_rule :: FirewallRule where
  "bad_rule = ssh_rule\<lparr>fr_Protocol := ''sctp''\<rparr>"

theorem apply_all_or_nothing_witness:
  "fst (ApplyFirewall (nft_ok []) \<lparr>fw_Rules = [ssh_rule]\<rparr>) = None \<and>
   snd (ApplyFirewall (nft_ok []) \<lparr>fw_Rules = [ssh_rule]\<rparr>) = table_ops [] [(''input'', rule_exprs ssh_rule)] \<and>
   fst (ApplyFirewall (nft_ok []) \<lparr>fw_Rules = [ssh_rule, bad_rule]\<rparr>) \<noteq> None \<and>
   snd (ApplyFirewall (nft_ok []) \<lparr>fw_Rules = [ssh_rule, bad_rule]\<rparr>) = []"
proof -
  have "Firewall_Validate \<lparr>fw_Rules = [ssh_rule]\<rparr> = None"
    by (simp add: Firewall_Validate_None_iff rule_ok_ssh)
  moreover have "nv_open (nft_ok []) = None" "nv_tables (nft_ok []) = Inr []" "\<And>ops. nv_flush (nft_ok []) ops = None"
    by (simp_all add: nft_ok_def)
  moreover have "chain_entries \<lparr>fw_Rules = [ssh_rule]\<rparr> = [(''input'', rule_exprs ssh_rule)]"
    by (simp add: chain_entries_def) (simp add: ssh_rule_def)
  ultimately have "fst (ApplyFirewall (nft_ok []) \<lparr>fw_Rules = [ssh_rule]\<rparr>) = None \<and>
   snd (ApplyFirewall (nft_ok []) \<lparr>fw_Rules = [ssh_rule]\<rparr>) = table_ops [] [(''input'', rule_exprs ssh_rule)]"
    using apply_all_or_nothing [of "nft_ok []" "\<lparr>fw_Rules = [ssh_rule]\<rparr>"] by auto
  moreover have "\<nexists>es. buildRuleExprs bad_rule = Inr es"
    by (auto simp: buildRuleExprs_def protocol_exprs_def bad_rule_def ssh_rule_def split: sum.splits)
  then have "\<not> (\<forall>r \<in> set (fw_Rules \<lparr>fw_Rules = [ssh_rule, bad_rule]\<rparr>). \<exists>es. buildRuleExprs r = Inr es)" by simp
  with apply_all_or_nothing [of "nft_ok []" "\<lparr>fw_Rules = [ssh_rule, bad_rule]\<rparr>"]
  have "fst (ApplyFirewall (nft_ok []) \<lparr>fw_Rules = [ssh_rule, bad_rule]\<rparr>) \<noteq> None \<and>
   snd (ApplyFirewall (nft_ok []) \<lparr>fw_Rules = [ssh_rule, bad_rule]\<rparr>) = []" by metis
  ultimately show ?thesis by blast
qed

subsection \<open>What the filter lets through\<close>

text \<open>
  C1. The translation of a rule is faithful to its meaning: on every packet, run by any machine that
  keeps the documented behaviour of nftables, the expressions built from a valid rule accept the
  packet when its peer (the source for ingress, the destination for egress) lies in the prefix, its
  protocol is the rule's and its destination port is in the range, and pass it on otherwise; the rule
  must not name a prefix of IPv4-mapped IPv6 addresses.
\<close>

theorem buildRuleExprs_refines:
  assumes "nft_vm exec" "FirewallRule_Validate r = None" "\<not> mapped_prefix (fr_RemoteCIDR r)" "flow_ok f"
  shows "\<exists>es. buildRuleExprs r = Inr es \<and>
    (\<forall>R. run_rule exec (wire f) R es = (if rule_matches r f then Some VerdictAccept else None))"
proof -
  have ok: "rule_ok r" using assms(2) FirewallRule_Validate_None_iff by blast
  from rule_ok_build [OF this] obtain es where "buildRuleExprs r = Inr es" by blast
  with nft_vm.rule_accepts [OF assms(1,4) ok assms(3)] show ?thesis by blast
qed

definition ssh_flow :: flow where
  "ssh_flow = \<lparr>fl_v6 = False, fl_hdr = replicate 12 0, fl_src = [10, 1, 2, 3], fl_dst = [10, 9, 9, 9],
     fl_l4 = 6, fl_th = [200, 0, 0, 22, 0], fl_iif = ''eth0'', fl_ct = 8\<rparr>"

lemma ssh_flow_facts: "flow_ok ssh_flow" "rule_matches ssh_rule ssh_flow" "\<not> established ssh_flow"
  "fl_iif ssh_flow \<noteq> ''lo''" "\<not> mapped_prefix (fr_RemoteCIDR ssh_rule)"
  by (simp_all add: flow_ok_def ssh_flow_def proto_defs rule_matches_def ssh_rule_def ssh_prefix peer_def
      same_prefix_def address_bits_def byte_bits_def protocol_number_def dport_def established_def bit_simps
      mapped_prefix_def)

theorem buildRuleExprs_refines_witness:
  "\<exists>es. buildRuleExprs ssh_rule = Inr es \<and>
    run_rule nft_exec (wire ssh_flow) (\<lambda>_. []) es = Some VerdictAccept"
proof -
  have "FirewallRule_Validate ssh_rule = None" using rule_ok_ssh FirewallRule_Validate_None_iff by blast
  from buildRuleExprs_refines [OF nft_ref.nft_vm_axioms this ssh_flow_facts(5,1)] ssh_flow_facts(2)
  show ?thesis by auto
qed

context nft_vm begin

lemma tail_drops: "run_rule exec p R tail_rule = Some VerdictDrop"
  by (simp add: tail_rule_def exec_counter exec_verdict)

lemma rules_accept:
  assumes "flow_ok f" "list_all rule_ok (fw_Rules fw)"
    "list_all (\<lambda>r. \<not> mapped_prefix (fr_RemoteCIDR r)) (fw_Rules fw)"
  shows "run_chain exec (wire f) policy (map rule_exprs (rules_for dir fw)) =
    (if \<exists>r \<in> set (rules_for dir fw). rule_matches r f then VerdictAccept else policy)"
proof -
  have "run_rule exec (wire f) (\<lambda>_. []) (rule_exprs r) = (if rule_matches r f then Some VerdictAccept else None)"
    if "r \<in> set (rules_for dir fw)" for r
  proof -
    from that assms have r: "rule_ok r" "\<not> mapped_prefix (fr_RemoteCIDR r)"
      by (auto simp: rules_for_def list_all_iff)
    from rule_ok_build [OF r(1)] obtain es where es: "buildRuleExprs r = Inr es" by blast
    from rule_accepts [OF assms(1) r es] es show ?thesis by (simp add: rule_exprs_def)
  qed
  then show ?thesis by (rule run_chain_map)
qed

end

text \<open>
  C2. The firewall as a whole: with the table of a valid ruleset in place, none of whose peers is an
  IPv4-mapped IPv6 prefix, a packet comes in exactly
  when its connection is established or related, or it arrives on the loopback interface, or an
  ingress rule matches it, and is dropped otherwise; every packet goes out, whatever the egress rules
  say.
\<close>

theorem firewall_policy:
  assumes "nft_vm exec" "Firewall_Validate fw = None" "flow_ok f"
    and "list_all (\<lambda>r. \<not> mapped_prefix (fr_RemoteCIDR r)) (fw_Rules fw)"
    and "desired_chains fw = [ci, co]"
  shows "run_chain exec (wire f) (ch_Policy ci) (ch_Rules ci) =
      (if established f \<or> fl_iif f = ''lo'' \<or> (\<exists>r \<in> set (rules_for ''ingress'' fw). rule_matches r f)
       then VerdictAccept else VerdictDrop) \<and>
    run_chain exec (wire f) (ch_Policy co) (ch_Rules co) = VerdictAccept"
proof -
  have ok: "list_all rule_ok (fw_Rules fw)" using assms(2) Firewall_Validate_None_iff by blast
  note rules = nft_vm.rules_accept [OF assms(1,3) ok assms(4)]
  have ci: "ch_Policy ci = VerdictDrop" "ch_Rules ci = [ctEstablishedAccept, iifAccept ''lo''] @
      map rule_exprs (rules_for ''ingress'' fw) @ [tail_rule]"
    and co: "ch_Policy co = VerdictAccept" "ch_Rules co = map rule_exprs (rules_for ''egress'' fw)"
    using assms(5) by (auto simp: desired_chains_def)
  show ?thesis
    unfolding ci co
    by (simp add: nft_vm.run_chain_append [OF assms(1)] rules nft_vm.established_accepts [OF assms(1)]
        nft_vm.loopback_accepts [OF assms(1,3)] nft_vm.tail_drops [OF assms(1)])
qed

theorem firewall_policy_witness:
  "\<exists>ci co. desired_chains \<lparr>fw_Rules = [ssh_rule]\<rparr> = [ci, co] \<and>
    run_chain nft_exec (wire ssh_flow) (ch_Policy ci) (ch_Rules ci) = VerdictAccept \<and>
    run_chain nft_exec (wire (ssh_flow\<lparr>fl_src := [11, 1, 2, 3]\<rparr>)) (ch_Policy ci) (ch_Rules ci) = VerdictDrop"
proof -
  let ?fw = "\<lparr>fw_Rules = [ssh_rule]\<rparr>"
  have v: "Firewall_Validate ?fw = None" by (simp add: Firewall_Validate_None_iff rule_ok_ssh)
  have m: "list_all (\<lambda>r. \<not> mapped_prefix (fr_RemoteCIDR r)) (fw_Rules ?fw)"
    by (simp add: ssh_flow_facts)
  let ?f = "ssh_flow\<lparr>fl_src := [11, 1, 2, 3]\<rparr>"
  have f: "flow_ok ?f" "\<not> rule_matches ssh_rule ?f" "\<not> established ?f" "fl_iif ?f \<noteq> ''lo''"
    by (simp_all add: flow_ok_def ssh_flow_def proto_defs rule_matches_def ssh_rule_def ssh_prefix peer_def
      same_prefix_def address_bits_def byte_bits_def established_def bit_simps)
  have r: "rules_for ''ingress'' ?fw = [ssh_rule]" by (simp add: rules_for_def ssh_rule_def)
  obtain ci co where c: "desired_chains ?fw = [ci, co]" by (simp add: desired_chains_def)
  from firewall_policy [OF nft_ref.nft_vm_axioms v ssh_flow_facts(1) m c]
    firewall_policy [OF nft_ref.nft_vm_axioms v f(1) m c] ssh_flow_facts f(2-4) r c
  show ?thesis by auto
qed

text \<open>
  A rule for a prefix of IPv4-mapped IPv6 addresses passes validation and is installed, and matches
  no IPv6 packet: its guard asks for an IPv4 packet, of which it then loads sixteen bytes.
\<close>

theorem mapped_prefix_never_matches:
  assumes "nft_vm exec" "FirewallRule_Validate r = None" "mapped_prefix (fr_RemoteCIDR r)" "fl_v6 f"
  shows "\<exists>es. buildRuleExprs r = Inr es \<and> (\<forall>R. run_rule exec (wire f) R es = None) \<and>
    XPayload 1 NetworkHeader (if fr_Direction r = ''ingress'' then 12 else 16) 16 \<in> set es"
proof -
  have ok: "rule_ok r" using assms(2) FirewallRule_Validate_None_iff by blast
  from assms(3) obtain b z n where p: "ParsePrefix (fr_RemoteCIDR r) = Some (V6 b z, n)"
    and t: "To4 (mask_bytes b (CIDRMask n 16)) \<noteq> None"
    unfolding mapped_prefix_def
    by (cases "ParsePrefix (fr_RemoteCIDR r)"; cases "fst (the (ParsePrefix (fr_RemoteCIDR r)))"; force)
  from p have ne: "fr_RemoteCIDR r \<noteq> []" by (auto simp: ParsePrefix_def cut_last_def cut_def)
  note q = ParsePrefix_ParseCIDR [OF p, simplified]
  let ?off = "if fr_Direction r = ''ingress'' then 12 else 16 :: nat"
  have "addrOffset (mask_bytes b (CIDRMask n 16)) (fr_Direction r) = Inr (?off, NFPROTO_IPV4)"
    using t ok by (auto simp: addrOffset_def Let_def rule_ok_def)
  with q ne have cidr: "cidr_exprs r = Inr [XMeta MetaNFPROTO 1, XCmp CmpEq 1 [NFPROTO_IPV4],
      XPayload 1 NetworkHeader ?off 16, XBitwise 1 1 (CIDRMask n 16) (zeroBytes 16),
      XCmp CmpEq 1 (mask_bytes (mask_bytes b (CIDRMask n 16)) (CIDRMask n 16))]"
    by (simp add: cidr_exprs_def)
  from rule_ok_build [OF ok] obtain es where es: "buildRuleExprs r = Inr es" by blast
  with cidr obtain rest where rest: "es = [XMeta MetaNFPROTO 1, XCmp CmpEq 1 [NFPROTO_IPV4],
      XPayload 1 NetworkHeader ?off 16] @ rest"
    by (auto simp: buildRuleExprs_def split: sum.splits)
  have g: "nft_vm.gate exec (pk_nfproto (wire f) = NFPROTO_IPV4) (wire f)
      [XMeta MetaNFPROTO 1, XCmp CmpEq 1 [NFPROTO_IPV4]]"
    by (rule nft_vm.gate_byte(2) [OF assms(1)])
  moreover have "pk_nfproto (wire f) \<noteq> NFPROTO_IPV4" using assms(4) by (simp add: wire_def proto_defs)
  ultimately have "nft_vm.gate exec False (wire f) [XMeta MetaNFPROTO 1, XCmp CmpEq 1 [NFPROTO_IPV4]]" by simp
  from nft_vm.gate_falseD [OF assms(1) this] have "run_rule exec (wire f) R es = None" for R
    unfolding rest by simp
  with es rest show ?thesis by auto
qed

theorem mapped_prefix_never_matches_witness:
  "\<exists>r f. fr_RemoteCIDR r = ''::ffff:10.0.0.0/104'' \<and> FirewallRule_Validate r = None \<and> fl_v6 f \<and>
    (\<exists>es. buildRuleExprs r = Inr es \<and> run_rule nft_exec (wire f) (\<lambda>_. []) es = None)"
proof -
  let ?r = "ssh_rule\<lparr>fr_RemoteCIDR := ''::ffff:10.0.0.0/104''\<rparr>" let ?f = "ssh_flow\<lparr>fl_v6 := True\<rparr>"
  note eval = is_hex_def hex_num_def hex_val_def is_digit_def digit_val_def
  have "v6_loop [255, 255] (Some 0) ''10.0.0.0'' = Some ([255, 255, 10, 0, 0, 0], Some 0, [])"
    by (subst v6_loop.simps) (simp add: eval parse_v4_def)
  note v4 = this
  have w: "(65535 :: 8 word) = 255" by (simp add: word_eq_iff_unsigned [where ?'a = nat])
  have "v6_loop [] (Some 0) ''ffff:10.0.0.0'' = Some ([255, 255, 10, 0, 0, 0], Some 0, [])"
    by (subst v6_loop.simps) (simp add: eval Let_def w v4)
  then have a: "ParseAddr ''::ffff:10.0.0.0'' = Some (V6 (replicate 10 0 @ [255, 255, 10, 0, 0, 0]) [])"
    by (simp add: ParseAddr_def parse_v6_def v6_expand_def)
  have p: "ParsePrefix ''::ffff:10.0.0.0/104'' = Some (V6 (replicate 10 0 @ [255, 255, 10, 0, 0, 0]) [], 104)"
    by (simp add: ParsePrefix_def cut_last_def cut_def a prefix_len_def parse_uint_def eval)
  have v: "FirewallRule_Validate ?r = None"
    unfolding FirewallRule_Validate_None_iff by (simp add: rule_ok_def ssh_rule_def p)
  have num: "CIDRMask n (numeral k) = (if 8 \<le> n then 255 # CIDRMask (n - 8) (pred_numeral k)
      else NOT (drop_bit n 255) # CIDRMask 0 (pred_numeral k))"
    "replicate (numeral k) x = x # replicate (pred_numeral k) x" for n k and x :: "8 word"
    by (simp_all add: numeral_eq_Suc)
  have m: "mapped_prefix (fr_RemoteCIDR ?r)"
    by (simp add: mapped_prefix_def p To4_def mask_bytes_def num)
  have f: "fl_v6 ?f" "fr_RemoteCIDR ?r = ''::ffff:10.0.0.0/104''" by simp_all
  from mapped_prefix_never_matches [OF nft_ref.nft_vm_axioms v m f(1)] v f show ?thesis by blast
qed

end
