(* ===== verification/Firewall_Status.thy ===== *)
theory Firewall_Status
  imports Packet_Filter
begin

text \<open>
  Reading the firewall's state back (src/pkg/network/firewallstat_linux.go, src/pkg/pod/firewallstatus.go):
  the counters of the drop rule and the status the agent publishes.  What the client library lists is
  a parameter.
\<close>

record FirewallStatus =
  fs_Overall :: string
  fs_TableInstalled :: bool
  fs_RulesInstalled :: nat
  fs_LastError :: "goerr option"
  fs_PublishedAtUnix :: int
  fs_DropsPackets :: "64 word"
  fs_DropsBytes :: "64 word"

text \<open>The library: the tables, the chains with the name of their table (if any), the rules of a chain.\<close>

record nft_reader =
  rd_open :: "goerr option"
  rd_tables :: "string list result"
  rd_chains :: "(string option \<times> string) list result"
  rd_rules :: "string \<Rightarrow> string \<Rightarrow> expr list option list result"

fun first_verdict :: "expr list \<Rightarrow> verdict option" where
  "first_verdict [] = None"
| "first_verdict (XVerdict v # es) = Some v"
| "first_verdict (_ # es) = first_verdict es"

fun drop_counter :: "expr list \<Rightarrow> (64 word \<times> 64 word) option" where
  "drop_counter [] = None"
| "drop_counter (XCounter p b # es) =
     (if first_verdict es = Some VerdictDrop then Some (p, b) else drop_counter es)"
| "drop_counter (_ # es) = drop_counter es"

definition dropCounterFromRule :: "expr list option \<Rightarrow> (64 word \<times> 64 word) option" where
  "dropCounterFromRule r = (case r of None \<Rightarrow> None | Some es \<Rightarrow> drop_counter es)"

fun sum_drops :: "expr list option list \<Rightarrow> 64 word \<times> 64 word" where
  "sum_drops [] = (0, 0)"
| "sum_drops (r # rs) =
     (case dropCounterFromRule r of
        None \<Rightarrow> sum_drops rs
      | Some (p, b) \<Rightarrow> (p + fst (sum_drops rs), b + snd (sum_drops rs)))"

definition status :: "string \<Rightarrow> bool \<Rightarrow> nat \<Rightarrow> goerr option \<Rightarrow> 64 word \<times> 64 word \<Rightarrow> FirewallStatus" where
  "status overall inst n err d = \<lparr>fs_Overall = overall, fs_TableInstalled = inst, fs_RulesInstalled = n,
     fs_LastError = err, fs_PublishedAtUnix = 0, fs_DropsPackets = fst d, fs_DropsBytes = snd d\<rparr>"

text \<open>
  The build for other systems (firewall_other.go, firewallstat_other.go): no rule set can be applied, and the
  status is always degraded.
\<close>

definition ApplyFirewall_other :: "Firewall option \<Rightarrow> goerr option" where
  "ApplyFirewall_other fw = Some (Errorf ''firewall apply requires linux (nftables)'' [])"

definition ReadFirewallStatus_other :: FirewallStatus where
  "ReadFirewallStatus_other = status ''Degraded'' False 0 (Some (Errorf ''nftables read requires linux'' [])) (0, 0)"

text \<open>The loop over the chains of the family, with the running totals.\<close>

fun read_chains ::
    "nft_reader \<Rightarrow> (string option \<times> string) list \<Rightarrow> nat \<Rightarrow> 64 word \<times> 64 word \<Rightarrow> FirewallStatus" where
  "read_chains rd [] n d = status ''Healthy'' True n None d"
| "read_chains rd ((t, ch) # chs) n d =
     (if t \<noteq> Some firewallTableName then read_chains rd chs n d
      else (case rd_rules rd firewallTableName ch of
          Inl e \<Rightarrow> status ''Degraded'' True 0 (Some (Wrapf ''get rules in %s: %v'' [AStr ch] e)) (0, 0)
        | Inr rules \<Rightarrow>
            read_chains rd chs (n + length rules)
              (if ch \<noteq> ''input'' then d
               else (fst d + fst (sum_drops rules), snd d + snd (sum_drops rules)))))"

definition ReadFirewallStatus :: "nft_reader \<Rightarrow> FirewallStatus" where
  "ReadFirewallStatus rd =
     (case rd_open rd of
        Some e \<Rightarrow> status ''Degraded'' False 0 (Some (Wrapf ''nftables open: %v'' [] e)) (0, 0)
      | None \<Rightarrow>
          (case rd_tables rd of
             Inl e \<Rightarrow> status ''Degraded'' False 0 (Some (Wrapf ''list tables: %v'' [] e)) (0, 0)
           | Inr ts \<Rightarrow>
               if firewallTableName \<notin> set ts then status ''Healthy'' False 0 None (0, 0)
               else (case rd_chains rd of
                   Inl e \<Rightarrow> status ''Degraded'' True 0 (Some (Wrapf ''list chains: %v'' [] e)) (0, 0)
                 | Inr chs \<Rightarrow> read_chains rd chs 0 (0, 0))))"

subsection \<open>The status of an installed ruleset\<close>

lemma drop_counter_append: "list_all (\<lambda>e. \<forall>p b. e \<noteq> XCounter p b) es \<Longrightarrow> drop_counter (es @ fs) = drop_counter fs"
  by (induction es rule: drop_counter.induct) auto

lemma buildRuleExprs_no_counter:
  "buildRuleExprs r = Inr es \<Longrightarrow> list_all (\<lambda>e. \<forall>p b. e \<noteq> XCounter p b) es"
  by (auto simp: buildRuleExprs_def cidr_exprs_def protocol_exprs_def port_exprs_def Let_def
      split: sum.splits option.splits if_splits)

lemma rule_exprs_no_drop: "drop_counter (rule_exprs r) = None"
proof (cases "buildRuleExprs r")
  case (Inr es)
  from buildRuleExprs_no_counter [OF Inr] drop_counter_append [of es "[]"] show ?thesis
    by (simp add: rule_exprs_def Inr)
qed (simp add: rule_exprs_def)

lemma sum_drops_none: "\<forall>r \<in> set rs. dropCounterFromRule r = None \<Longrightarrow> sum_drops (rs @ ss) = sum_drops ss"
  by (induction rs) auto

text \<open>
  Reading a kernel that holds the table of a ruleset, in which the counter of the drop rule stands at
  \<open>p\<close> packets and \<open>b\<close> bytes.  The reader takes no lock, so the rules of the two chains may be those of two
  rulesets, \<open>fi\<close> when the input chain was read and \<open>fo\<close> when the output chain was.
\<close>

definition reads_rulesets :: "nft_reader \<Rightarrow> Firewall \<Rightarrow> Firewall \<Rightarrow> 64 word \<Rightarrow> 64 word \<Rightarrow> bool" where
  "reads_rulesets rd fi fo p b \<longleftrightarrow>
     rd_open rd = None \<and> (\<exists>ts. rd_tables rd = Inr ts \<and> firewallTableName \<in> set ts) \<and>
     (\<exists>xs ys zs. rd_chains rd = Inr (xs @ [(Some firewallTableName, ''input'')] @ ys @
          [(Some firewallTableName, ''output'')] @ zs) \<and>
        list_all (\<lambda>(t, ch). t \<noteq> Some firewallTableName) (xs @ ys @ zs)) \<and>
     rd_rules rd firewallTableName ''input'' = Inr (map Some (butlast (ch_Rules (desired_chains fi ! 0)) @
        [[XCounter p b, XVerdict VerdictDrop]])) \<and>
     rd_rules rd firewallTableName ''output'' = Inr (map Some (ch_Rules (desired_chains fo ! 1)))"

definition reads_desired :: "nft_reader \<Rightarrow> Firewall \<Rightarrow> 64 word \<Rightarrow> 64 word \<Rightarrow> bool" where
  "reads_desired rd fw p b \<longleftrightarrow> reads_rulesets rd fw fw p b"

lemma read_chains_foreign: "list_all (\<lambda>(t, ch). t \<noteq> Some firewallTableName) xs \<Longrightarrow>
  read_chains rd (xs @ ys) n d = read_chains rd ys n d"
  by (induction xs) auto

lemma sum_drops_desired:
  "sum_drops (map Some (butlast (ch_Rules (desired_chains fw ! 0)) @ [[XCounter p b, XVerdict VerdictDrop]])) = (p, b)"
proof -
  let ?rs = "[ctEstablishedAccept, iifAccept ''lo''] @ map rule_exprs (rules_for ''ingress'' fw)"
  have b: "butlast (ch_Rules (desired_chains fw ! 0)) = ?rs"
    by (simp add: desired_chains_def butlast_append)
  have "\<forall>r \<in> set (map Some ?rs). dropCounterFromRule r = None"
    by (auto simp: dropCounterFromRule_def rule_exprs_no_drop ctEstablishedAccept_def iifAccept_def)
  from sum_drops_none [OF this] show ?thesis unfolding b by (simp add: dropCounterFromRule_def)
qed

lemma status_of_rulesets:
  assumes "reads_rulesets rd fi fo p b"
  shows "ReadFirewallStatus rd = status ''Healthy'' True
    (3 + length (rules_for ''ingress'' fi) + length (rules_for ''egress'' fo)) None (p, b)"
proof -
  from assms obtain ts xs ys zs where rd: "rd_open rd = None" "rd_tables rd = Inr ts"
    "firewallTableName \<in> set ts"
    "rd_chains rd = Inr (xs @ [(Some firewallTableName, ''input'')] @ ys @ [(Some firewallTableName, ''output'')] @ zs)"
    "list_all (\<lambda>(t, ch). t \<noteq> Some firewallTableName) xs"
    "list_all (\<lambda>(t, ch). t \<noteq> Some firewallTableName) ys"
    "list_all (\<lambda>(t, ch). t \<noteq> Some firewallTableName) zs"
    "rd_rules rd firewallTableName ''input'' = Inr (map Some (butlast (ch_Rules (desired_chains fi ! 0)) @
        [[XCounter p b, XVerdict VerdictDrop]]))"
    "rd_rules rd firewallTableName ''output'' = Inr (map Some (ch_Rules (desired_chains fo ! 1)))"
    unfolding reads_rulesets_def list_all_append by blast
  have n: "length (ch_Rules (desired_chains fi ! 0)) + length (ch_Rules (desired_chains fo ! 1)) =
      3 + length (rules_for ''ingress'' fi) + length (rules_for ''egress'' fo)"
    by (simp add: desired_chains_def)
  have "ch_Rules (desired_chains fi ! 0) \<noteq> []" by (simp add: desired_chains_def)
  then have l: "Suc (length (butlast (ch_Rules (desired_chains fi ! 0)))) = length (ch_Rules (desired_chains fi ! 0))"
    by simp
  have "ReadFirewallStatus rd = read_chains rd zs
      (length (ch_Rules (desired_chains fi ! 0)) + length (ch_Rules (desired_chains fo ! 1))) (p, b)"
    using rd l sum_drops_desired [of fi p b]
    by (simp add: ReadFirewallStatus_def read_chains_foreign del: length_butlast)
  then show ?thesis using read_chains_foreign [OF rd(7), of rd "[]"] n by simp
qed

lemma rules_of_valid:
  assumes "list_all rule_ok rs"
  shows "length (filter (\<lambda>r. fr_Direction r = ''ingress'') rs) + length (filter (\<lambda>r. fr_Direction r = ''egress'') rs) = length rs"
  using assms by (induction rs) (auto simp: rule_ok_def)

text \<open>
  The status read after a ruleset was installed: healthy, with three rules more than the ruleset
  has (established, loopback, drop), and exactly the packets and bytes the drop rule counted; tables
  of others and the accept rules count for nothing.
\<close>

theorem ReadFirewallStatus_installed:
  assumes "reads_desired rd fw p b" "Firewall_Validate fw = None"
  shows "ReadFirewallStatus rd = \<lparr>fs_Overall = ''Healthy'', fs_TableInstalled = True,
    fs_RulesInstalled = 3 + length (fw_Rules fw), fs_LastError = None, fs_PublishedAtUnix = 0,
    fs_DropsPackets = p, fs_DropsBytes = b\<rparr>"
  using status_of_rulesets [of rd fw fw p b] assms rules_of_valid [of "fw_Rules fw"]
  by (simp add: reads_desired_def rules_for_def Firewall_Validate_None_iff status_def)

theorem ReadFirewallStatus_installed_witness:
  "fs_DropsPackets (ReadFirewallStatus \<lparr>rd_open = None, rd_tables = Inr [firewallTableName],
     rd_chains = Inr [(Some firewallTableName, ''input''), (Some ''other'', ''input''), (Some firewallTableName, ''output'')],
     rd_rules = (\<lambda>t ch. if ch = ''input'' then Inr [Some ctEstablishedAccept, Some (iifAccept ''lo''),
       Some [XCounter 7 420, XVerdict VerdictDrop]] else Inr [])\<rparr>) = 7"
proof -
  let ?rd = "\<lparr>rd_open = None, rd_tables = Inr [firewallTableName],
     rd_chains = Inr [(Some firewallTableName, ''input''), (Some ''other'', ''input''), (Some firewallTableName, ''output'')],
     rd_rules = (\<lambda>t ch. if ch = ''input'' then Inr [Some ctEstablishedAccept, Some (iifAccept ''lo''),
       Some [XCounter 7 420, XVerdict VerdictDrop]] else Inr [])\<rparr>"
  let ?fw = "\<lparr>fw_Rules = []\<rparr>"
  have "(\<exists>xs ys zs. rd_chains ?rd = Inr (xs @ [(Some firewallTableName, ''input'')] @ ys @
          [(Some firewallTableName, ''output'')] @ zs) \<and>
        list_all (\<lambda>(t, ch). t \<noteq> Some firewallTableName) (xs @ ys @ zs))"
    by (rule exI [of _ "[]"], rule exI [of _ "[(Some ''other'', ''input'')]"], rule exI [of _ "[]"])
      (simp add: firewallTableName_def)
  then have "reads_desired ?rd ?fw 7 420"
    by (simp add: reads_desired_def reads_rulesets_def desired_chains_def rules_for_def)
  moreover have "Firewall_Validate ?fw = None" by (simp add: Firewall_Validate_None_iff)
  ultimately show ?thesis using ReadFirewallStatus_installed [of ?rd ?fw 7 420] by simp
qed

end
