(* ===== verification/Agent_Firewall.thy ===== *)
theory Agent_Firewall
  imports Mutex_Pool Firewall_Status
begin

text \<open>
  The firewall under concurrent use (src/pkg/network/firewall_linux.go, firewallstat_linux.go): any number of
  goroutines in \<open>ApplyFirewall\<close>, which takes \<open>firewallMu\<close>, and readers of the status, which take no lock.
  A call has three atomic steps that the kernel or other goroutines can tell apart: opening the connection,
  listing the tables and flushing the batch.
\<close>

subsection \<open>The steps of ApplyFirewall\<close>

text \<open>The client library as one call meets it: its answers may depend on the kernel at that time.\<close>

record 'k nft_client =
  nc_open :: "goerr option"
  nc_list :: "'k \<Rightarrow> string list result"
  nc_flush :: "'k \<Rightarrow> nft_op list \<Rightarrow> goerr option"

datatype fw_pc = FwOpen | FwList | FwFlush "string list"

definition apply_body ::
    "(nft_op \<Rightarrow> 'k \<Rightarrow> 'k) \<Rightarrow> (nat \<Rightarrow> 'k nft_client) \<Rightarrow> (nat \<Rightarrow> Firewall) \<Rightarrow> nat \<Rightarrow> fw_pc \<Rightarrow> 'k \<Rightarrow>
     (fw_pc + goerr option) \<times> 'k" where
  "apply_body commit1 lib fw i pc k =
     (case pc of
        FwOpen \<Rightarrow>
          (case nc_open (lib i) of
             Some e \<Rightarrow> (Inr (Some (Wrapf ''nftables: %w'' [] e)), k)
           | None \<Rightarrow> (Inl FwList, k))
      | FwList \<Rightarrow>
          (case nc_list (lib i) k of
             Inl e \<Rightarrow> (Inr (Some (Wrapf ''list tables: %w'' [] e)), k)
           | Inr existing \<Rightarrow> (Inl (FwFlush existing), k))
      | FwFlush existing \<Rightarrow>
          (case rule_ops (fw_Rules (fw i)) of
             Inl e \<Rightarrow> (Inr (Some e), k)
           | Inr rs \<Rightarrow>
               (case nc_flush (lib i) k (table_ops existing rs) of
                  Some e \<Rightarrow> (Inr (Some (Wrapf ''nftables flush: %w'' [] e)), k)
                | None \<Rightarrow> (Inr None, commit commit1 (table_ops existing rs) k))))"

definition fw_start :: "nat \<Rightarrow> fw_pc" where
  "fw_start i = FwOpen"

text \<open>The whole call, by the sequential definition, and what is left of it after a step.\<close>

definition env_at :: "'k nft_client \<Rightarrow> 'k \<Rightarrow> nft_env" where
  "env_at c k = \<lparr>nv_open = nc_open c, nv_tables = nc_list c k, nv_flush = nc_flush c k\<rparr>"

text \<open>The kernel takes a batch as a whole or, when it answers with an error, not at all.\<close>

definition committed :: "(nft_op \<Rightarrow> 'k \<Rightarrow> 'k) \<Rightarrow> 'k \<Rightarrow> goerr option \<times> nft_op list \<Rightarrow> goerr option \<times> 'k" where
  "committed commit1 k r = (fst r, if fst r = None then commit commit1 (snd r) k else k)"

definition fw_call ::
    "(nft_op \<Rightarrow> 'k \<Rightarrow> 'k) \<Rightarrow> (nat \<Rightarrow> 'k nft_client) \<Rightarrow> (nat \<Rightarrow> Firewall) \<Rightarrow> nat \<Rightarrow> 'k \<Rightarrow> goerr option \<times> 'k" where
  "fw_call commit1 lib fw i k = committed commit1 k (ApplyFirewall (env_at (lib i) k) (fw i))"

fun fw_rest ::
    "(nft_op \<Rightarrow> 'k \<Rightarrow> 'k) \<Rightarrow> (nat \<Rightarrow> 'k nft_client) \<Rightarrow> (nat \<Rightarrow> Firewall) \<Rightarrow> nat \<Rightarrow> fw_pc \<Rightarrow> 'k \<Rightarrow> goerr option \<times> 'k" where
  "fw_rest commit1 lib fw i FwOpen k = fw_call commit1 lib fw i k"
| "fw_rest commit1 lib fw i FwList k =
     committed commit1 k (ApplyFirewall ((env_at (lib i) k)\<lparr>nv_open := None\<rparr>) (fw i))"
| "fw_rest commit1 lib fw i (FwFlush existing) k =
     committed commit1 k (ApplyFirewall ((env_at (lib i) k)\<lparr>nv_open := None, nv_tables := Inr existing\<rparr>) (fw i))"

fun fw_rank :: "nat \<Rightarrow> fw_pc \<Rightarrow> 'k \<Rightarrow> nat" where
  "fw_rank i FwOpen k = 2"
| "fw_rank i FwList k = 1"
| "fw_rank i (FwFlush existing) k = 0"

lemma commit_none [simp]: "commit commit1 [] k = k"
  by (simp add: commit_def)

lemmas fw_defs = apply_body_def fw_start_def fw_call_def env_at_def committed_def ApplyFirewall_def Let_def

text \<open>The steps add up to the sequential definition, and only the last one touches the kernel.\<close>

interpretation fw_mutex: atomic_section fw_start "apply_body commit1 lib fw" "fw_rest commit1 lib fw"
    "fw_call commit1 lib fw" fw_rank
  for commit1 :: "nft_op \<Rightarrow> 'k \<Rightarrow> 'k" and lib fw
proof
  fix i l l' s s' r
  show "fw_rest commit1 lib fw i (fw_start i) s = fw_call commit1 lib fw i s" by (simp add: fw_start_def)
  show "apply_body commit1 lib fw i l s = (Inl l', s') \<Longrightarrow> fw_rest commit1 lib fw i l' s' = fw_rest commit1 lib fw i l s"
    by (cases l) (auto simp: fw_defs split: option.splits sum.splits)
  show "apply_body commit1 lib fw i l s = (Inr r, s') \<Longrightarrow> fw_rest commit1 lib fw i l s = (r, s')"
    by (cases l) (auto simp: fw_defs split: option.splits sum.splits)
  show "apply_body commit1 lib fw i l s = (Inl l', s') \<Longrightarrow> fw_rank i l' s' < fw_rank i l s"
    by (cases l) (auto simp: fw_defs split: option.splits sum.splits)
  show "apply_body commit1 lib fw i l s = (Inl l', s') \<Longrightarrow> s' = s"
    by (cases l) (auto simp: fw_defs split: option.splits sum.splits)
qed

subsection \<open>Concurrent applies\<close>

text \<open>Listing the tables of the family does not leave out the one the firewall owns.\<close>

definition lists_own_table :: "('k \<Rightarrow> string \<Rightarrow> nft_chain list option) \<Rightarrow> 'k nft_client \<Rightarrow> bool" where
  "lists_own_table tables c \<longleftrightarrow> (\<forall>k ts. nc_list c k = Inr ts \<and> tables k firewallTableName \<noteq> None \<longrightarrow> firewallTableName \<in> set ts)"

lemma fw_call_effect:
  assumes "nft_tables tables commit1" "lists_own_table tables (lib i)" "fw_call commit1 lib fw i k = (e, k')"
  shows "tables k' = (if e = None then (tables k)(firewallTableName := Some (desired_chains (fw i))) else tables k)"
proof (cases "fst (ApplyFirewall (env_at (lib i) k) (fw i))")
  case (Some e')
  with assms(3) have "k' = k" "e \<noteq> None"
    by (auto simp: fw_defs split: option.splits sum.splits)
  then show ?thesis by auto
next
  case None
  then obtain ops where ops: "ApplyFirewall (env_at (lib i) k) (fw i) = (None, ops)" by (metis surjective_pairing)
  then obtain ts where ts: "nc_list (lib i) k = Inr ts"
    by (auto simp: ApplyFirewall_def env_at_def split: option.splits sum.splits)
  then have nv: "nv_tables (env_at (lib i) k) = Inr ts" by (simp add: env_at_def)
  from ApplyFirewall_ok [OF ops nv] obtain rs where rs: "rule_ops (fw_Rules (fw i)) = Inr rs" "ops = table_ops ts rs"
    by blast
  from assms(2) ts have "firewallTableName \<in> set ts \<or> tables k firewallTableName = None"
    unfolding lists_own_table_def by blast
  from nft_tables.commit_table [OF assms(1) this refl rs(1)] ops assms(3) rs(2) show ?thesis
    by (simp add: fw_call_def committed_def)
qed

text \<open>The last call, in the order of the mutex, that has applied its ruleset.\<close>

definition last_applied :: "('l, goerr option, 'k) pool \<Rightarrow> nat option" where
  "last_applied p = find (\<lambda>i. outcomes p i = Some None) (rev (pl_order p))"

lemma find_filter: "(\<And>x. P x \<Longrightarrow> Q x) \<Longrightarrow> find P (filter Q xs) = find P xs"
  by (induction xs) auto

lemma last_applied_concluded: "last_applied p = find (\<lambda>i. outcomes p i = Some None) (rev (concluded p))"
  unfolding last_applied_def concluded_def rev_filter by (rule find_filter [symmetric]) simp

lemma find_cong: "(\<And>x. x \<in> set xs \<Longrightarrow> P x = Q x) \<Longrightarrow> find P xs = find Q xs"
  by (induction xs) auto

lemma serial_tables:
  assumes "nft_tables tables commit1" "\<And>i. lists_own_table tables (lib i)"
  shows "distinct is \<Longrightarrow> serial (fw_call commit1 lib fw) is k0 = (rs, k) \<Longrightarrow>
    tables k = (case find (\<lambda>i. rs i = Some None) (rev is) of
      None \<Rightarrow> tables k0 | Some i \<Rightarrow> (tables k0)(firewallTableName := Some (desired_chains (fw i))))"
proof (induction "is" arbitrary: rs k rule: rev_induct)
  case (snoc i "is")
  obtain rs1 k1 where s: "serial (fw_call commit1 lib fw) is k0 = (rs1, k1)" by fastforce
  obtain e where c: "fw_call commit1 lib fw i k1 = (e, k)" and rs: "rs = rs1(i := Some e)"
    using snoc.prems(2) s by (auto simp: serial_snoc split: prod.splits)
  from snoc.prems(1) have "find (\<lambda>j. rs j = Some None) (rev is) = find (\<lambda>j. rs1 j = Some None) (rev is)"
    unfolding rs by (intro find_cong) auto
  with snoc.IH [OF _ s] snoc.prems(1) fw_call_effect [OF assms c] show ?case
    by (cases e) (auto simp: rs split: option.splits)
qed simp

lemma tables_in_force:
  assumes "nft_tables tables commit1" "\<And>i. lists_own_table tables (lib i)"
    and "p = pool_run fw_start (apply_body commit1 lib fw) sched (pool_init k0)"
  shows "tables (pl_shared p) = (case last_applied p of
    None \<Rightarrow> tables k0 | Some i \<Rightarrow> (tables k0)(firewallTableName := Some (desired_chains (fw i))))"
proof -
  have "distinct (concluded p)"
    unfolding assms(3) concluded_def by (intro distinct_filter fw_mutex.run_distinct)
  moreover have "serial (fw_call commit1 lib fw) (concluded p) k0 = (outcomes p, pl_shared p)"
    unfolding assms(3) by (rule fw_mutex.serial_always)
  ultimately show ?thesis
    unfolding last_applied_concluded by (rule serial_tables [where lib = lib, OF assms(1,2)])
qed

text \<open>
  C8. Concurrent applies of any number of rulesets, in any interleaving and at every moment: at most one
  call is between \<open>Lock\<close> and \<open>Unlock\<close>, and the table \<open>weft-fw\<close> is as it was at the start or exactly the one
  of a single ruleset, that of the last call in the order of the mutex that has succeeded; no rules are
  mixed, and other tables are untouched.  Under a fair scheduler every call returns.
\<close>

theorem concurrent_applies:
  assumes "nft_tables tables commit1" "\<And>i. lists_own_table tables (lib i)"
    and "p = pool_run fw_start (apply_body commit1 lib fw) sched (pool_init k0)"
  shows "tables (pl_shared p) = (case last_applied p of
      None \<Rightarrow> tables k0 | Some i \<Rightarrow> (tables k0)(firewallTableName := Some (desired_chains (fw i)))) \<and>
    (\<forall>i j. critical (pl_phase p i) \<and> critical (pl_phase p j) \<longrightarrow> i = j) \<and>
    (\<forall>n \<sigma>. fair_for n \<sigma> \<longrightarrow> (\<exists>m. \<forall>i < n. \<exists>e.
       pl_phase (pool_run fw_start (apply_body commit1 lib fw) (map \<sigma> [0..<m]) (pool_init k0)) i = Ended e))"
proof (intro conjI allI impI)
  show "tables (pl_shared p) = (case last_applied p of
      None \<Rightarrow> tables k0 | Some i \<Rightarrow> (tables k0)(firewallTableName := Some (desired_chains (fw i))))"
    by (rule tables_in_force [where lib = lib, OF assms(1,2,3)])
  show "i = j" if "critical (pl_phase p i) \<and> critical (pl_phase p j)" for i j
    using that unfolding assms(3) by (elim conjE) (rule fw_mutex.mutual_exclusion)
qed (rule fw_mutex.every_call_returns)

text \<open>A client whose calls all succeed, for the witnesses.\<close>

definition client_ok :: "(string \<Rightarrow> nft_chain list option) nft_client" where
  "client_ok = \<lparr>nc_open = None,
     nc_list = (\<lambda>k. Inr (if k firewallTableName = None then [] else [firewallTableName])), nc_flush = (\<lambda>_ _. None)\<rparr>"

lemma client_ok_lists: "lists_own_table (\<lambda>k. k) client_ok"
  by (simp add: lists_own_table_def client_ok_def)

definition two_firewalls :: "nat \<Rightarrow> Firewall" where
  "two_firewalls i = \<lparr>fw_Rules = [if i = 0 then ssh_rule else ssh_rule\<lparr>fr_Direction := ''egress''\<rparr>]\<rparr>"

lemma two_rule_ops: "rule_ops (fw_Rules (two_firewalls 0)) = Inr [(''input'', rule_exprs ssh_rule)]"
  "rule_ops (fw_Rules (two_firewalls 1)) = Inr [(''output'', rule_exprs (ssh_rule\<lparr>fr_Direction := ''egress''\<rparr>))]"
proof -
  have "rule_ok (ssh_rule\<lparr>fr_Direction := ''egress''\<rparr>)" using rule_ok_ssh by (simp add: rule_ok_def)
  from rule_ok_build [OF rule_ok_ssh] rule_ok_build [OF this] show
    "rule_ops (fw_Rules (two_firewalls 0)) = Inr [(''input'', rule_exprs ssh_rule)]"
    "rule_ops (fw_Rules (two_firewalls 1)) = Inr [(''output'', rule_exprs (ssh_rule\<lparr>fr_Direction := ''egress''\<rparr>))]"
    by (auto simp: two_firewalls_def rule_exprs_def) (simp_all add: ssh_rule_def)
qed

abbreviation two_calls :: "nat list \<Rightarrow> (fw_pc, goerr option, string \<Rightarrow> nft_chain list option) pool" where
  "two_calls sched \<equiv> pool_run fw_start (apply_body ref_commit1 (\<lambda>_. client_ok) two_firewalls) sched (pool_init Map.empty)"

lemma two_calls_first: "last_applied (two_calls [0, 1, 0, 1, 0, 0]) = Some 0"
  by (simp add: last_applied_def outcomes_def pool_step_def pool_init_def fw_start_def apply_body_def client_ok_def two_rule_ops
      two_rule_ops(2) [unfolded One_nat_def])

theorem concurrent_applies_witness:
  "pl_shared (two_calls [0, 1, 0, 1, 0, 0]) = [firewallTableName \<mapsto> desired_chains (two_firewalls 0)]"
  using concurrent_applies [of "\<lambda>k. k" ref_commit1 "\<lambda>_. client_ok", OF nft_ref_tables.nft_tables_axioms client_ok_lists refl,
      THEN conjunct1, of two_firewalls "[0, 1, 0, 1, 0, 0]" Map.empty]
  by (simp only: two_calls_first option.simps)

text \<open>
  What the mutex is for: two calls that both list the tables before either flushes its batch, which
  \<open>firewallMu\<close> rules out, leave rules of both in one chain, so that a port the last ruleset does not open
  stays open.
\<close>

lemma flush_step: "rule_ops (fw_Rules (fw i)) = Inr rs \<Longrightarrow>
  apply_body ref_commit1 (\<lambda>_. client_ok) fw i (FwFlush ts) k = (Inr None, commit ref_commit1 (table_ops ts rs) k)"
  by (simp add: apply_body_def client_ok_def)

theorem unlocked_applies_mix:
  "\<exists>pc k1 k2 ci co.
     apply_body ref_commit1 (\<lambda>_. client_ok) two_firewalls 0 FwList Map.empty = (Inl pc, Map.empty) \<and>
     apply_body ref_commit1 (\<lambda>_. client_ok) two_firewalls 1 FwList Map.empty = (Inl pc, Map.empty) \<and>
     apply_body ref_commit1 (\<lambda>_. client_ok) two_firewalls 0 pc Map.empty = (Inr None, k1) \<and>
     apply_body ref_commit1 (\<lambda>_. client_ok) two_firewalls 1 pc k1 = (Inr None, k2) \<and>
     k2 firewallTableName = Some [ci, co] \<and> rule_exprs ssh_rule \<in> set (ch_Rules ci) \<and>
     rules_for ''ingress'' (two_firewalls 1) = []"
proof -
  let ?k1 = "commit ref_commit1 (table_ops [] [(''input'', rule_exprs ssh_rule)]) Map.empty"
  let ?out = "(''output'', rule_exprs (ssh_rule\<lparr>fr_Direction := ''egress''\<rparr>))"
  let ?k2 = "commit ref_commit1 (table_ops [] [?out]) ?k1"
  have l: "apply_body ref_commit1 (\<lambda>_. client_ok) two_firewalls i FwList Map.empty = (Inl (FwFlush []), Map.empty)" for i
    by (simp add: apply_body_def client_ok_def)
  have "\<exists>ci co. ?k2 firewallTableName = Some [ci, co] \<and> rule_exprs ssh_rule \<in> set (ch_Rules ci)"
    by (simp add: table_ops_def commit_def add_rule_to_def)
  then obtain ci co where c: "?k2 firewallTableName = Some [ci, co]" "rule_exprs ssh_rule \<in> set (ch_Rules ci)"
    by blast
  have "rules_for ''ingress'' (two_firewalls 1) = []" by (simp add: rules_for_def two_firewalls_def)
  with l c flush_step [where fw = two_firewalls and i = 0, OF two_rule_ops(1)]
    flush_step [where fw = two_firewalls and i = 1, OF two_rule_ops(2)] show ?thesis by blast
qed

subsection \<open>The status read meanwhile\<close>

text \<open>The rules of a chain as the kernel holds them.\<close>

definition chain_rules :: "nft_chain list option \<Rightarrow> string \<Rightarrow> expr list list" where
  "chain_rules t n = (case t of None \<Rightarrow> [] | Some cs \<Rightarrow> concat (map ch_Rules (filter (\<lambda>ch. ch_Name ch = n) cs)))"

text \<open>
  A reader whose queries for the rules reach the kernel when its tables are \<open>ki\<close> for the input chain and \<open>ko\<close>
  for the output chain; the counter of the last input rule stands at \<open>p\<close> packets and \<open>b\<close> bytes.
\<close>

definition reads_at ::
    "nft_reader \<Rightarrow> (string \<Rightarrow> nft_chain list option) \<Rightarrow> (string \<Rightarrow> nft_chain list option) \<Rightarrow> 64 word \<Rightarrow> 64 word \<Rightarrow> bool" where
  "reads_at rd ki ko p b \<longleftrightarrow>
     rd_open rd = None \<and> (\<exists>ts. rd_tables rd = Inr ts \<and> firewallTableName \<in> set ts) \<and>
     (\<exists>xs ys zs. rd_chains rd = Inr (xs @ [(Some firewallTableName, ''input'')] @ ys @
          [(Some firewallTableName, ''output'')] @ zs) \<and>
        list_all (\<lambda>(t, ch). t \<noteq> Some firewallTableName) (xs @ ys @ zs)) \<and>
     rd_rules rd firewallTableName ''input'' = Inr (map Some
        (butlast (chain_rules (ki firewallTableName) ''input'') @ [[XCounter p b, XVerdict VerdictDrop]])) \<and>
     rd_rules rd firewallTableName ''output'' = Inr (map Some (chain_rules (ko firewallTableName) ''output''))"

lemma chain_rules_desired:
  "chain_rules (Some (desired_chains fw)) ''input'' = ch_Rules (desired_chains fw ! 0)"
  "chain_rules (Some (desired_chains fw)) ''output'' = ch_Rules (desired_chains fw ! 1)"
  by (simp_all add: chain_rules_def desired_chains_def)

text \<open>
  C35. The status is read without \<open>firewallMu\<close>.  Whatever interleaving of applies it falls into, the counters of
  dropped packets and bytes are those of the drop rule that was in force when the input chain was read;
  but the number of rules counts the ingress rules of the ruleset in force at that time and the egress rules
  of the one in force when the output chain was read, so that it need not be the number of any ruleset.
\<close>

theorem status_under_applies:
  assumes "nft_tables tables commit1" "\<And>i. lists_own_table tables (lib i)"
    and "pi = pool_run fw_start (apply_body commit1 lib fw) si (pool_init k0)"
    and "po = pool_run fw_start (apply_body commit1 lib fw) so (pool_init k0)"
    and "last_applied pi = Some i" "last_applied po = Some j"
    and "reads_at rd (tables (pl_shared pi)) (tables (pl_shared po)) p b"
  shows "ReadFirewallStatus rd = \<lparr>fs_Overall = ''Healthy'', fs_TableInstalled = True,
    fs_RulesInstalled = 3 + length (rules_for ''ingress'' (fw i)) + length (rules_for ''egress'' (fw j)),
    fs_LastError = None, fs_PublishedAtUnix = 0, fs_DropsPackets = p, fs_DropsBytes = b\<rparr>"
proof -
  have "tables (pl_shared pi) firewallTableName = Some (desired_chains (fw i))"
    using tables_in_force [where lib = lib, OF assms(1,2,3)] assms(5) by simp
  moreover have "tables (pl_shared po) firewallTableName = Some (desired_chains (fw j))"
    using tables_in_force [where lib = lib, OF assms(1,2,4)] assms(6) by simp
  ultimately have "reads_rulesets rd (fw i) (fw j) p b"
    using assms(7) by (simp add: reads_at_def reads_rulesets_def chain_rules_desired)
  from status_of_rulesets [OF this] show ?thesis by (simp add: status_def)
qed

text \<open>Rulesets of one rule each, and a status of five rules, where each of them would make four.\<close>

lemma two_calls_second: "last_applied (two_calls [0, 0, 0, 0, 0, 1, 1, 1, 1]) = Some 1"
  by (simp add: last_applied_def outcomes_def pool_step_def pool_init_def fw_start_def apply_body_def client_ok_def two_rule_ops
      two_rule_ops(2) [unfolded One_nat_def])

theorem status_under_applies_witness:
  "fs_RulesInstalled (ReadFirewallStatus \<lparr>rd_open = None, rd_tables = Inr [firewallTableName],
     rd_chains = Inr [(Some firewallTableName, ''input''), (Some firewallTableName, ''output'')],
     rd_rules = (\<lambda>t ch. if ch = ''input''
       then Inr (map Some (butlast (chain_rules (pl_shared (two_calls [0, 1, 0, 1, 0, 0]) firewallTableName) ''input'') @
         [[XCounter 7 420, XVerdict VerdictDrop]]))
       else Inr (map Some (chain_rules (pl_shared (two_calls [0, 0, 0, 0, 0, 1, 1, 1, 1]) firewallTableName) ''output'')))\<rparr>) = 5 \<and>
   length (fw_Rules (two_firewalls 0)) = 1 \<and> length (fw_Rules (two_firewalls 1)) = 1"
proof -
  define rd where "rd = \<lparr>rd_open = None, rd_tables = Inr [firewallTableName],
     rd_chains = Inr [(Some firewallTableName, ''input''), (Some firewallTableName, ''output'')],
     rd_rules = (\<lambda>t ch. if ch = ''input''
       then Inr (map Some (butlast (chain_rules (pl_shared (two_calls [0, 1, 0, 1, 0, 0]) firewallTableName) ''input'') @
         [[XCounter 7 420, XVerdict VerdictDrop]]))
       else Inr (map Some (chain_rules (pl_shared (two_calls [0, 0, 0, 0, 0, 1, 1, 1, 1]) firewallTableName) ''output'')))\<rparr>"
  have "\<exists>xs ys zs. rd_chains rd = Inr (xs @ [(Some firewallTableName, ''input'')] @ ys @
          [(Some firewallTableName, ''output'')] @ zs) \<and>
        list_all (\<lambda>(t, ch). t \<noteq> Some firewallTableName) (xs @ ys @ zs)"
    by (rule exI [of _ "[]"], rule exI [of _ "[]"], rule exI [of _ "[]"]) (simp add: rd_def)
  then have "reads_at rd (pl_shared (two_calls [0, 1, 0, 1, 0, 0])) (pl_shared (two_calls [0, 0, 0, 0, 0, 1, 1, 1, 1])) 7 420"
    by (simp add: reads_at_def rd_def del: pool_run_simps)
  from status_under_applies [of "\<lambda>k. k" ref_commit1 "\<lambda>_. client_ok", OF nft_ref_tables.nft_tables_axioms client_ok_lists
      refl refl two_calls_first two_calls_second this]
  have "fs_RulesInstalled (ReadFirewallStatus rd) = 5"
    by (simp add: rules_for_def two_firewalls_def ssh_rule_def)
  then show ?thesis unfolding rd_def by (simp add: two_firewalls_def)
qed

end
