(* ===== verification/Agent_Registry.thy ===== *)
theory Agent_Registry
  imports Mutex_Pool Cubefs
begin

text \<open>
  The registry of CubeFS mounts under concurrent use (src/pkg/cubefs/mount.go): goroutines of the event bus in
  \<open>Registry.Apply\<close> and the shutdown in \<open>UnmountAll\<close>, all under \<open>Registry.mu\<close>.  An \<open>Apply\<close> has two
  atomic steps, the removal of the mount with the id and the new mount; \<open>UnmountAll\<close> has one for each entry.
  The shared state is the registry with the trace of the system calls.
\<close>

datatype reg_request = ReqApply ShareMount | ReqUnmountAll

datatype reg_pc = RDetach ShareMount | RMount ShareMount | RUnmount "goerr option"

definition reg_start :: "(nat \<Rightarrow> reg_request) \<Rightarrow> nat \<Rightarrow> reg_pc" where
  "reg_start req i = (case req i of ReqApply spec \<Rightarrow> RDetach spec | ReqUnmountAll \<Rightarrow> RUnmount None)"

type_synonym reg_state = "registry \<times> trace"

definition detach_step ::
    "kernel \<Rightarrow> ShareMount \<Rightarrow> reg_state \<Rightarrow> (reg_pc + goerr option outcome) \<times> reg_state" where
  "detach_step K spec s =
     (case run_state (detach K (fst s) (sm_ID spec)) (snd s) of
        ((e, reg), tr) \<Rightarrow>
          (if e \<noteq> None then Inr (Returned e)
           else if sm_Action spec = MountActionUnmount then Inr (Returned None)
           else Inl (RMount spec), reg, tr))"

definition mount_step ::
    "kernel \<Rightarrow> (clientCfg \<Rightarrow> string result) \<Rightarrow> ShareMount \<Rightarrow> reg_state \<Rightarrow> goerr option outcome \<times> reg_state" where
  "mount_step K encode spec s =
     (case run_state (cfs_Mount K encode spec) (snd s) of
        (Returned (Inr m), tr) \<Rightarrow> (Returned None, AList.update (sm_ID spec) m (fst s), tr)
      | (Returned (Inl e), tr) \<Rightarrow> (Returned (Some e), fst s, tr)
      | (Panicked, tr) \<Rightarrow> (Panicked, fst s, tr)
      | (Waiting, tr) \<Rightarrow> (Waiting, fst s, tr))"

text \<open>One turn of the loop of \<open>UnmountAll\<close>.\<close>

definition unmount_step :: "kernel \<Rightarrow> goerr option \<Rightarrow> reg_state \<Rightarrow> (reg_pc + goerr option outcome) \<times> reg_state" where
  "unmount_step K first s =
     (case fst s of
        [] \<Rightarrow> (Inr (Returned first), s)
      | (i, m) # reg \<Rightarrow>
          (case run_state (Unmount K m) (snd s) of
             ((e, _), tr) \<Rightarrow> (Inl (RUnmount (if first = None then e else first)), reg, tr)))"

definition reg_body ::
    "kernel \<Rightarrow> (clientCfg \<Rightarrow> string result) \<Rightarrow> nat \<Rightarrow> reg_pc \<Rightarrow> reg_state \<Rightarrow> (reg_pc + goerr option outcome) \<times> reg_state" where
  "reg_body K encode i pc s =
     (case pc of
        RDetach spec \<Rightarrow> detach_step K spec s
      | RMount spec \<Rightarrow> (case mount_step K encode spec s of (r, s') \<Rightarrow> (Inr r, s'))
      | RUnmount first \<Rightarrow> unmount_step K first s)"

text \<open>The whole calls, by the sequential definitions; a call that did not return leaves what it had removed.\<close>

definition apply_call ::
    "kernel \<Rightarrow> (clientCfg \<Rightarrow> string result) \<Rightarrow> ShareMount \<Rightarrow> reg_state \<Rightarrow> goerr option outcome \<times> reg_state" where
  "apply_call K encode spec s =
     (case run_state (Registry_Apply K encode (fst s) spec) (snd s) of
        (Returned (e, reg), tr) \<Rightarrow> (Returned e, reg, tr)
      | (Panicked, tr) \<Rightarrow> (Panicked, snd (fst (run_state (detach K (fst s) (sm_ID spec)) (snd s))), tr)
      | (Waiting, tr) \<Rightarrow> (Waiting, snd (fst (run_state (detach K (fst s) (sm_ID spec)) (snd s))), tr))"

definition reg_call ::
    "kernel \<Rightarrow> (clientCfg \<Rightarrow> string result) \<Rightarrow> (nat \<Rightarrow> reg_request) \<Rightarrow> nat \<Rightarrow> reg_state \<Rightarrow> goerr option outcome \<times> reg_state" where
  "reg_call K encode req i s =
     (case req i of
        ReqApply spec \<Rightarrow> apply_call K encode spec s
      | ReqUnmountAll \<Rightarrow> (case run_state (UnmountAll K (fst s)) (snd s) of ((e, reg), tr) \<Rightarrow> (Returned e, reg, tr)))"

fun reg_rest ::
    "kernel \<Rightarrow> (clientCfg \<Rightarrow> string result) \<Rightarrow> nat \<Rightarrow> reg_pc \<Rightarrow> reg_state \<Rightarrow> goerr option outcome \<times> reg_state" where
  "reg_rest K encode i (RDetach spec) s = apply_call K encode spec s"
| "reg_rest K encode i (RMount spec) s = mount_step K encode spec s"
| "reg_rest K encode i (RUnmount first) s =
     (case run_state (unmount_all K first (fst s)) (snd s) of (e, tr) \<Rightarrow> (Returned e, [], tr))"

fun reg_rank :: "nat \<Rightarrow> reg_pc \<Rightarrow> reg_state \<Rightarrow> nat" where
  "reg_rank i (RDetach spec) s = 1"
| "reg_rank i (RMount spec) s = 0"
| "reg_rank i (RUnmount first) s = length (fst s)"

lemma detach_step_next: "detach_step K spec s = (Inl l', s') \<Longrightarrow> mount_step K encode spec s' = apply_call K encode spec s"
  by (auto simp: detach_step_def mount_step_def apply_call_def Registry_Apply_def proceed_def
      split: prod.splits if_splits outcome.splits sum.splits)

lemma detach_step_last: "detach_step K spec s = (Inr r, s') \<Longrightarrow> apply_call K encode spec s = (r, s')"
  by (auto simp: detach_step_def apply_call_def Registry_Apply_def split: prod.splits if_splits)

interpretation reg_mutex: critical_section "reg_start req" "reg_body K encode" "reg_rest K encode"
    "reg_call K encode req" reg_rank
  for K encode req
proof
  fix i l l' s s' r
  show "reg_rest K encode i (reg_start req i) s = reg_call K encode req i s"
    by (auto simp: reg_start_def reg_call_def UnmountAll_def split: reg_request.splits prod.splits)
  show "reg_body K encode i l s = (Inl l', s') \<Longrightarrow> reg_rest K encode i l' s' = reg_rest K encode i l s"
  proof (cases l)
    case (RDetach spec)
    moreover assume "reg_body K encode i l s = (Inl l', s')"
    ultimately have d: "detach_step K spec s = (Inl l', s')" by (simp add: reg_body_def)
    then have "l' = RMount spec" by (auto simp: detach_step_def split: prod.splits if_splits)
    with RDetach detach_step_next [OF d] show ?thesis by simp
  qed (auto simp: reg_body_def unmount_step_def split: list.splits prod.splits)
  show "reg_body K encode i l s = (Inr r, s') \<Longrightarrow> reg_rest K encode i l s = (r, s')"
    by (cases l, auto simp: reg_body_def unmount_step_def dest: detach_step_last split: list.splits prod.splits)
      (metis prod.collapse)
  show "reg_body K encode i l s = (Inl l', s') \<Longrightarrow> reg_rank i l' s' < reg_rank i l s"
    by (cases l) (auto simp: reg_body_def unmount_step_def detach_step_def split: list.splits prod.splits if_splits)
qed

subsection \<open>Concurrent requests\<close>

text \<open>
  The requests a caller may make: \<open>Apply\<close> is documented to be called with what \<open>ShareMount.Validate\<close>
  accepts, a mount with its CubeFS block or an unmount with an id and a mount point alone.
\<close>

definition valid_request :: "reg_request \<Rightarrow> bool" where
  "valid_request q = (case q of ReqApply spec \<Rightarrow> ShareMount_Validate spec = None | ReqUnmountAll \<Rightarrow> True)"

lemma valid_mount: "ShareMount_Validate spec = None \<Longrightarrow> sm_Action spec \<noteq> MountActionUnmount \<Longrightarrow> sm_CubeFS spec \<noteq> None"
  by (auto simp: ShareMount_Validate_iff share_mount_ok_def split: option.splits)

lemma cfs_Mount_returns:
  assumes "clock_ok K" "sm_CubeFS spec \<noteq> None"
  shows "\<exists>r tr'. run_state (cfs_Mount K encode spec) tr = (Returned r, tr')"
proof -
  obtain r tr' where r: "run_state (cfs_Mount K encode spec) tr = (r, tr')" by fastforce
  from cfs_Mount_result [OF r] assms r show ?thesis by (cases r) (auto simp: mount_result_def)
qed

lemma apply_call_returns:
  assumes "clock_ok K" "ShareMount_Validate spec = None"
  shows "\<exists>e. fst (apply_call K encode spec s) = Returned e"
proof -
  obtain e reg t where d: "run_state (detach K (fst s) (sm_ID spec)) (snd s) = ((e, reg), t)" by (rule pair3)
  show ?thesis
  proof (cases "e = None \<and> sm_Action spec \<noteq> MountActionUnmount")
    case True
    with valid_mount [OF assms(2)] obtain r u where m: "run_state (cfs_Mount K encode spec) t = (Returned r, u)"
      using cfs_Mount_returns [OF assms(1), of spec encode t] by blast
    show ?thesis by (cases e; cases r) (simp_all add: apply_call_def Registry_Apply_def proceed_def d m)
  next
    case False
    with d show ?thesis by (auto simp: apply_call_def Registry_Apply_def split: if_splits)
  qed
qed

lemma reg_call_returns: "clock_ok K \<Longrightarrow> valid_request (req i) \<Longrightarrow> \<exists>e. fst (reg_call K encode req i s) = Returned e"
  using apply_call_returns
  by (auto simp: reg_call_def valid_request_def split: reg_request.splits prod.splits)

definition reg_state_ok :: "reg_state \<Rightarrow> bool" where
  "reg_state_ok s \<longleftrightarrow> reg_inv (snd s) (fst s)"

lemma UnmountAll_empty:
  assumes "reg_inv tr reg" "run_state (UnmountAll K reg) tr = ((e, reg'), tr')"
  shows "reg' = []" "live tr' = {#}"
  using assms unmount_all_live [of tr reg K None e tr'] by (auto simp: UnmountAll_def reg_inv_def split: prod.splits)

lemma reg_call_ok:
  assumes "clock_ok K" "valid_request (req i)" "reg_state_ok s" "reg_call K encode req i s = (r, s')"
  shows "reg_state_ok s'"
proof (cases "req i")
  case (ReqApply spec)
  from reg_call_returns [where req = req and i = i, OF assms(1,2)] assms(4) obtain e where "r = Returned e"
    by (metis fst_conv)
  with assms(4) ReqApply have "run_state (Registry_Apply K encode (fst s) spec) (snd s) = (Returned (e, fst s'), snd s')"
    by (auto simp: reg_call_def apply_call_def split: prod.splits outcome.splits)
  from Registry_Apply_inv [OF _ this] assms(3) show ?thesis by (simp add: reg_state_ok_def)
next
  case ReqUnmountAll
  with assms(3,4) UnmountAll_empty [of "snd s" "fst s" K] show ?thesis
    by (auto simp: reg_call_def reg_state_ok_def reg_inv_def split: prod.splits)
qed

lemma last_unmount_all:
  assumes "reg_state_ok (snd (serial (reg_call K encode req) os s0))" "req i = ReqUnmountAll"
  shows "fst (snd (serial (reg_call K encode req) (os @ [i]) s0)) = []"
    "live (snd (snd (serial (reg_call K encode req) (os @ [i]) s0))) = {#}"
  using assms UnmountAll_empty
  by (auto simp: serial_snoc reg_call_def reg_state_ok_def split: prod.splits)

abbreviation reg_run ::
    "kernel \<Rightarrow> (clientCfg \<Rightarrow> string result) \<Rightarrow> (nat \<Rightarrow> reg_request) \<Rightarrow> nat list \<Rightarrow> reg_state \<Rightarrow>
     (reg_pc, goerr option outcome, reg_state) pool" where
  "reg_run K encode req sched s0 \<equiv> pool_run (reg_start req) (reg_body K encode) sched (pool_init s0)"

lemma requests_return:
  assumes "clock_ok K" "\<And>i. valid_request (req i)" "fair_for n \<sigma>"
  shows "\<exists>m. \<forall>i < n. \<exists>e. pl_phase (reg_run K encode req (map \<sigma> [0..<m]) s0) i = Ended (Returned e)"
proof -
  from reg_mutex.every_call_returns [OF assms(3)] obtain m where
    m: "\<forall>i < n. \<exists>r. pl_phase (reg_run K encode req (map \<sigma> [0..<m]) s0) i = Ended r" by metis
  have "\<exists>e. r = Returned e" if "pl_phase (reg_run K encode req (map \<sigma> [0..<m]) s0) i = Ended r" for i r
    using reg_mutex.ended_result [OF that] reg_call_returns [where req = req and i = i, OF assms(1,2)] by metis
  with m show ?thesis by metis
qed

text \<open>
  C16. Concurrent requests to the registry, in any interleaving, on a clock that advances and for requests
  that \<open>ShareMount.Validate\<close> accepts, unmounts without a CubeFS block included: at most one call is between
  \<open>Lock\<close> and \<open>Unlock\<close>; whenever the mutex is free, registry and system calls are what the sequential
  calls leave in the order of the mutex.  Whichever clients have exited on their own by then, those the
  registry takes for live are exactly the ones that run and the ones that ended so: none runs that the
  registry does not know, and after a last \<open>UnmountAll\<close> none runs at all.  Under a fair scheduler every
  call returns.
\<close>

theorem concurrent_registry:
  assumes "clock_ok K" "\<And>i. valid_request (req i)" "reg_inv tr0 reg0"
    and "p = reg_run K encode req sched (reg0, tr0)"
  shows "(\<forall>i j. critical (pl_phase p i) \<and> critical (pl_phase p j) \<longrightarrow> i = j) \<and>
    (pl_owner p = None \<longrightarrow>
       serial (reg_call K encode req) (pl_order p) (reg0, tr0) = (results p, pl_shared p) \<and>
       distinct (map fst (fst (pl_shared p))) \<and>
       (\<forall>R E. clients (snd (pl_shared p)) R E \<longrightarrow> tracked (fst (pl_shared p)) = R + E) \<and>
       (\<forall>os i. pl_order p = os @ [i] \<and> req i = ReqUnmountAll \<longrightarrow>
          fst (pl_shared p) = [] \<and> (\<forall>R E. clients (snd (pl_shared p)) R E \<longrightarrow> R = {#} \<and> E = {#}))) \<and>
    (\<forall>n \<sigma>. fair_for n \<sigma> \<longrightarrow> (\<exists>m. \<forall>i < n. \<exists>e. 
       pl_phase (reg_run K encode req (map \<sigma> [0..<m]) (reg0, tr0)) i = Ended (Returned e)))"
proof (intro conjI allI impI)
  show "i = j" if "critical (pl_phase p i) \<and> critical (pl_phase p j)" for i j
    using that unfolding assms(4) by (elim conjE) (rule reg_mutex.mutual_exclusion)
  have ok0: "reg_state_ok (reg0, tr0)" using assms(3) by (simp add: reg_state_ok_def)
  note ok = reg_call_ok [where req = req and K = K and encode = encode, OF assms(1,2)]
  assume free: "pl_owner p = None"
  then show s: "serial (reg_call K encode req) (pl_order p) (reg0, tr0) = (results p, pl_shared p)"
    unfolding assms(4) by (rule reg_mutex.serialisable)
  have os: "reg_state_ok (snd (serial (reg_call K encode req) os (reg0, tr0)))" for os
    by (rule serial_invariant [where P = reg_state_ok, OF ok0 ok])
  from os [of "pl_order p"] s have inv: "reg_inv (snd (pl_shared p)) (fst (pl_shared p))" by (simp add: reg_state_ok_def)
  then show "distinct (map fst (fst (pl_shared p)))" by (simp add: reg_inv_def)
  show "tracked (fst (pl_shared p)) = R + E" if "clients (snd (pl_shared p)) R E" for R E
    using inv clients_live [OF that] by (simp add: reg_inv_def)
  fix os i assume l: "pl_order p = os @ [i] \<and> req i = ReqUnmountAll"
  with s have "serial (reg_call K encode req) (os @ [i]) (reg0, tr0) = (results p, pl_shared p)" by simp
  with last_unmount_all [where req = req and i = i, OF os [of os]] l
  have e: "fst (pl_shared p) = []" "live (snd (pl_shared p)) = {#}" by (metis snd_conv)+
  show "fst (pl_shared p) = []" by (rule e(1))
  show "R = {#}" "E = {#}" if "clients (snd (pl_shared p)) R E" for R E
    using clients_live [OF that] e(2) by simp_all
qed (rule requests_return [OF assms(1,2)])

text \<open>A mount request, the unmount of the same id with nothing but its mount point, and the shutdown, in turns.\<close>

definition example_unmount :: ShareMount where
  "example_unmount = \<lparr>sm_ID = ''data'', sm_Action = MountActionUnmount, sm_Backend = [], sm_MountPoint = ''/mnt'',
     sm_Readonly = False, sm_CubeFS = None\<rparr>"

definition example_requests :: "nat \<Rightarrow> reg_request" where
  "example_requests i = (if i = 0 then ReqApply example_mount else if i = 1 then ReqApply example_unmount else ReqUnmountAll)"

theorem concurrent_registry_witness:
  "\<exists>m e0 e1 e2.
     pl_phase (reg_run (kernel_with (\<lambda>_. None)\<lparr>k_now := clock\<rparr>) (\<lambda>_. Inr ''{}'') example_requests
       (map (\<lambda>m. m mod 3) [0..<m]) ([], [])) 0 = Ended (Returned e0) \<and>
     pl_phase (reg_run (kernel_with (\<lambda>_. None)\<lparr>k_now := clock\<rparr>) (\<lambda>_. Inr ''{}'') example_requests
       (map (\<lambda>m. m mod 3) [0..<m]) ([], [])) 1 = Ended (Returned e1) \<and>
     pl_phase (reg_run (kernel_with (\<lambda>_. None)\<lparr>k_now := clock\<rparr>) (\<lambda>_. Inr ''{}'') example_requests
       (map (\<lambda>m. m mod 3) [0..<m]) ([], [])) 2 = Ended (Returned e2)"
proof -
  have q: "valid_request (example_requests i)" for i
    by (simp add: valid_request_def example_requests_def example_mount_def example_unmount_def
        ShareMount_Validate_iff share_mount_ok_def effective_backend_def)
  have r: "reg_inv [] []" by (simp add: reg_inv_def live_def)
  have f: "fair_for 3 (\<lambda>m. m mod 3)" by (rule round_robin_fair) simp
  have "(0 :: nat) < 3" "(1 :: nat) < 3" "(2 :: nat) < 3" by simp_all
  with concurrent_registry [where req = example_requests and encode = "\<lambda>_. Inr ''{}''",
      OF clock_clock_ok [of "kernel_with (\<lambda>_. None)"] q r refl, THEN conjunct2, THEN conjunct2,
      THEN spec [of _ 3], THEN spec, THEN mp, OF f]
  show ?thesis by metis
qed

end
