(* ===== verification/Agent_Overlay.thy ===== *)
theory Agent_Overlay
  imports Overlay
begin

text \<open>
  Concurrent calls of \<open>ApplyWireGuard\<close> (src/pkg/network/wireguard_linux.go) and the global \<open>applier\<close>, which the
  sequential model leaves out.  The mutex \<open>applierMu\<close> is held for the assignment only, so a call has four
  atomic steps: the checks and the key file, the bring-up, the assignment, the address and the
  removal of the key file.  A closer is named by the call that obtained it; the live one is that of the last
  bring-up, as the library reuses the link.
\<close>

record overlay_world =
  ow_trace :: trace
  ow_applier :: "nat option"
  ow_live :: "nat option"

datatype wg_pc =
    WStart
  | WBringUp string "wt_peer list" addr bytes bytes
  | WStore string bytes bytes
  | WAddress string bytes bytes
  | WEnd "goerr option option"

text \<open>The calls after the assignment: the address, then the deferred removal of the key file.\<close>

definition address_step :: "kernel \<Rightarrow> WireGuard \<Rightarrow> bytes \<Rightarrow> bytes \<Rightarrow> goerr option option io" where
  "address_step K wg ip m = do {
     i \<leftarrow> ifaceIndex K (wg_iface wg);
     (case i of
        Inl e \<Rightarrow> ret (Some (Some (Wrapf ''resolve %s after bring-up: %w'' [AStr (wg_iface wg)] e)))
      | Inr idx \<Rightarrow> do {
          r \<leftarrow> talk K (addrAdd_msg idx ip m);
          ret (case r of
                 Some (Some e) \<Rightarrow>
                   if errors_is e EEXIST then Some None
                   else Some (Some (Wrapf ''addr add %s on %s: %w'' [AStr (wg_Address wg), AStr (wg_iface wg)] e))
               | _ \<Rightarrow> r)
        })
   }"

definition return_step :: "kernel \<Rightarrow> WireGuard \<Rightarrow> string \<Rightarrow> bytes \<Rightarrow> bytes \<Rightarrow> goerr option option io" where
  "return_step K wg keyPath ip m = do {
     r \<leftarrow> address_step K wg ip m;
     _ \<leftarrow> (if r = None then ret () else cleanupTmpKey keyPath);
     ret r
   }"

definition wg_step ::
    "kernel \<Rightarrow> bring_up \<Rightarrow> (nat \<Rightarrow> WireGuard) \<Rightarrow> nat \<Rightarrow> overlay_world \<times> wg_pc \<Rightarrow> overlay_world \<times> wg_pc" where
  "wg_step K BU wgs i s =
     (let w = fst s; wg = wgs i in
      case snd s of
        WStart \<Rightarrow>
          (case check_wireguard wg of
             Inl e \<Rightarrow> (w, WEnd (Some (Some e)))
           | Inr (peers, localIP, ip, m) \<Rightarrow>
               (case run_state (stagePrivateKey K (wg_PrivateKey wg)) (ow_trace w) of
                  (Inl e, tr) \<Rightarrow> (w\<lparr>ow_trace := tr\<rparr>, WEnd (Some (Some e)))
                | (Inr keyPath, tr) \<Rightarrow> (w\<lparr>ow_trace := tr\<rparr>, WBringUp keyPath peers localIP ip m)))
      | WBringUp keyPath peers localIP ip m \<Rightarrow>
          (let cfg = server_config wg keyPath localIP peers in
           case run_state (call (\<lambda>tr. BU tr cfg) (EBringUp (sc_InterfaceName cfg) (sc_PrivateKeyPath cfg))) (ow_trace w) of
             (Some e, tr) \<Rightarrow>
               (w\<lparr>ow_trace := snd (run_state (cleanupTmpKey keyPath) tr)\<rparr>,
                WEnd (Some (Some (Wrapf ''wireguard bring-up %s: %w'' [AStr (wg_iface wg)] e))))
           | (None, tr) \<Rightarrow> (w\<lparr>ow_trace := tr, ow_live := Some i\<rparr>, WStore keyPath ip m))
      | WStore keyPath ip m \<Rightarrow> (w\<lparr>ow_applier := Some i\<rparr>, WAddress keyPath ip m)
      | WAddress keyPath ip m \<Rightarrow>
          (case run_state (return_step K wg keyPath ip m) (ow_trace w) of
             (r, tr) \<Rightarrow> (w\<lparr>ow_trace := tr\<rparr>, WEnd r))
      | WEnd r \<Rightarrow> s)"

text \<open>A call on its own is the sequential one, and then the recorded closer is the live one.\<close>

definition wg_alone :: "kernel \<Rightarrow> bring_up \<Rightarrow> (nat \<Rightarrow> WireGuard) \<Rightarrow> nat \<Rightarrow> overlay_world \<Rightarrow> overlay_world \<times> wg_pc" where
  "wg_alone K BU wgs i w = (wg_step K BU wgs i ^^ 4) (w, WStart)"

lemma bring_up_split: "bring_up_step K BU wg cfg ip m = do {
    b \<leftarrow> call (\<lambda>tr. BU tr cfg) (EBringUp (sc_InterfaceName cfg) (sc_PrivateKeyPath cfg));
    (case b of
       Some e \<Rightarrow> ret (Some (Some (Wrapf ''wireguard bring-up %s: %w'' [AStr (wg_iface wg)] e)))
     | None \<Rightarrow> address_step K wg ip m)
  }"
  unfolding bring_up_step_def address_step_def ..

theorem wg_alone_sequential:
  assumes "run_state (ApplyWireGuard K BU (Some (wgs i))) (ow_trace w) = (r, tr)"
    and "ow_applier w = ow_live w"
  shows "\<exists>w'. wg_alone K BU wgs i w = (w', WEnd r) \<and> ow_trace w' = tr \<and> ow_applier w' = ow_live w'"
proof (cases "check_wireguard (wgs i)")
  case (Inl e)
  with assms show ?thesis by (simp add: ApplyWireGuard_def wg_alone_def wg_step_def numeral_eq_Suc)
next
  case (Inr c)
  obtain peers a ip m where c: "c = (peers, a, ip, m)" by (cases c)
  obtain k t where k: "run_state (stagePrivateKey K (wg_PrivateKey (wgs i))) (ow_trace w) = (k, t)" by fastforce
  show ?thesis
  proof (cases k)
    case Inl': (Inl e)
    with assms Inr c k show ?thesis by (simp add: ApplyWireGuard_def wg_alone_def wg_step_def numeral_eq_Suc)
  next
    case (Inr f)
    note Inr' = Inr
    let ?cfg = "server_config (wgs i) f a peers"
    show ?thesis
    proof (cases "BU t ?cfg")
      case (Some e)
      with assms \<open>check_wireguard (wgs i) = Inr c\<close> c k Inr' show ?thesis
        by (auto simp: ApplyWireGuard_def bring_up_split wg_alone_def wg_step_def numeral_eq_Suc split: prod.splits)
    next
      case None
      with assms \<open>check_wireguard (wgs i) = Inr c\<close> c k Inr' show ?thesis
        by (auto simp: ApplyWireGuard_def bring_up_split return_step_def wg_alone_def wg_step_def numeral_eq_Suc
            split: prod.splits if_splits)
    qed
  qed
qed

subsection \<open>Two calls at once\<close>

fun overlay_run ::
    "kernel \<Rightarrow> bring_up \<Rightarrow> (nat \<Rightarrow> WireGuard) \<Rightarrow> nat list \<Rightarrow> overlay_world \<times> (nat \<Rightarrow> wg_pc) \<Rightarrow> overlay_world \<times> (nat \<Rightarrow> wg_pc)" where
  "overlay_run K BU wgs [] s = s"
| "overlay_run K BU wgs (i # sched) (w, pcs) =
     (case wg_step K BU wgs i (w, pcs i) of (w', pc) \<Rightarrow> overlay_run K BU wgs sched (w', pcs(i := pc)))"

definition idle_overlay :: "overlay_world \<times> (nat \<Rightarrow> wg_pc)" where
  "idle_overlay = (\<lparr>ow_trace = [], ow_applier = None, ow_live = None\<rparr>, \<lambda>_. WStart)"

lemma overlay_steps:
  fixes K BU wgs w
  defines "K \<equiv> kernel_with (\<lambda>_. None)" and "BU \<equiv> (\<lambda>_ _. None)" and "wgs \<equiv> \<lambda>_ :: nat. example_wg"
  obtains f peers a ip m where
    "\<And>i w. \<exists>tr. wg_step K BU wgs i (w, WStart) = (w\<lparr>ow_trace := tr\<rparr>, WBringUp f peers a ip m)"
    "\<And>i w. \<exists>tr. wg_step K BU wgs i (w, WBringUp f peers a ip m) =
        (w\<lparr>ow_trace := tr, ow_live := Some i\<rparr>, WStore f ip m)"
    "\<And>i w. \<exists>tr. wg_step K BU wgs i (w, WAddress f ip m) = (w\<lparr>ow_trace := tr\<rparr>, WEnd (Some None))"
proof -
  obtain peers a ip m where c: "check_wireguard example_wg = Inr (peers, a, ip, m)"
    using example_check by (metis prod_cases4)
  show thesis
  proof (rule that [of "''/tmp/wg-priv-1''" peers a ip m])
    fix i w
    show "\<exists>tr. wg_step K BU wgs i (w, WStart) = (w\<lparr>ow_trace := tr\<rparr>, WBringUp ''/tmp/wg-priv-1'' peers a ip m)"
      by (simp add: wg_step_def K_def wgs_def c stagePrivateKey_def io_defs kernel_with_def) blast
    show "\<exists>tr. wg_step K BU wgs i (w, WBringUp ''/tmp/wg-priv-1'' peers a ip m) =
        (w\<lparr>ow_trace := tr, ow_live := Some i\<rparr>, WStore ''/tmp/wg-priv-1'' ip m)"
      by (simp add: wg_step_def BU_def Let_def) blast
    show "\<exists>tr. wg_step K BU wgs i (w, WAddress ''/tmp/wg-priv-1'' ip m) = (w\<lparr>ow_trace := tr\<rparr>, WEnd (Some None))"
      by (simp add: wg_step_def return_step_def address_step_def K_def wgs_def ifaceIndex_def talk_def nl_ok_acks
          cleanupTmpKey_def io_defs kernel_with_def) blast
  qed
qed

text \<open>
  \<open>applierMu\<close> does not make the assignment follow the bring-up: of two concurrent calls that both succeed, the one
  that brought the interface up first may store its closer last, and \<open>applier\<close> is then not the live one.
\<close>

theorem recorded_closer_not_live:
  "\<exists>sched w pcs. overlay_run (kernel_with (\<lambda>_. None)) (\<lambda>_ _. None) (\<lambda>_. example_wg) sched idle_overlay = (w, pcs) \<and>
     pcs 0 = WEnd (Some None) \<and> pcs 1 = WEnd (Some None) \<and> ow_live w = Some 1 \<and> ow_applier w = Some 0"
proof -
  define K where "K = kernel_with (\<lambda>_. None)"
  define BU where "BU = (\<lambda>(_ :: trace) (_ :: ServerConfig). None :: goerr option)"
  define wgs where "wgs = (\<lambda>_ :: nat. example_wg)"
  from overlay_steps obtain f peers a ip m where s:
    "\<And>i w. \<exists>tr. wg_step K BU wgs i (w, WStart) = (w\<lparr>ow_trace := tr\<rparr>, WBringUp f peers a ip m)"
    "\<And>i w. \<exists>tr. wg_step K BU wgs i (w, WBringUp f peers a ip m) = (w\<lparr>ow_trace := tr, ow_live := Some i\<rparr>, WStore f ip m)"
    "\<And>i w. \<exists>tr. wg_step K BU wgs i (w, WAddress f ip m) = (w\<lparr>ow_trace := tr\<rparr>, WEnd (Some None))"
    unfolding K_def BU_def wgs_def by blast
  from s obtain t1 t2 t3 where t:
    "\<And>i w. wg_step K BU wgs i (w, WStart) = (w\<lparr>ow_trace := t1 i w\<rparr>, WBringUp f peers a ip m)"
    "\<And>i w. wg_step K BU wgs i (w, WBringUp f peers a ip m) = (w\<lparr>ow_trace := t2 i w, ow_live := Some i\<rparr>, WStore f ip m)"
    "\<And>i w. wg_step K BU wgs i (w, WAddress f ip m) = (w\<lparr>ow_trace := t3 i w\<rparr>, WEnd (Some None))"
    by metis
  have st: "wg_step K BU wgs i (w, WStore f ip m) = (w\<lparr>ow_applier := Some i\<rparr>, WAddress f ip m)" for i w
    by (simp add: wg_step_def Let_def)
  obtain w pcs where r: "overlay_run K BU wgs [0, 1, 0, 1, 1, 0, 0, 1] idle_overlay = (w, pcs)" by fastforce
  then have "pcs 0 = WEnd (Some None) \<and> pcs 1 = WEnd (Some None) \<and> ow_live w = Some 1 \<and> ow_applier w = Some 0"
    by (auto simp: idle_overlay_def t st)
  with r show ?thesis unfolding K_def BU_def wgs_def by blast
qed

end
