(* ===== verification/Container_Set.thy ===== *)
theory Container_Set
  imports Go_Os
begin

text \<open>
  pkg/pod/containers.go: the set of workload containers published to a running VM, its validation and
  its encoding.  \<open>Validate\<close> and \<open>MarshalSet\<close> work on the set through a pointer and fill in a missing
  version, so they return the set afterwards.  The JSON encoder is a parameter.
\<close>

subsection \<open>The set\<close>

definition ContainerSetVersion :: int where "ContainerSetVersion = 1"

record ContainerMount =
  cm_HostPath :: string
  cm_MountPath :: string
  cm_Readonly :: bool

record WorkloadContainer =
  wc_Name :: string
  wc_Image :: string
  wc_Command :: "string list"
  wc_Args :: "string list"
  wc_Env :: "(string \<times> string) list"
  wc_Mounts :: "ContainerMount list"
  wc_WorkingDir :: string
  wc_Net :: string
  wc_Restart :: string
  wc_Annotations :: "(string \<times> string) list"

record ContainerSet =
  cset_Version :: int
  cset_Containers :: "WorkloadContainer list"

subsection \<open>Validate and MarshalSet\<close>

fun mount_faults :: "nat \<Rightarrow> nat \<Rightarrow> ContainerMount list \<Rightarrow> goerr option" where
  "mount_faults i j [] = None"
| "mount_faults i j (m # ms) =
     (if cm_HostPath m = [] \<or> cm_MountPath m = []
      then Some (Errorf ''containers[%d].mounts[%d]: host_path + mount_path required'' [AInt (int i), AInt (int j)])
      else mount_faults i (Suc j) ms)"

definition workload_fault :: "nat \<Rightarrow> string list \<Rightarrow> WorkloadContainer \<Rightarrow> goerr option" where
  "workload_fault i seen c =
     (if wc_Name c = [] then Some (Errorf ''containers[%d]: name required'' [AInt (int i)])
      else if wc_Name c \<in> set seen
      then Some (Errorf ''containers[%d]: duplicate name %q'' [AInt (int i), AStr (wc_Name c)])
      else if wc_Image c = []
      then Some (Errorf ''containers[%d]: image required (got name=%q)'' [AInt (int i), AStr (wc_Name c)])
      else if wc_Net c \<notin> {'''', ''host'', ''none'', ''shared''}
      then Some (Errorf ''containers[%d]: invalid net %q (host|none|shared|empty)'' [AInt (int i), AStr (wc_Net c)])
      else if wc_Restart c \<notin> {'''', ''always'', ''on-failure'', ''never''}
      then Some (Errorf ''containers[%d]: invalid restart %q (always|on-failure|never|empty)''
             [AInt (int i), AStr (wc_Restart c)])
      else mount_faults i 0 (wc_Mounts c))"

fun validate_workloads :: "nat \<Rightarrow> string list \<Rightarrow> WorkloadContainer list \<Rightarrow> goerr option" where
  "validate_workloads i seen [] = None"
| "validate_workloads i seen (c # cs) =
     (case workload_fault i seen c of
        Some e \<Rightarrow> Some e
      | None \<Rightarrow> validate_workloads (Suc i) (wc_Name c # seen) cs)"

definition default_version :: "ContainerSet \<Rightarrow> ContainerSet" where
  "default_version s = (if cset_Version s = 0 then s\<lparr>cset_Version := ContainerSetVersion\<rparr> else s)"

definition ContainerSet_Validate :: "ContainerSet option \<Rightarrow> goerr option \<times> ContainerSet option" where
  "ContainerSet_Validate s =
     (case s of
        None \<Rightarrow> (Some (Errorf ''nil ContainerSet'' []), None)
      | Some s \<Rightarrow>
          let s = default_version s in
          (if ContainerSetVersion < cset_Version s
           then Some (Errorf ''unsupported ContainerSet version %d (agent supports %d)''
                  [AInt (cset_Version s), AInt ContainerSetVersion])
           else validate_workloads 0 [] (cset_Containers s), Some s))"

definition MarshalSet :: "(ContainerSet \<Rightarrow> string result) \<Rightarrow> ContainerSet \<Rightarrow> string result \<times> ContainerSet" where
  "MarshalSet encode s = (encode (default_version s), default_version s)"

subsection \<open>Properties\<close>

definition workload_ok :: "WorkloadContainer \<Rightarrow> bool" where
  "workload_ok c \<longleftrightarrow> wc_Name c \<noteq> [] \<and> wc_Image c \<noteq> [] \<and>
     wc_Net c \<in> {'''', ''host'', ''none'', ''shared''} \<and>
     wc_Restart c \<in> {'''', ''always'', ''on-failure'', ''never''} \<and>
     list_all (\<lambda>m. cm_HostPath m \<noteq> [] \<and> cm_MountPath m \<noteq> []) (wc_Mounts c)"

lemma mount_faults_None: "mount_faults i j ms = None \<longleftrightarrow>
  list_all (\<lambda>m. cm_HostPath m \<noteq> [] \<and> cm_MountPath m \<noteq> []) ms"
  by (induction i j ms rule: mount_faults.induct) auto

lemma workload_fault_None: "workload_fault i seen c = None \<longleftrightarrow> workload_ok c \<and> wc_Name c \<notin> set seen"
  by (auto simp: workload_fault_def workload_ok_def mount_faults_None)

lemma validate_workloads_None: "validate_workloads i seen cs = None \<longleftrightarrow>
  list_all workload_ok cs \<and> distinct (map wc_Name cs) \<and> set seen \<inter> wc_Name ` set cs = {}"
proof (induction cs arbitrary: i seen)
  case (Cons c cs)
  have "validate_workloads i seen (c # cs) = None \<longleftrightarrow>
    workload_fault i seen c = None \<and> validate_workloads (Suc i) (wc_Name c # seen) cs = None"
    by (simp split: option.split)
  then show ?case by (auto simp: workload_fault_None Cons.IH)
qed simp

text \<open>
  A set is accepted exactly when its version, 1 if it had none, is at most 1 and its containers are
  well-formed with distinct names; validation changes nothing but a missing version, and afterwards
  the set is encoded to the same bytes as before, so publisher and agent agree.  A negative version is
  accepted as if it were supported.
\<close>

theorem ContainerSet_Validate_correct:
  "(fst (ContainerSet_Validate (Some s)) = None \<longleftrightarrow> cset_Version s \<le> 1 \<and>
      list_all workload_ok (cset_Containers s) \<and> distinct (map wc_Name (cset_Containers s))) \<and>
   (\<exists>s'. snd (ContainerSet_Validate (Some s)) = Some s' \<and> cset_Containers s' = cset_Containers s \<and>
      cset_Version s' = (if cset_Version s = 0 then 1 else cset_Version s) \<and>
      fst (MarshalSet encode s') = fst (MarshalSet encode s) \<and>
      ContainerSet_Validate (Some s') = ContainerSet_Validate (Some s)) \<and>
   fst (ContainerSet_Validate None) \<noteq> None"
  by (auto simp: ContainerSet_Validate_def default_version_def ContainerSetVersion_def Let_def
      validate_workloads_None MarshalSet_def)

end
