(* ===== verification/Vsock.thy ===== *)
theory Vsock
  imports Netlink
begin

text \<open>
  pkg/transport/vsock.go: opening an AF_VSOCK connection, retrying it, and reading the guest's own CID.
  A file descriptor is a number; a connection is the duplicate that \<open>net.FileConn\<close> made.
\<close>

subsection \<open>Dial\<close>

definition afVsock :: "16 word" where "afVsock = 40"

record sockaddrVM =
  sa_family :: "16 word"
  sa_reserved :: "16 word"
  sa_port :: "32 word"
  sa_cid :: "32 word"
  sa_zero :: bytes

text \<open>The memory of the struct, as passed to \<open>connect\<close>: 16 bytes, little-endian fields.\<close>

definition sockaddr_bytes :: "sockaddrVM \<Rightarrow> bytes" where
  "sockaddr_bytes sa = le16 (sa_family sa) @ le16 (sa_reserved sa) @ le32 (sa_port sa) @ le32 (sa_cid sa) @ sa_zero sa"

definition vsock_addr :: "32 word \<Rightarrow> 32 word \<Rightarrow> sockaddrVM" where
  "vsock_addr cid port = \<lparr>sa_family = afVsock, sa_reserved = 0, sa_port = port, sa_cid = cid, sa_zero = [0, 0, 0, 0]\<rparr>"

definition close_fd :: "nat \<Rightarrow> unit io" where
  "close_fd fd = call (\<lambda>_. ()) (\<lambda>_. ECloseFd fd)"

definition Dial :: "kernel \<Rightarrow> 32 word \<Rightarrow> 32 word \<Rightarrow> nat result io" where
  "Dial K cid port = do {
     s \<leftarrow> call (k_socket K) ESocket;
     (case s of
        Inl e \<Rightarrow> ret (Inl (Wrapf ''vsock socket: %w'' [] e))
      | Inr fd \<Rightarrow> do {
          let sa = sockaddr_bytes (vsock_addr cid port);
          errno \<leftarrow> call (\<lambda>tr. k_connect K tr fd sa) (EConnect fd sa);
          (if errno \<noteq> 0 then do {
             _ \<leftarrow> close_fd fd;
             ret (Inl (Wrapf ''vsock connect (%d,%d): %w'' [AInt (uint cid), AInt (uint port)] (Errno errno)))
           } else do {
             c \<leftarrow> call (\<lambda>tr. k_fileconn K tr fd) (EFileConn fd);
             _ \<leftarrow> close_fd fd;
             ret (case c of Inl e \<Rightarrow> Inl (Wrapf ''vsock filconn: %w'' [] e) | Inr conn \<Rightarrow> Inr conn)
           })
        })
   }"

text \<open>The retry loop with the attempts left; the connection and the error are both nil before the first.\<close>

fun dial_loop :: "kernel \<Rightarrow> 32 word \<Rightarrow> 32 word \<Rightarrow> nat \<Rightarrow> nat \<Rightarrow> goerr option \<Rightarrow> (nat option \<times> goerr option) io" where
  "dial_loop K cid port delay 0 lastErr = ret (None, lastErr)"
| "dial_loop K cid port delay (Suc n) lastErr = do {
     r \<leftarrow> Dial K cid port;
     (case r of
        Inr c \<Rightarrow> ret (Some c, None)
      | Inl e \<Rightarrow> do { _ \<leftarrow> time_sleep delay; dial_loop K cid port delay n (Some e) })
   }"

definition DialWithRetry :: "kernel \<Rightarrow> 32 word \<Rightarrow> 32 word \<Rightarrow> int \<Rightarrow> nat \<Rightarrow> (nat option \<times> goerr option) io" where
  "DialWithRetry K cid port attempts delay = dial_loop K cid port delay (nat attempts) None"

definition ioctlVMSocketsGetLocalCID :: nat where "ioctlVMSocketsGetLocalCID = 0x7b9"

definition LocalCID :: "kernel \<Rightarrow> 32 word io" where
  "LocalCID K = do {
     f \<leftarrow> call (\<lambda>tr. k_openfd K tr ''/dev/vsock'') (EOpenFd ''/dev/vsock'');
     (case f of
        Inl e \<Rightarrow> ret 0
      | Inr fd \<Rightarrow> do {
          (errno, cid) \<leftarrow> call (\<lambda>tr. k_ioctl K tr fd ioctlVMSocketsGetLocalCID)
             (\<lambda>r. EIoctl fd ioctlVMSocketsGetLocalCID (fst r));
          _ \<leftarrow> close_fd fd;
          ret (if errno \<noteq> 0 then 0 else cid)
        })
   }"

subsection \<open>Properties\<close>

text \<open>The descriptors opened and not yet closed, duplicates included.\<close>

fun fd_step :: "event \<Rightarrow> nat list \<Rightarrow> nat list" where
  "fd_step (ESocket (Inr fd)) fds = fds @ [fd]"
| "fd_step (EOpenFd p (Inr fd)) fds = fds @ [fd]"
| "fd_step (EFileConn f (Inr fd)) fds = fds @ [fd]"
| "fd_step (ECloseFd fd) fds = remove1 fd fds"
| "fd_step _ fds = fds"

definition open_fds :: "trace \<Rightarrow> nat list" where
  "open_fds tr = fold fd_step tr []"

lemma open_fds_append: "open_fds (tr @ es) = fold fd_step es (open_fds tr)"
  by (simp add: open_fds_def)

text \<open>The kernel hands out descriptors that are not open.\<close>

definition fresh_fds :: "kernel \<Rightarrow> bool" where
  "fresh_fds K \<longleftrightarrow>
     (\<forall>tr fd. k_socket K tr = Inr fd \<longrightarrow> fd \<notin> set (open_fds tr)) \<and>
     (\<forall>tr p fd. k_openfd K tr p = Inr fd \<longrightarrow> fd \<notin> set (open_fds tr)) \<and>
     (\<forall>tr f fd. k_fileconn K tr f = Inr fd \<longrightarrow> fd \<notin> set (open_fds tr))"

lemma remove1_last: "x \<notin> set xs \<Longrightarrow> remove1 x (xs @ x # ys) = xs @ ys"
  by (induction xs) auto

lemma Dial_fds:
  assumes "fresh_fds K" "run_state (Dial K cid port) tr = (r, tr')"
  shows "open_fds tr' = (case r of Inl e \<Rightarrow> open_fds tr | Inr c \<Rightarrow> open_fds tr @ [c])"
proof (cases "k_socket K tr")
  case (Inl e)
  with assms(2) show ?thesis by (auto simp: Dial_def open_fds_append)
next
  case (Inr fd)
  let ?t1 = "tr @ [ESocket (Inr fd)]" let ?sa = "sockaddr_bytes (vsock_addr cid port)"
  let ?t2 = "?t1 @ [EConnect fd ?sa (k_connect K ?t1 fd ?sa)]"
  have f: "fd \<notin> set (open_fds tr)" using assms(1) Inr unfolding fresh_fds_def by blast
  have o: "open_fds ?t2 = open_fds tr @ [fd]" by (simp add: open_fds_append)
  show ?thesis
  proof (cases "k_connect K ?t1 fd ?sa = 0 \<and> (\<exists>c. k_fileconn K ?t2 fd = Inr c)")
    case True
    then obtain c where c: "k_fileconn K ?t2 fd = Inr c" by blast
    with assms(1) o have "c \<noteq> fd" unfolding fresh_fds_def by fastforce
    with True c Inr assms(2) f show ?thesis by (auto simp: Dial_def Let_def close_fd_def open_fds_append remove1_last)
  next
    case False
    with Inr assms(2) f show ?thesis
      by (auto simp: Dial_def Let_def close_fd_def open_fds_append remove1_last split: if_splits sum.splits)
  qed
qed

text \<open>What the kernel reads in the address it is given.\<close>

definition decode_sockaddr :: "bytes \<Rightarrow> sockaddrVM" where
  "decode_sockaddr b = \<lparr>sa_family = get16 b, sa_reserved = get16 (drop 2 b), sa_port = get32 (drop 4 b),
     sa_cid = get32 (drop 8 b), sa_zero = drop 12 b\<rparr>"

lemma decode_sockaddr_bytes: "decode_sockaddr (sockaddr_bytes sa) = sa"
proof -
  define b where "b = sockaddr_bytes sa"
  have b: "b = le16 (sa_family sa) @ le16 (sa_reserved sa) @ le32 (sa_port sa) @ le32 (sa_cid sa) @ sa_zero sa"
    by (simp add: b_def sockaddr_bytes_def)
  have d2: "drop 2 b = le16 (sa_reserved sa) @ le32 (sa_port sa) @ le32 (sa_cid sa) @ sa_zero sa"
    by (simp only: b drop_le)
  have "drop 4 b = drop 2 (drop 2 b)" "drop 8 b = drop 4 (drop 4 b)" "drop 12 b = drop 4 (drop 8 b)" by simp_all
  then have d: "drop 4 b = le32 (sa_port sa) @ le32 (sa_cid sa) @ sa_zero sa"
    "drop 8 b = le32 (sa_cid sa) @ sa_zero sa" "drop 12 b = sa_zero sa"
    by (simp_all only: d2 drop_le)
  have "get16 b = sa_family sa" by (simp only: b get16_le16)
  with d2 d show ?thesis by (simp add: decode_sockaddr_def flip: b_def)
qed

lemma dial_loop_result:
  assumes "fresh_fds K"
  shows "run_state (dial_loop K cid port delay n lastErr) tr = ((c, e), tr') \<Longrightarrow>
    (case c of
       Some fd \<Rightarrow> e = None \<and> open_fds tr' = open_fds tr @ [fd]
     | None \<Rightarrow> (if n = 0 then e = lastErr else e \<noteq> None) \<and> open_fds tr' = open_fds tr)"
proof (induction n arbitrary: tr lastErr)
  case (Suc n)
  obtain r t where r: "run_state (Dial K cid port) tr = (r, t)" by fastforce
  note d = Dial_fds [OF assms r]
  show ?case
  proof (cases r)
    case (Inl err)
    with Suc.prems r have "run_state (dial_loop K cid port delay n (Some err)) (t @ [ESleep delay]) = ((c, e), tr')"
      by (simp add: io_defs)
    from Suc.IH [OF this] Inl d show ?thesis
      by (auto simp: open_fds_append split: option.splits if_splits)
  next
    case (Inr fd)
    with Suc.prems r d show ?thesis by auto
  qed
qed auto

text \<open>
  Dialling with retries gives a connection or an error, never both and, with at least one attempt, never
  neither; it leaks no descriptor: all that stays open is the connection it returns.  The kernel is
  given the family, port and CID of the call.  With no attempt, the result is nil without an error.
\<close>

theorem DialWithRetry_correct:
  assumes "fresh_fds K" "run_state (DialWithRetry K cid port attempts delay) tr = ((c, e), tr')"
  shows "(0 < attempts \<longrightarrow> (c = None) = (e \<noteq> None)) \<and>
    open_fds tr' = open_fds tr @ (case c of None \<Rightarrow> [] | Some fd \<Rightarrow> [fd]) \<and>
    (attempts \<le> 0 \<longrightarrow> c = None \<and> e = None \<and> tr' = tr) \<and>
    decode_sockaddr (sockaddr_bytes (vsock_addr cid port)) =
      \<lparr>sa_family = 40, sa_reserved = 0, sa_port = port, sa_cid = cid, sa_zero = [0, 0, 0, 0]\<rparr>"
proof -
  from assms(2) have run: "run_state (dial_loop K cid port delay (nat attempts) None) tr = ((c, e), tr')"
    by (simp add: DialWithRetry_def)
  have "attempts \<le> 0 \<longrightarrow> c = None \<and> e = None \<and> tr' = tr" using run by auto
  with dial_loop_result [OF assms(1) run] show ?thesis
    by (auto simp: decode_sockaddr_bytes vsock_addr_def afVsock_def split: option.splits if_splits)
qed

definition next_fd :: "trace \<Rightarrow> nat" where
  "next_fd tr = Suc (sum_list (open_fds tr))"

lemma next_fd_fresh: "next_fd tr \<notin> set (open_fds tr)"
  using member_le_sum_list [of "next_fd tr" "open_fds tr"] by (auto simp: next_fd_def)

theorem DialWithRetry_correct_witness:
  "\<exists>K c tr'. run_state (DialWithRetry K 2 5555 3 100) [] = ((Some c, None), tr') \<and> open_fds tr' = [c]"
proof -
  let ?K = "kernel_with (\<lambda>_. None)\<lparr>k_socket := \<lambda>tr. Inr (next_fd tr), k_openfd := \<lambda>tr p. Inr (next_fd tr),
    k_fileconn := \<lambda>tr f. Inr (next_fd tr)\<rparr>"
  have fresh: "fresh_fds ?K" by (simp add: fresh_fds_def next_fd_fresh)
  obtain c e tr' where run: "run_state (DialWithRetry ?K 2 5555 3 100) [] = ((c, e), tr')" by (metis surj_pair)
  from run have "e = None"
    by (auto simp: DialWithRetry_def Dial_def Let_def close_fd_def kernel_with_def numeral_3_eq_3)
  with DialWithRetry_correct [OF fresh run] run show ?thesis
    by (cases c) (auto simp: open_fds_def)
qed

end
