(* ===== verification/Spec2Isabelle.thy ===== *)
theory Spec2Isabelle
  imports Boot_Visible Init_Entry Runtime_Protocol Stop_Protocol Lost_Exit Pod_Init_Build Agent_Firewall Agent_Registry Agent_Overlay Container_Set Vsock
begin

text \<open>
  A verification library for weft-microvm-init, the process 1 of a micro virtual machine.  It boots the
  guest (pseudo file systems, config share, shares, CubeFS mounts, network, overlay), builds an OCI bundle
  for each container of the pod, and supervises the containers with an OCI runtime until they are done
  or the host asks for a shutdown; then it powers the guest off.  The repository also holds packages
  the guest agent shares with the init: the firewall, the container set, the vsock transport, and the
  command that packs the initramfs.

  \<^bold>\<open>How the program is modelled.\<close>  What a function does is a state monad over the trace of system calls
  (\<open>'a io\<close>, theory Go_Os).  The kernel, the initramfs and the host are a parameter, a record of answers,
  each a function of the trace so far; a theorem over every \<open>K :: kernel\<close> is a theorem over every
  environment, failures included.  Errors are values: an \<open>error\<close> of Go is \<open>goerr option\<close>, a pair of a value
  and an error is \<open>'a result = goerr + 'a\<close>, a panic is the outcome \<open>Panicked\<close> or the flag \<open>s_panic\<close>, and a call
  that may wait for ever has a value for that (\<open>Waiting\<close>, or None inside an option).  Strings are lists
  of bytes, as in Go.  A Go map is an association list where the order of iteration is observable, and then
  the theorems hold for every order.  Machine integers are words of their width.

  \<^bold>\<open>The theories, in the order of import, and the code they model (below src/).\<close>
  \<^item> Go_Prelude, Go_Text, Go_Os: the parts of Go's library the source uses (errors and wrapping, strings.Cut,
    Split, Fields, strconv, path.Join and Clean, the system calls), the locale \<open>indexed_validator\<close> for the
    validation loops, and \<open>appends\<close>, what a program may add to the trace, with its introduction rules.
    Go_Flags: package flag, with the round trip of rendered settings.
  \<^item> Pod_Spec, Config_Load: pkg/pod/spec.go, share.go, wireguard.go.  The structs, every Validate, and the
    loaders under the locale \<open>optional_config\<close>, which is interpreted on the three optional files.
  \<^item> Cmdline: the readers of /proc/cmdline, the mount and CubeFS directives and the pod made up from
    them, in cmd/weft-init/main.go.
  \<^item> Image_Config, Bundler: pkg/pod/imageconfig.go and pkg/bundler/bundler.go.
  \<^item> Net_Addr: net.ParseCIDR, ParseIP, netip.ParsePrefix and masks.  Netlink: pkg/network/netlink.go down
    to the bytes of the messages.  Overlay: wgpeers.go and wireguard_linux.go.
  \<^item> Nftables: the semantics of the expressions and of the batches sent to the kernel, as locales
    \<open>nft_vm\<close> and \<open>nft_tables\<close> with a reference interpretation.  Firewall_Rules: pkg/pod/firewall.go.
    Packet_Filter: pkg/network/firewall_linux.go.  Firewall_Status: firewallstat_linux.go, and the
    stubs firewall_other.go and firewallstat_other.go.
  \<^item> Cubefs: pkg/cubefs/config.go and mount.go, with the registry of live mounts.
  \<^item> Oci_Runtime: pkg/runtime/runtime.go and crun/crun.go; the locale \<open>oci_runtime\<close> is what the supervisor
    relies on and is interpreted on crun.  Reaper: pkg/supervisor/reaper.go.  Supervisor and
    Supervisor_Run: pkg/supervisor/supervisor.go, first the sequential operations, then the goroutines.
  \<^item> Boot: \<open>run\<close> and the mounts of cmd/weft-init/main.go.  Boot_Order, Boot_Bundles and Boot_Visible: what
    the boot does as a whole, and what a container sees at its root directory.
  \<^item> Pod_Lifetime, Fair_Shutdown, Fair_Completion: how the life of a pod ends, in bounded runs and in every
    fair infinite execution.  Lost_Exit: what a full event channel costs.  Runtime_Protocol:
    what the supervisor asks of crun and in which order, as an automaton over the calls and their
    results.  Init_Entry: \<open>main\<close> with its flags, and the life of process 1 from its command line to the
    power-off.  Stop_Protocol: the signals \<open>Stop\<close> sends in every fair execution, and when it sends no SIGKILL.
  \<^item> Mutex_Pool: goroutines that call functions under one mutex, as the locales \<open>critical_section\<close> and
    \<open>atomic_section\<close>.  They are interpreted on the steps of \<open>ApplyFirewall\<close> (Agent_Firewall, with the
    status read meanwhile) and of \<open>Registry.Apply\<close> and \<open>UnmountAll\<close> (Agent_Registry).  Agent_Overlay:
    concurrent calls of \<open>ApplyWireGuard\<close>, whose mutex covers one assignment.
  \<^item> Container_Set: pkg/pod/containers.go.  Vsock: pkg/transport/vsock.go.  Pod_Init_Build:
    cmd/pod-init-build/main.go.

  \<^bold>\<open>State.\<close>  The supervisor keeps a record of container states and a map from pids to containers; the
  system \<open>sys\<close> adds the channel of the reaper, the trace and a program counter for each goroutine (Run,
  consumeReaper, Stop, the reaper).  A step is one section under the mutex, one call of the runtime or one
  channel operation of one goroutine, so \<open>steps\<close> contains every interleaving the mutex allows.  The
  registry of CubeFS keeps an association list from ids to live mounts; the clients started, and not killed
  and reaped by the registry, are read off the trace, and a client may end on its own at any point of it (\<open>clients\<close>).
  The firewall keeps nothing: its state is the tables of the kernel, which take a batch as a whole or not at all.  Concurrent callers
  of the firewall and of the registry are a \<open>pool\<close>: the shared state, the owner of the mutex, a phase for each
  goroutine, and the order in which the mutex was taken.

  \<^bold>\<open>What the theorems show.\<close>
  \<^item> Firewall: a valid rule compiles to expressions that accept exactly the packets it describes, a
    ruleset to a table with the policy it states, an apply hands over its whole table or nothing and replaces
    exactly that table.  Concurrent
    applies never mix rulesets and all return; a status read meanwhile may count rules of two.
  \<^item> Supervisor: an invariant over all interleavings (no panic, no pid of a finished container),
    no start after Stop, the protocol it keeps with crun, what becomes of each reaped child, the return of Run
    when the pod is done and after a shutdown signal under every fair scheduler, the signals sent on the way and
    the power-off that follows, the restarted container that is never killed, and the hang that a dropped
    exit leaves behind.
  \<^item> Boot: the exact list of mounts with what the kernel command line says about them, and which share a container's root directory leads into; that the
    supervisor is handed what it relies on; which container's spec each bundle holds, its own where ids are plain file names; the boots
    that cannot succeed; and what process 1 makes of its command line.
  \<^item> Network: the netlink messages read back as what was asked for, the exchange with the kernel ends
    with its verdict, success means that everything was put in place; the private key of the overlay
    leaves no file behind.
  \<^item> CubeFS: the wait for a mount ends, no client is left behind, the registry refines a map.  Concurrent
    requests leave what some serial order leaves, and the registry knows the clients that run; a share that
    cannot be unmounted is never mounted again.
  \<^item> Files and formats: what each validator and loader accepts, the round trips of the command line
    and of the runtime's state, the flags of the two commands, and the merge of environments, which is
    equal to a reference that knows no order of the map.

  \<^bold>\<open>Bounds.\<close>  Loops over data are structural.  The wait for a CubeFS mount is a loop with fuel: 152 polls are
  enough for the 30 seconds at 200 ms each, plus the poll at the start and one past the deadline, on a clock
  that advances by at least the time slept, and \<open>waitMounted_returns\<close> proves it.  The reads of a
  netlink exchange are the list of the kernel's answers; past its end the read blocks.  The channel of
  the reaper has the capacity of 64 of the source and drops what does not fit.  Stop polls every 100 ms
  until its deadline, which is an action of its own and may come at any poll.  The loops of Stop, of the
  consumer and of Run are steps, and the liveness theorems bound how many are needed.

  \<^bold>\<open>Fairness.\<close>  An execution is an infinite sequence of states and actions with stuttering (\<open>execution\<close>).
  Weak fairness is asked of Run, Stop and, for the completion of a pod, of the consumer; strong fairness of
  the deadline of Stop, which is offered only between two polls.  Nothing is asked of the children, the
  reaper or the signal.  A call of the runtime is one step and returns, with whatever answer.  \<open>reaches_zero\<close> is the rule the liveness proofs share.
  For the callers of a mutex, \<open>fair_for\<close> asks that each of them is scheduled again and again; each makes one call.

  \<^bold>\<open>Not modelled.\<close>  The encodings of encoding/json are parameters (Boot gathers them in the record \<open>codec\<close>),
  as are the WireGuard library, net.InterfaceByName, the helper executables and initbuild.PodInitrd.
  Logging and the times kept for logging are left out.  Cancelling the context kills a runtime
  command that is under way and refuses later ones; in the model both are errors the runtime may return at
  any time (Oci_Runtime says what this means).  The power-off is not a step of the supervisor's system: \<open>main\<close>
  comes to it as soon as \<open>Run\<close> has returned.  The
  trace of a pool holds the system calls of its goroutines only; what others do in between shows in the
  answers of the kernel, which are arbitrary.  The FUSE mounts of the CubeFS clients are not in the table of mounts, and neither is a directory a
  symbolic link leads to.  The shell scripts and workflows are not part of the program.
\<close>

end
